(* ===== verification/Relay_Prelude.thy ===== *)
theory Relay_Prelude
  imports Main "HOL-Library.Word" "HOL-Library.Multiset"
begin

text \<open>
  What every component of the relay shares: the machine integers, the error values of
  \<^verbatim>\<open>std::io\<close>, \<^verbatim>\<open>Poll\<close>, panics as values, the parts of Rust's string library the
  code uses (decimal printing and parsing, \<^verbatim>\<open>trim\<close>, \<^verbatim>\<open>split\<close>, \<^verbatim>\<open>split_once\<close>), and
  generic lemmas on lists and sums. Strings are lists of (ASCII) characters.
\<close>

unbundle bit_operations_syntax

named_theorems relay_simps \<open>unfolding rules of the small operations of the model\<close>

section \<open>Machine integers, errors, polls and panics\<close>

type_synonym u8 = "8 word"
type_synonym u16 = "16 word"
type_synonym i16 = "16 word"
type_synonym u32 = "32 word"
type_synonym u64 = "64 word"
type_synonym bytes = "u8 list"

datatype io_error =
    WouldBlock | WriteZero | InvalidInput | InvalidData | TimedOut | UnexpectedEof
  | ConnectionAborted | OtherError string

type_synonym 'a io_result = "io_error + 'a"

datatype 'a poll = Pending | Ready 'a

text \<open>
  A panic (a failed \<^verbatim>\<open>assert!\<close>, \<^verbatim>\<open>unwrap\<close>, slice index or \<^verbatim>\<open>unreachable!\<close>) is the left
  value of a sum; the release profile aborts the process there.
\<close>

datatype panic = Panic string

type_synonym 'a checked = "panic + 'a"

definition bind_sum :: "'e + 'a \<Rightarrow> ('a \<Rightarrow> 'e + 'b) \<Rightarrow> 'e + 'b" where
  "bind_sum r f = (case r of Inl e \<Rightarrow> Inl e | Inr x \<Rightarrow> f x)"

lemma bind_sum_simps [simp]:
  "bind_sum (Inl e) f = Inl e"
  "bind_sum (Inr x) f = f x"
  by (simp_all add: bind_sum_def)

lemma bind_sum_Inr_iff: "bind_sum r f = Inr y \<longleftrightarrow> (\<exists>x. r = Inr x \<and> f x = Inr y)"
  by (cases r) auto

fun mapM_sum :: "('a \<Rightarrow> 'e + 'b) \<Rightarrow> 'a list \<Rightarrow> 'e + 'b list" where
  "mapM_sum f [] = Inr []"
| "mapM_sum f (x # xs) =
     bind_sum (f x) (\<lambda>y. bind_sum (mapM_sum f xs) (\<lambda>ys. Inr (y # ys)))"

lemma mapM_sum_Inr_length: "mapM_sum f xs = Inr ys \<Longrightarrow> length ys = length xs"
  by (induction xs arbitrary: ys) (auto simp: bind_sum_Inr_iff)

lemma mapM_sum_Inr_set: "mapM_sum f xs = Inr ys \<Longrightarrow> y \<in> set ys \<Longrightarrow> \<exists>x \<in> set xs. f x = Inr y"
  by (induction xs arbitrary: ys) (auto simp: bind_sum_Inr_iff)

lemma mapM_sum_total: "(\<And>x. x \<in> set xs \<Longrightarrow> f x = Inr (g x)) \<Longrightarrow> mapM_sum f xs = Inr (map g xs)"
  by (induction xs) auto

section \<open>Strings\<close>

definition is_digit :: "char \<Rightarrow> bool" where
  "is_digit c \<longleftrightarrow> 48 \<le> (of_char c :: nat) \<and> (of_char c :: nat) \<le> 57"

definition digit_val :: "char \<Rightarrow> nat" where
  "digit_val c = of_char c - 48"

definition digit_char :: "nat \<Rightarrow> char" where
  "digit_char n = char_of (48 + n)"

lemma digit_char_props [simp]:
  assumes "n < 10"
  shows "is_digit (digit_char n)" and "digit_val (digit_char n) = n"
  using assms by (simp_all add: is_digit_def digit_val_def digit_char_def take_bit_eq_mod)

text \<open>Decimal printing of an unsigned integer (\<^verbatim>\<open>format!("{}", n)\<close>).\<close>

fun show_nat :: "nat \<Rightarrow> string" where
  "show_nat n = (if n < 10 then [digit_char n] else show_nat (n div 10) @ [digit_char (n mod 10)])"

declare show_nat.simps [simp del]

definition digits_val :: "string \<Rightarrow> nat" where
  "digits_val s = foldl (\<lambda>a c. 10 * a + digit_val c) 0 s"

lemma digits_val_snoc [simp]: "digits_val (s @ [c]) = 10 * digits_val s + digit_val c"
  by (simp add: digits_val_def)

lemma digits_val_Nil [simp]: "digits_val [] = 0"
  by (simp add: digits_val_def)

text \<open>
  \<^verbatim>\<open>str::parse\<close> of an unsigned type whose values are below \<open>bound\<close>: an optional plus sign,
  then at least one digit and nothing else, and no overflow.
\<close>

definition parse_uint :: "nat \<Rightarrow> string \<Rightarrow> nat option" where
  "parse_uint bound s =
     (let ds = (case s of c # r \<Rightarrow> if c = CHR ''+'' then r else s | [] \<Rightarrow> [])
      in if ds \<noteq> [] \<and> list_all is_digit ds \<and> digits_val ds < bound
         then Some (digits_val ds) else None)"

lemma show_nat_not_Nil [simp]: "show_nat n \<noteq> []"
  by (subst show_nat.simps) simp

lemma show_nat_digits: "list_all is_digit (show_nat n)"
proof (induction n rule: show_nat.induct)
  case (1 n)
  then show ?case by (subst show_nat.simps) simp
qed

lemma digits_val_show_nat [simp]: "digits_val (show_nat n) = n"
proof (induction n rule: show_nat.induct)
  case (1 n)
  show ?case
  proof (cases "n < 10")
    case True
    then show ?thesis by (simp add: show_nat.simps [of n] digits_val_def)
  next
    case False
    with 1 show ?thesis by (simp add: show_nat.simps [of n])
  qed
qed

lemma show_nat_no_nondigit: "\<not> is_digit c \<Longrightarrow> c \<notin> set (show_nat n)"
  using show_nat_digits [of n] by (auto simp: list_all_iff)

lemma parse_uint_digits:
  assumes "list_all is_digit s" "s \<noteq> []" "digits_val s < bound"
  shows "parse_uint bound s = Some (digits_val s)"
proof -
  have "\<not> is_digit CHR ''+''" by (simp add: is_digit_def)
  then have "(case s of c # r \<Rightarrow> if c = CHR ''+'' then r else s | [] \<Rightarrow> []) = s"
    using assms(1,2) by (auto split: list.splits)
  then show ?thesis using assms by (simp add: parse_uint_def Let_def)
qed

lemma digits_val_less: "list_all is_digit s \<Longrightarrow> digits_val s < 10 ^ length s"
proof (induction s rule: rev_induct)
  case (snoc c s)
  then have "digits_val s < 10 ^ length s" "digit_val c \<le> 9"
    by (auto simp: is_digit_def digit_val_def)
  then show ?case by simp
qed simp

lemma parse_show_nat: "n < bound \<Longrightarrow> parse_uint bound (show_nat n) = Some n"
  using parse_uint_digits [OF show_nat_digits show_nat_not_Nil] by simp

text \<open>\<^verbatim>\<open>char::is_whitespace\<close> on ASCII, and \<^verbatim>\<open>str::trim\<close>.\<close>

definition is_ws :: "char \<Rightarrow> bool" where
  "is_ws c \<longleftrightarrow> (of_char c :: nat) = 32 \<or> (9 \<le> (of_char c :: nat) \<and> (of_char c :: nat) \<le> 13)"

definition trim :: "string \<Rightarrow> string" where
  "trim s = rev (dropWhile is_ws (rev (dropWhile is_ws s)))"

lemma trim_id: "(\<And>c. c \<in> set s \<Longrightarrow> \<not> is_ws c) \<Longrightarrow> trim s = s"
proof -
  assume s: "\<And>c. c \<in> set s \<Longrightarrow> \<not> is_ws c"
  have d: "dropWhile is_ws r = r" if "set r \<subseteq> set s" for r
    using that s by (cases r) auto
  show ?thesis by (simp add: trim_def d)
qed

lemma trim_Cons_ws [simp]: "is_ws c \<Longrightarrow> trim (c # s) = trim s"
  by (simp add: trim_def)

lemma digit_not_ws: "is_digit c \<Longrightarrow> \<not> is_ws c"
  by (auto simp: is_digit_def is_ws_def)

lemma trim_show_nat [simp]: "trim (show_nat n) = show_nat n"
  using show_nat_digits [of n] by (intro trim_id) (auto simp: list_all_iff digit_not_ws)

text \<open>\<^verbatim>\<open>str::split(c)\<close>: the pieces between occurrences of \<open>c\<close>; always at least one.\<close>

fun split_on :: "char \<Rightarrow> string \<Rightarrow> string list" where
  "split_on c [] = [[]]"
| "split_on c (x # xs) =
     (if x = c then [] # split_on c xs
      else (case split_on c xs of p # ps \<Rightarrow> (x # p) # ps | [] \<Rightarrow> [[x]]))"

lemma split_on_not_Nil [simp]: "split_on c s \<noteq> []"
  by (induction s) (auto split: list.splits)

lemma split_on_append_sep: "c \<notin> set p \<Longrightarrow> split_on c (p @ c # s) = p # split_on c s"
  by (induction p) auto

lemma split_on_no_sep: "c \<notin> set p \<Longrightarrow> split_on c p = [p]"
  by (induction p) auto

text \<open>\<^verbatim>\<open>str::split_once(c)\<close>: before and after the first occurrence.\<close>

fun split_once :: "char \<Rightarrow> string \<Rightarrow> (string \<times> string) option" where
  "split_once c [] = None"
| "split_once c (x # xs) =
     (if x = c then Some ([], xs) else map_option (\<lambda>(a, b). (x # a, b)) (split_once c xs))"

lemma split_once_append: "c \<notin> set p \<Longrightarrow> split_once c (p @ c # s) = Some (p, s)"
  by (induction p) auto

text \<open>\<^verbatim>\<open>to_ascii_lowercase\<close>.\<close>

definition lower_char :: "char \<Rightarrow> char" where
  "lower_char c = (if 65 \<le> (of_char c :: nat) \<and> (of_char c :: nat) \<le> 90
                   then char_of (of_char c + (32 :: nat)) else c)"

definition ascii_lower :: "string \<Rightarrow> string" where
  "ascii_lower s = map lower_char s"

text \<open>The bytes of a string (\<^verbatim>\<open>str::as_bytes\<close>).\<close>

definition str_bytes :: "string \<Rightarrow> bytes" where
  "str_bytes s = map of_char s"

section \<open>Generic lemmas\<close>

lemma filter_map_Some: "List.map_filter f (map g xs) = List.map_filter (f \<circ> g) xs"
  by (induction xs) (simp_all add: map_filter_simps split: option.splits)

lemma map_filter_all_Some: "(\<And>x. x \<in> set xs \<Longrightarrow> f x = Some (g x)) \<Longrightarrow> List.map_filter f xs = map g xs"
  by (induction xs) (simp_all add: map_filter_simps)

lemma take_append_drop_slice: "i \<le> j \<Longrightarrow> j \<le> length xs \<Longrightarrow> length (take (j - i) (drop i xs)) = j - i"
  by simp

lemma map2_xor_involution:
  "length ks = length (xs :: 'a::len word list) \<Longrightarrow> map2 (XOR) (map2 (XOR) xs ks) ks = xs"
  by (induction ks xs rule: list_induct2) (simp_all add: xor.assoc)

section \<open>Slices\<close>

text \<open>\<^verbatim>\<open>&xs[i..j]\<close>, which panics when the range is not inside the slice.\<close>

definition sub_slice :: "nat \<Rightarrow> nat \<Rightarrow> 'a list \<Rightarrow> 'a list checked" where
  "sub_slice i j xs = (if i \<le> j \<and> j \<le> length xs then Inr (take (j - i) (drop i xs)) else Inl (Panic ''slice index''))"

lemma sub_slice_ok [simp]: "i \<le> j \<Longrightarrow> j \<le> length xs \<Longrightarrow> sub_slice i j xs = Inr (take (j - i) (drop i xs))"
  by (simp add: sub_slice_def)

end
