(* ===== verification/Stream_IO.thy ===== *)
theory Stream_IO
  imports Relay_Prelude
begin

text \<open>
  The byte streams the relay copies between (tokio's \<^verbatim>\<open>AsyncRead\<close> and \<^verbatim>\<open>AsyncWrite\<close>). What the
  network and the runtime do is not the program's code: a stream carries scripts of what its next
  polls answer, so that a theorem about all scripts is about all behaviours of the environment.
  \<open>rcvd\<close> and \<open>sent\<close> log the bytes that were delivered to and accepted from the program,
  \<open>flushed\<close> how many of the accepted bytes the last flush covered. An empty script is a poll
  that has to wait.
\<close>

datatype rd_ev = RdData bytes | RdErr io_error | RdPending
datatype wr_ev = WrAccept nat | WrClaim nat | WrErr io_error | WrPending
datatype fl_ev = FlOk | FlErr io_error | FlPending

text \<open>
  \<open>WrAccept n\<close> takes at most \<open>n\<close> bytes of the slice it is given. \<open>WrClaim n\<close> is a broken writer,
  which reports \<open>n\<close> bytes whatever the length of the slice.
\<close>

record stream =
  rd_evs :: "rd_ev list"
  wr_evs :: "wr_ev list"
  fl_evs :: "fl_ev list"
  sd_evs :: "fl_ev list"
  rcvd :: bytes
  sent :: bytes
  flushed :: nat
  shut :: bool

definition poll_read :: "nat \<Rightarrow> stream \<Rightarrow> bytes io_result poll \<times> stream" where
  "poll_read n s =
     (case rd_evs s of
        [] \<Rightarrow> (Pending, s)
      | RdPending # es \<Rightarrow> (Pending, s\<lparr>rd_evs := es\<rparr>)
      | RdErr e # es \<Rightarrow> (Ready (Inl e), s\<lparr>rd_evs := es\<rparr>)
      | RdData bs # es \<Rightarrow>
          (Ready (Inr (take n bs)),
           s\<lparr>rd_evs := (if length bs \<le> n then es else RdData (drop n bs) # es),
             rcvd := rcvd s @ take n bs\<rparr>))"

definition poll_write :: "bytes \<Rightarrow> stream \<Rightarrow> nat io_result poll \<times> stream" where
  "poll_write bs s =
     (case wr_evs s of
        [] \<Rightarrow> (Pending, s)
      | WrPending # es \<Rightarrow> (Pending, s\<lparr>wr_evs := es\<rparr>)
      | WrErr e # es \<Rightarrow> (Ready (Inl e), s\<lparr>wr_evs := es\<rparr>)
      | WrAccept n # es \<Rightarrow>
          (Ready (Inr (min n (length bs))), s\<lparr>wr_evs := es, sent := sent s @ take n bs\<rparr>)
      | WrClaim n # es \<Rightarrow>
          (Ready (Inr n), s\<lparr>wr_evs := es, sent := sent s @ take n bs\<rparr>))"

definition poll_flush :: "stream \<Rightarrow> unit io_result poll \<times> stream" where
  "poll_flush s =
     (case fl_evs s of
        [] \<Rightarrow> (Pending, s)
      | FlPending # es \<Rightarrow> (Pending, s\<lparr>fl_evs := es\<rparr>)
      | FlErr e # es \<Rightarrow> (Ready (Inl e), s\<lparr>fl_evs := es\<rparr>)
      | FlOk # es \<Rightarrow> (Ready (Inr ()), s\<lparr>fl_evs := es, flushed := length (sent s)\<rparr>))"

definition poll_shutdown :: "stream \<Rightarrow> unit io_result poll \<times> stream" where
  "poll_shutdown s =
     (case sd_evs s of
        [] \<Rightarrow> (Pending, s)
      | FlPending # es \<Rightarrow> (Pending, s\<lparr>sd_evs := es\<rparr>)
      | FlErr e # es \<Rightarrow> (Ready (Inl e), s\<lparr>sd_evs := es\<rparr>)
      | FlOk # es \<Rightarrow> (Ready (Inr ()), s\<lparr>sd_evs := es, shut := True\<rparr>))"

text \<open>The number of bytes a read script still delivers: what a reading loop uses up.\<close>

fun ev_bytes :: "rd_ev \<Rightarrow> nat" where
  "ev_bytes (RdData bs) = length bs"
| "ev_bytes _ = 0"

definition rd_bytes :: "stream \<Rightarrow> nat" where
  "rd_bytes s = sum_list (map ev_bytes (rd_evs s))"

definition honest :: "stream \<Rightarrow> bool" where
  "honest s \<longleftrightarrow> (\<forall>n. WrClaim n \<notin> set (wr_evs s))"

text \<open>
  What a poll leaves alone. A read changes the read script and \<open>rcvd\<close> only, a write the write
  script and \<open>sent\<close>, a flush and a shutdown their scripts and marks.
\<close>

lemma poll_read_cases:
  assumes "poll_read n s = (p, s')"
  obtains (wait) "p = Pending" "rcvd s' = rcvd s"
  | (err) e where "p = Ready (Inl e)" "rcvd s' = rcvd s"
  | (data) bs where "p = Ready (Inr bs)" "rcvd s' = rcvd s @ bs" "length bs \<le> n"
      "rd_bytes s = length bs + rd_bytes s'"
  using assms unfolding poll_read_def rd_bytes_def
  by (auto split: list.splits rd_ev.splits if_splits)

lemma poll_read_frame:
  "poll_read n s = (p, s') \<Longrightarrow>
     sent s' = sent s \<and> flushed s' = flushed s \<and> shut s' = shut s \<and>
     wr_evs s' = wr_evs s \<and> fl_evs s' = fl_evs s \<and> sd_evs s' = sd_evs s"
  by (auto simp: poll_read_def split: list.splits rd_ev.splits)

lemma poll_write_frame:
  "poll_write bs s = (p, s') \<Longrightarrow>
     rcvd s' = rcvd s \<and> flushed s' = flushed s \<and> shut s' = shut s \<and>
     rd_evs s' = rd_evs s \<and> fl_evs s' = fl_evs s \<and> sd_evs s' = sd_evs s"
  by (auto simp: poll_write_def split: list.splits wr_ev.splits)

lemma poll_write_cases:
  assumes "poll_write bs s = (p, s')" and "honest s"
  obtains (wait) "p = Pending" "sent s' = sent s"
  | (err) e where "p = Ready (Inl e)" "sent s' = sent s"
  | (wrote) i where "p = Ready (Inr i)" "i \<le> length bs" "sent s' = sent s @ take i bs"
      "length (wr_evs s') < length (wr_evs s)"
  using assms unfolding poll_write_def honest_def
  by (auto split: list.splits wr_ev.splits)
    (metis (no_types, lifting) min.bounded_iff min_def order_refl take_all)+

lemma poll_write_honest: "poll_write bs s = (p, s') \<Longrightarrow> honest s \<Longrightarrow> honest s'"
  by (auto simp: poll_write_def honest_def split: list.splits wr_ev.splits)

lemma poll_flush_cases:
  assumes "poll_flush s = (p, s')"
  obtains (wait) "p = Pending" "sent s' = sent s" "flushed s' = flushed s"
  | (err) e where "p = Ready (Inl e)" "sent s' = sent s" "flushed s' = flushed s"
  | (fin) "p = Ready (Inr ())" "sent s' = sent s" "flushed s' = length (sent s)"
  using assms unfolding poll_flush_def by (auto split: list.splits fl_ev.splits)

lemma poll_flush_frame:
  "poll_flush s = (p, s') \<Longrightarrow>
     rcvd s' = rcvd s \<and> sent s' = sent s \<and> shut s' = shut s \<and> rd_evs s' = rd_evs s \<and> wr_evs s' = wr_evs s \<and>
     sd_evs s' = sd_evs s"
  by (auto simp: poll_flush_def split: list.splits fl_ev.splits)

lemma poll_shutdown_frame:
  "poll_shutdown s = (p, s') \<Longrightarrow>
     rcvd s' = rcvd s \<and> sent s' = sent s \<and> flushed s' = flushed s \<and> rd_evs s' = rd_evs s \<and> wr_evs s' = wr_evs s \<and>
     fl_evs s' = fl_evs s \<and> (p = Ready (Inr ()) \<longrightarrow> shut s')"
  by (auto simp: poll_shutdown_def split: list.splits fl_ev.splits)

definition rd_frame :: "stream \<Rightarrow> stream \<Rightarrow> bool" where
  "rd_frame s s' \<longleftrightarrow> sent s' = sent s \<and> flushed s' = flushed s \<and> shut s' = shut s \<and>
     wr_evs s' = wr_evs s \<and> fl_evs s' = fl_evs s \<and> sd_evs s' = sd_evs s"

definition wr_frame :: "stream \<Rightarrow> stream \<Rightarrow> bool" where
  "wr_frame s s' \<longleftrightarrow> rcvd s' = rcvd s \<and> rd_evs s' = rd_evs s \<and> (honest s \<longrightarrow> honest s')"

lemma frame_refl [simp]: "rd_frame s s" "wr_frame s s"
  by (simp_all add: rd_frame_def wr_frame_def)

lemma rd_frame_trans: "rd_frame s t \<Longrightarrow> rd_frame t u \<Longrightarrow> rd_frame s u"
  by (simp add: rd_frame_def)

lemma wr_frame_trans: "wr_frame s t \<Longrightarrow> wr_frame t u \<Longrightarrow> wr_frame s u"
  by (simp add: wr_frame_def)

lemma rd_frame_honest: "rd_frame s t \<Longrightarrow> honest t = honest s"
  by (simp add: rd_frame_def honest_def)

lemma poll_flush_wr_frame: "poll_flush s = (p, s') \<Longrightarrow> wr_frame s s' \<and> sent s' = sent s \<and> wr_evs s' = wr_evs s"
  using poll_flush_frame by (simp add: wr_frame_def honest_def)

lemma poll_read_rd_frame: "poll_read n s = (p, s') \<Longrightarrow> rd_frame s s'"
  using poll_read_frame by (simp add: rd_frame_def)

section \<open>Awaiting whole buffers\<close>

text \<open>
  \<^verbatim>\<open>read_exact\<close> and \<^verbatim>\<open>write_all\<close> of tokio, awaited to the end: a wait is skipped until the next
  event of the script, the end of the script is a future that never completes.
\<close>

function read_exact :: "nat \<Rightarrow> stream \<Rightarrow> bytes io_result poll \<times> stream" where
  "read_exact n s =
     (if n = 0 then (Ready (Inr []), s)
      else if rd_evs s = [] then (Pending, s)
      else case poll_read n s of
             (Pending, s') \<Rightarrow> read_exact n s'
           | (Ready (Inl e), s') \<Rightarrow> (Ready (Inl e), s')
           | (Ready (Inr bs), s') \<Rightarrow>
               if bs = [] then (Ready (Inl UnexpectedEof), s')
               else (case read_exact (n - length bs) s' of
                       (Ready (Inr cs), s'') \<Rightarrow> (Ready (Inr (bs @ cs)), s'')
                     | r \<Rightarrow> r))"
  by pat_completeness auto
termination
  by (relation "measures [\<lambda>(n, s). n, \<lambda>(n, s). length (rd_evs s)]")
    (auto simp: poll_read_def split: list.splits rd_ev.splits if_splits)

declare read_exact.simps [simp del]

function write_all :: "bytes \<Rightarrow> stream \<Rightarrow> unit io_result poll \<times> stream" where
  "write_all bs s =
     (if bs = [] then (Ready (Inr ()), s)
      else if wr_evs s = [] then (Pending, s)
      else case poll_write bs s of
             (Pending, s') \<Rightarrow> write_all bs s'
           | (Ready (Inl e), s') \<Rightarrow> (Ready (Inl e), s')
           | (Ready (Inr n), s') \<Rightarrow>
               if n = 0 then (Ready (Inl WriteZero), s') else write_all (drop n bs) s')"
  by pat_completeness auto
termination
  by (relation "measure (\<lambda>(bs, s). length (wr_evs s))")
    (auto simp: poll_write_def split: list.splits wr_ev.splits)

declare write_all.simps [simp del]

lemma read_exact_Ready:
  "read_exact n s = (Ready (Inr bs), s') \<Longrightarrow> length bs = n \<and> rcvd s' = rcvd s @ bs"
proof (induction n s arbitrary: bs s' rule: read_exact.induct)
  case (1 n s)
  show ?case
  proof (cases "n = 0 \<or> rd_evs s = []")
    case True
    with "1.prems" show ?thesis by (subst (asm) read_exact.simps) (auto split: if_splits)
  next
    case False
    then have n: "n \<noteq> 0" and ev: "rd_evs s \<noteq> []" by auto
    obtain p t where pr: "poll_read n s = (p, t)" by (cases "poll_read n s")
    show ?thesis
    proof (rule poll_read_cases [OF pr])
      assume p: "p = Pending" "rcvd t = rcvd s"
      then have "read_exact n t = (Ready (Inr bs), s')"
        using "1.prems" n ev pr by (subst (asm) read_exact.simps) simp
      with "1.IH"(1) [OF n ev pr [symmetric] p(1)] p(2) show ?thesis by simp
    next
      fix e assume "p = Ready (Inl e)"
      then show ?thesis using "1.prems" n ev pr by (subst (asm) read_exact.simps) simp
    next
      fix cs assume p: "p = Ready (Inr cs)" "rcvd t = rcvd s @ cs" "length cs \<le> n"
      have ne: "cs \<noteq> []" using "1.prems" n ev pr p(1) by (subst (asm) read_exact.simps) (auto split: if_splits)
      obtain q u where r: "read_exact (n - length cs) t = (q, u)" by (cases "read_exact (n - length cs) t")
      obtain ds where q: "q = Ready (Inr ds)" "bs = cs @ ds" "s' = u"
        using "1.prems" n ev pr p(1) ne r
        by (subst (asm) read_exact.simps) (auto split: poll.splits sum.splits)
      have "length ds = n - length cs \<and> rcvd u = rcvd t @ ds"
        using "1.IH"(2) [OF n ev pr [symmetric] p(1) refl ne] r q(1) by simp
      with q p show ?thesis by simp
    qed
  qed
qed

lemma read_exact_rd_frame: "read_exact n s = (p, s') \<Longrightarrow> rd_frame s s'"
proof (induction n s arbitrary: p s' rule: read_exact.induct)
  case (1 n s)
  show ?case
  proof (cases "n = 0 \<or> rd_evs s = []")
    case True
    with "1.prems" show ?thesis by (subst (asm) read_exact.simps) (auto split: if_splits)
  next
    case False
    then have n: "n \<noteq> 0" and ev: "rd_evs s \<noteq> []" by auto
    obtain q t where q: "poll_read n s = (q, t)" by (cases "poll_read n s")
    note f = poll_read_rd_frame [OF q]
    show ?thesis
    proof (cases q)
      case Pending
      then have "read_exact n t = (p, s')" using "1.prems" n ev q by (simp add: read_exact.simps [of n s])
      from "1.IH"(1) [OF n ev q [symmetric] Pending this] f show ?thesis by (rule rd_frame_trans [rotated])
    next
      case (Ready res)
      show ?thesis
      proof (cases "\<exists>bs. res = Inr bs \<and> bs \<noteq> []")
        case True
        then obtain bs where bs: "res = Inr bs" "bs \<noteq> []" by blast
        obtain u v where u: "read_exact (n - length bs) t = (u, v)" by (cases "read_exact (n - length bs) t")
        have "s' = v" using "1.prems" n ev q Ready bs u
          by (auto simp: read_exact.simps [of n s] split: poll.splits sum.splits)
        with "1.IH"(2) [OF n ev q [symmetric] Ready bs u] f show ?thesis using rd_frame_trans by blast
      next
        case False
        then have "s' = t" using "1.prems" n ev q Ready
          by (auto simp: read_exact.simps [of n s] split: sum.splits)
        with f show ?thesis by simp
      qed
    qed
  qed
qed

lemma write_all_Ready:
  "write_all bs s = (Ready (Inr ()), s') \<Longrightarrow> honest s \<Longrightarrow>
     sent s' = sent s @ bs \<and> honest s' \<and> rcvd s' = rcvd s \<and> rd_evs s' = rd_evs s \<and> flushed s' = flushed s"
proof (induction bs s arbitrary: s' rule: write_all.induct)
  case (1 bs s)
  show ?case
  proof (cases "bs = [] \<or> wr_evs s = []")
    case True
    with "1.prems" show ?thesis by (subst (asm) write_all.simps) (auto split: if_splits)
  next
    case False
    then have bs: "bs \<noteq> []" and ev: "wr_evs s \<noteq> []" by auto
    obtain p t where pw: "poll_write bs s = (p, t)" by (cases "poll_write bs s")
    note fr = poll_write_frame [OF pw] and h = poll_write_honest [OF pw "1.prems"(2)]
    show ?thesis
    proof (rule poll_write_cases [OF pw "1.prems"(2)])
      assume p: "p = Pending" "sent t = sent s"
      then have "write_all bs t = (Ready (Inr ()), s')"
        using "1.prems" bs ev pw by (subst (asm) write_all.simps) simp
      with "1.IH"(1) [OF bs ev pw [symmetric] p(1) _ h] p(2) fr show ?thesis by simp
    next
      fix e assume "p = Ready (Inl e)"
      then show ?thesis using "1.prems" bs ev pw by (subst (asm) write_all.simps) simp
    next
      fix i assume p: "p = Ready (Inr i)" "i \<le> length bs" "sent t = sent s @ take i bs"
      have i: "i \<noteq> 0" and w: "write_all (drop i bs) t = (Ready (Inr ()), s')"
        using "1.prems" bs ev pw p(1) by (subst (asm) write_all.simps, auto split: if_splits)+
      with "1.IH"(2) [OF bs ev pw [symmetric] p(1) refl i w h] p fr show ?thesis by simp
    qed
  qed
qed

text \<open>However they end, what was read was delivered in order, and what was written is a prefix of the bytes.\<close>

lemma read_exact_rcvd: "read_exact n s = (p, s') \<Longrightarrow> \<exists>bs. rcvd s' = rcvd s @ bs"
proof (induction n s arbitrary: p s' rule: read_exact.induct)
  case (1 n s)
  show ?case
  proof (cases "n = 0 \<or> rd_evs s = []")
    case True
    with "1.prems" show ?thesis by (subst (asm) read_exact.simps) (auto split: if_splits)
  next
    case False
    then have n: "n \<noteq> 0" and ev: "rd_evs s \<noteq> []" by auto
    obtain q t where q: "poll_read n s = (q, t)" by (cases "poll_read n s")
    have t: "\<exists>bs. rcvd t = rcvd s @ bs" by (rule poll_read_cases [OF q]) auto
    show ?thesis
    proof (cases q)
      case Pending
      then have "read_exact n t = (p, s')" using "1.prems" n ev q by (simp add: read_exact.simps [of n s])
      from "1.IH"(1) [OF n ev q [symmetric] Pending this] t show ?thesis by auto
    next
      case (Ready res)
      show ?thesis
      proof (cases "\<exists>bs. res = Inr bs \<and> bs \<noteq> []")
        case True
        then obtain bs where bs: "res = Inr bs" "bs \<noteq> []" by blast
        obtain u v where u: "read_exact (n - length bs) t = (u, v)" by (cases "read_exact (n - length bs) t")
        have "s' = v" using "1.prems" n ev q Ready bs u
          by (auto simp: read_exact.simps [of n s] split: poll.splits sum.splits)
        with "1.IH"(2) [OF n ev q [symmetric] Ready bs u] t show ?thesis by auto
      next
        case False
        then have "s' = t" using "1.prems" n ev q Ready
          by (auto simp: read_exact.simps [of n s] split: sum.splits)
        with t show ?thesis by simp
      qed
    qed
  qed
qed

lemma write_all_sent:
  "write_all bs s = (p, s') \<Longrightarrow> honest s \<Longrightarrow> honest s' \<and> rcvd s' = rcvd s \<and> (\<exists>k. sent s' = sent s @ take k bs)"
proof (induction bs s arbitrary: p s' rule: write_all.induct)
  case (1 bs s)
  show ?case
  proof (cases "bs = [] \<or> wr_evs s = []")
    case True
    with "1.prems" show ?thesis by (subst (asm) write_all.simps) (auto split: if_splits intro: exI [of _ 0])
  next
    case False
    then have bs: "bs \<noteq> []" and ev: "wr_evs s \<noteq> []" by auto
    obtain q t where pw: "poll_write bs s = (q, t)" by (cases "poll_write bs s")
    note fr = poll_write_frame [OF pw] and h = poll_write_honest [OF pw "1.prems"(2)]
    show ?thesis
    proof (rule poll_write_cases [OF pw "1.prems"(2)])
      assume q: "q = Pending" "sent t = sent s"
      then have "write_all bs t = (p, s')" using "1.prems" bs ev pw by (subst (asm) write_all.simps) simp
      with "1.IH"(1) [OF bs ev pw [symmetric] q(1) _ h] q(2) fr show ?thesis by simp
    next
      fix e assume q: "q = Ready (Inl e)" "sent t = sent s"
      then have "s' = t" using "1.prems" bs ev pw by (subst (asm) write_all.simps) simp
      then show ?thesis using q fr h by (auto intro: exI [of _ 0])
    next
      fix i assume q: "q = Ready (Inr i)" "i \<le> length bs" "sent t = sent s @ take i bs"
      show ?thesis
      proof (cases "i = 0")
        case True
        then have "s' = t" using "1.prems" bs ev pw q by (subst (asm) write_all.simps) simp
        then show ?thesis using q fr h by (auto intro: exI [of _ i])
      next
        case False
        then have "write_all (drop i bs) t = (p, s')" using "1.prems" bs ev pw q by (subst (asm) write_all.simps) simp
        with "1.IH"(2) [OF bs ev pw [symmetric] q(1) refl False _ h] obtain k where
          "honest s'" "rcvd s' = rcvd t" "sent s' = sent t @ take k (drop i bs)" by blast
        moreover have "take i bs @ take k (drop i bs) = take (i + k) bs" by (simp add: take_add)
        ultimately show ?thesis using q fr by (intro conjI exI [of _ "i + k"]) simp_all
      qed
    qed
  qed
qed

section \<open>Well-behaved input\<close>

text \<open>
  The bytes a script still delivers, and a script that delivers them without an error or an end
  of file, in chunks of any size with any waits in between.
\<close>

fun ev_data :: "rd_ev \<Rightarrow> bytes" where
  "ev_data (RdData bs) = bs"
| "ev_data _ = []"

definition incoming :: "stream \<Rightarrow> bytes" where
  "incoming s = concat (map ev_data (rd_evs s))"

fun clean_ev :: "rd_ev \<Rightarrow> bool" where
  "clean_ev (RdData bs) = (bs \<noteq> [])"
| "clean_ev (RdErr e) = False"
| "clean_ev RdPending = True"

lemma poll_read_incoming:
  "poll_read n s = (p, s') \<Longrightarrow> incoming s = (case p of Ready (Inr bs) \<Rightarrow> bs | _ \<Rightarrow> []) @ incoming s'"
  by (auto simp: poll_read_def incoming_def split: list.splits rd_ev.splits if_splits)

text \<open>One read, awaited.\<close>

function await_read :: "nat \<Rightarrow> stream \<Rightarrow> bytes io_result poll \<times> stream" where
  "await_read n s =
     (if rd_evs s = [] then (Pending, s)
      else case poll_read n s of
             (Pending, s') \<Rightarrow> await_read n s'
           | (Ready r, s') \<Rightarrow> (Ready r, s'))"
  by pat_completeness auto
termination
  by (relation "measure (\<lambda>(n, s). length (rd_evs s))")
    (auto simp: poll_read_def split: list.splits rd_ev.splits)

declare await_read.simps [simp del]

lemma await_read_incoming:
  "await_read n s = (p, s') \<Longrightarrow>
     incoming s = (case p of Ready (Inr bs) \<Rightarrow> bs | _ \<Rightarrow> []) @ incoming s' \<and>
     (case p of Ready (Inr bs) \<Rightarrow> length bs \<le> n | _ \<Rightarrow> True) \<and> rd_frame s s'"
proof (induction n s arbitrary: p s' rule: await_read.induct)
  case (1 n s)
  obtain q t where q: "poll_read n s = (q, t)" by (cases "poll_read n s")
  note f = poll_read_incoming [OF q] poll_read_rd_frame [OF q]
  have len: "q = Ready (Inr bs) \<Longrightarrow> length bs \<le> n" for bs
    using q by (auto elim: poll_read_cases)
  show ?case
  proof (cases "rd_evs s = [] \<or> q \<noteq> Pending")
    case True
    then show ?thesis using "1.prems" q f len
      by (cases q) (auto simp: await_read.simps [of n s] split: if_splits sum.splits)
  next
    case False
    then have "await_read n t = (p, s')" using "1.prems" q by (simp add: await_read.simps [of n s])
    with "1.IH" [OF _ q [symmetric]] False f show ?thesis by (auto intro: rd_frame_trans)
  qed
qed

definition clean :: "stream \<Rightarrow> bool" where
  "clean s \<longleftrightarrow> list_all clean_ev (rd_evs s)"

lemma poll_read_clean:
  assumes "poll_read n s = (p, s')" "clean s" "n \<noteq> 0"
  shows "clean s' \<and> (p = Pending \<and> incoming s' = incoming s \<or>
    (\<exists>bs. p = Ready (Inr bs) \<and> bs \<noteq> [] \<and> length bs \<le> n \<and> incoming s = bs @ incoming s'))"
  using assms unfolding poll_read_def clean_def incoming_def
  by (auto split: list.splits rd_ev.splits if_splits)

lemma read_exact_clean:
  "clean s \<Longrightarrow> n \<le> length (incoming s) \<Longrightarrow>
     \<exists>s'. read_exact n s = (Ready (Inr (take n (incoming s))), s') \<and> clean s' \<and> incoming s' = drop n (incoming s)"
proof (induction n s rule: read_exact.induct)
  case (1 n s)
  show ?case
  proof (cases "n = 0")
    case True
    with "1.prems" show ?thesis by (subst read_exact.simps) simp
  next
    case n: False
    then have ev: "rd_evs s \<noteq> []" using "1.prems"(2) by (auto simp: incoming_def)
    obtain p t where pr: "poll_read n s = (p, t)" by (cases "poll_read n s")
    note c = poll_read_clean [OF pr "1.prems"(1) n]
    show ?thesis
    proof (cases p)
      case Pending
      have "read_exact n s = read_exact n t"
        using n ev pr Pending by (simp add: read_exact.simps [of n s])
      moreover have "incoming t = incoming s" using c Pending by simp
      ultimately show ?thesis
        using "1.IH"(1) [OF n ev pr [symmetric] Pending] c "1.prems"(2) by simp
    next
      case (Ready res)
      then obtain bs where bs: "res = Inr bs" "bs \<noteq> []" "length bs \<le> n" "incoming s = bs @ incoming t"
        using c by auto
      have len: "n - length bs \<le> length (incoming t)" using "1.prems"(2) bs(4) by simp
      obtain u where u: "read_exact (n - length bs) t = (Ready (Inr (take (n - length bs) (incoming t))), u)"
        "clean u" "incoming u = drop (n - length bs) (incoming t)"
        using "1.IH"(2) [OF n ev pr [symmetric] Ready bs(1,2)] c len by blast
      have "read_exact n s = (Ready (Inr (bs @ take (n - length bs) (incoming t))), u)"
        using n ev pr Ready bs(1,2) u(1) by (simp add: read_exact.simps [of n s])
      then show ?thesis using u(2,3) bs(3,4) by simp
    qed
  qed
qed

end
