(* ===== verification/Peek.thy ===== *)
theory Peek
  imports Stream_IO "HOL-Library.Sublist"
begin

text \<open>
  The stream wrappers of \<^verbatim>\<open>hoorayhug_io\<close>: \<^verbatim>\<open>PeekStream\<close> (\<^verbatim>\<open>peek.rs\<close>), which buffers
  bytes that were looked at, and \<^verbatim>\<open>StatStream\<close> (\<^verbatim>\<open>statistic.rs\<close>), which counts the bytes written.
  Futures are awaited to the end; the loop of \<^verbatim>\<open>peek_exact\<close> has fuel, and running out of it is
  \<open>None\<close>. Slice indices out of range and length mismatches of \<^verbatim>\<open>copy_from_slice\<close> panic.
\<close>

section \<open>PeekStream\<close>

record peek_stream =
  pk_rd :: nat
  pk_wr :: nat
  pk_io :: stream
  pk_buf :: bytes

definition peek_new :: "stream \<Rightarrow> bytes \<Rightarrow> peek_stream" where
  "peek_new io buf = \<lparr>pk_rd = 0, pk_wr = 0, pk_io = io, pk_buf = buf\<rparr>"

definition peek_new_alloc :: "stream \<Rightarrow> nat \<Rightarrow> peek_stream" where
  "peek_new_alloc io n = \<lparr>pk_rd = 0, pk_wr = 0, pk_io = io, pk_buf = replicate n 0\<rparr>"

definition filled_slice :: "peek_stream \<Rightarrow> bytes checked" where
  "filled_slice p = sub_slice (pk_rd p) (pk_wr p) (pk_buf p)"

definition unfilled_slice :: "peek_stream \<Rightarrow> bytes checked" where
  "unfilled_slice p = sub_slice (pk_wr p) (length (pk_buf p)) (pk_buf p)"

definition capacity :: "peek_stream \<Rightarrow> nat" where
  "capacity p = length (pk_buf p)"

definition filled :: "peek_stream \<Rightarrow> nat" where
  "filled p = pk_wr p - pk_rd p"

definition unfilled :: "peek_stream \<Rightarrow> nat" where
  "unfilled p = length (pk_buf p) - pk_wr p"

definition try_reset :: "peek_stream \<Rightarrow> peek_stream" where
  "try_reset p = (if filled p = 0 then p\<lparr>pk_rd := 0, pk_wr := 0\<rparr> else p)"

text \<open>The future \<^verbatim>\<open>Peek\<close>, awaited.\<close>

definition peek_fill :: "peek_stream \<Rightarrow> (nat io_result poll \<times> peek_stream) checked" where
  "peek_fill p =
     bind_sum (unfilled_slice p) (\<lambda>room.
       case await_read (length room) (pk_io p) of
         (Pending, io) \<Rightarrow> Inr (Pending, p\<lparr>pk_io := io\<rparr>)
       | (Ready (Inl e), io) \<Rightarrow> Inr (Ready (Inl e), p\<lparr>pk_io := io\<rparr>)
       | (Ready (Inr bs), io) \<Rightarrow>
           Inr (Ready (Inr (length bs)),
                p\<lparr>pk_io := io, pk_buf := take (pk_wr p) (pk_buf p) @ bs @ drop (pk_wr p + length bs) (pk_buf p),
                  pk_wr := pk_wr p + length bs\<rparr>))"

text \<open>The last three lines of \<^verbatim>\<open>peek\<close> and \<^verbatim>\<open>peek_exact\<close>: \<open>len\<close> bytes for the caller.\<close>

definition copy_out :: "nat \<Rightarrow> peek_stream \<Rightarrow> bytes checked" where
  "copy_out len p =
     bind_sum (filled_slice p) (\<lambda>fs.
     bind_sum (sub_slice 0 (pk_rd p + len) fs) (\<lambda>src.
       if length src = len then Inr src else Inl (Panic ''copy_from_slice'')))"

definition peek :: "nat \<Rightarrow> peek_stream \<Rightarrow> (bytes io_result poll \<times> peek_stream) checked" where
  "peek n p0 =
     (let p = try_reset p0 in
      bind_sum (if 0 < unfilled p then peek_fill p else Inr (Ready (Inr 0), p)) (\<lambda>(r, p').
        case r of
          Pending \<Rightarrow> Inr (Pending, p')
        | Ready (Inl e) \<Rightarrow> Inr (Ready (Inl e), p')
        | Ready (Inr _) \<Rightarrow>
            bind_sum (copy_out (min (filled p') n) p') (\<lambda>bs. Inr (Ready (Inr bs), p'))))"

fun peek_loop :: "nat \<Rightarrow> nat \<Rightarrow> peek_stream \<Rightarrow> (unit io_result poll \<times> peek_stream) checked option" where
  "peek_loop 0 required p = None"
| "peek_loop (Suc fuel) required p =
     (if 0 < required
      then case peek_fill p of
             Inl e \<Rightarrow> Some (Inl e)
           | Inr (Pending, p') \<Rightarrow> Some (Inr (Pending, p'))
           | Inr (Ready (Inl e), p') \<Rightarrow> Some (Inr (Ready (Inl e), p'))
           | Inr (Ready (Inr n), p') \<Rightarrow> peek_loop fuel (required - n) p'
      else Some (Inr (Ready (Inr ()), p)))"

definition peek_exact :: "nat \<Rightarrow> nat \<Rightarrow> peek_stream \<Rightarrow> (bytes io_result poll \<times> peek_stream) checked option" where
  "peek_exact fuel len p0 =
     (if capacity p0 < len then Some (Inl (Panic ''assertion failed''))
      else let p = try_reset p0 in
           map_option (\<lambda>r. bind_sum r (\<lambda>(s, p').
             case s of
               Pending \<Rightarrow> Inr (Pending, p')
             | Ready (Inl e) \<Rightarrow> Inr (Ready (Inl e), p')
             | Ready (Inr _) \<Rightarrow> bind_sum (copy_out len p') (\<lambda>bs. Inr (Ready (Inr bs), p'))))
           (peek_loop fuel (len - filled p) p))"

definition pk_poll_read :: "nat \<Rightarrow> peek_stream \<Rightarrow> (bytes io_result poll \<times> peek_stream) checked" where
  "pk_poll_read n p =
     (if pk_rd p = pk_wr p
      then case poll_read n (pk_io p) of (r, io) \<Rightarrow> Inr (r, p\<lparr>pk_io := io\<rparr>)
      else let len = min (pk_wr p - pk_rd p) n in
           bind_sum (sub_slice (pk_rd p) (pk_rd p + len) (pk_buf p)) (\<lambda>bs.
             Inr (Ready (Inr bs), p\<lparr>pk_rd := pk_rd p + len\<rparr>)))"

definition pk_poll_write :: "bytes \<Rightarrow> peek_stream \<Rightarrow> nat io_result poll \<times> peek_stream" where
  "pk_poll_write bs p = (case poll_write bs (pk_io p) of (r, io) \<Rightarrow> (r, p\<lparr>pk_io := io\<rparr>))"

definition pk_poll_flush :: "peek_stream \<Rightarrow> unit io_result poll \<times> peek_stream" where
  "pk_poll_flush p = (case poll_flush (pk_io p) of (r, io) \<Rightarrow> (r, p\<lparr>pk_io := io\<rparr>))"

definition pk_poll_shutdown :: "peek_stream \<Rightarrow> unit io_result poll \<times> peek_stream" where
  "pk_poll_shutdown p = (case poll_shutdown (pk_io p) of (r, io) \<Rightarrow> (r, p\<lparr>pk_io := io\<rparr>))"

section \<open>StatStream\<close>

record stat_stream =
  st_io :: stream
  st_stat :: nat

definition stat_new :: "stream \<Rightarrow> nat \<Rightarrow> stat_stream" where
  "stat_new io n = \<lparr>st_io = io, st_stat = n\<rparr>"

definition st_poll_read :: "nat \<Rightarrow> stat_stream \<Rightarrow> bytes io_result poll \<times> stat_stream" where
  "st_poll_read n s = (case poll_read n (st_io s) of (r, io) \<Rightarrow> (r, s\<lparr>st_io := io\<rparr>))"

definition st_poll_write :: "bytes \<Rightarrow> stat_stream \<Rightarrow> nat io_result poll \<times> stat_stream" where
  "st_poll_write bs s =
     (case poll_write bs (st_io s) of
        (Ready (Inr n), io) \<Rightarrow> (Ready (Inr n), s\<lparr>st_io := io, st_stat := st_stat s + n\<rparr>)
      | (Ready (Inl e), io) \<Rightarrow> (Ready (Inl e), s\<lparr>st_io := io\<rparr>)
      | (Pending, io) \<Rightarrow> (Pending, s\<lparr>st_io := io\<rparr>))"

definition st_poll_flush :: "stat_stream \<Rightarrow> unit io_result poll \<times> stat_stream" where
  "st_poll_flush s = (case poll_flush (st_io s) of (r, io) \<Rightarrow> (r, s\<lparr>st_io := io\<rparr>))"

definition st_poll_shutdown :: "stat_stream \<Rightarrow> unit io_result poll \<times> stat_stream" where
  "st_poll_shutdown s = (case poll_shutdown (st_io s) of (r, io) \<Rightarrow> (r, s\<lparr>st_io := io\<rparr>))"

text \<open>Gathered writes write the concatenation of the slices.\<close>

definition st_poll_write_vectored :: "bytes list \<Rightarrow> stat_stream \<Rightarrow> nat io_result poll \<times> stat_stream" where
  "st_poll_write_vectored iovec s = st_poll_write (concat iovec) s"

definition pk_poll_write_vectored :: "bytes list \<Rightarrow> peek_stream \<Rightarrow> nat io_result poll \<times> peek_stream" where
  "pk_poll_write_vectored iovec p = pk_poll_write (concat iovec) p"

section \<open>Lemmas\<close>

definition pk_inv :: "peek_stream \<Rightarrow> bool" where
  "pk_inv p \<longleftrightarrow> pk_rd p \<le> pk_wr p \<and> pk_wr p \<le> length (pk_buf p)"

definition window :: "peek_stream \<Rightarrow> bytes" where
  "window p = take (pk_wr p - pk_rd p) (drop (pk_rd p) (pk_buf p))"

text \<open>What a reader of the wrapper is still going to see.\<close>

definition unread :: "peek_stream \<Rightarrow> bytes" where
  "unread p = window p @ incoming (pk_io p)"

lemma window_length: "pk_inv p \<Longrightarrow> length (window p) = filled p"
  by (auto simp: window_def filled_def pk_inv_def)

lemma try_reset_inv: "pk_inv p \<Longrightarrow> pk_inv (try_reset p) \<and> unread (try_reset p) = unread p"
  by (simp add: try_reset_def pk_inv_def unread_def window_def filled_def)

lemma peek_fill_spec:
  assumes "pk_inv p"
  shows "\<exists>r p'. peek_fill p = Inr (r, p') \<and> pk_inv p' \<and> unread p' = unread p \<and> pk_rd p' = pk_rd p \<and>
    length (pk_buf p') = length (pk_buf p) \<and>
    (case r of Ready (Inr n) \<Rightarrow> filled p' = filled p + n | _ \<Rightarrow> filled p' = filled p)"
proof -
  let ?room = "length (pk_buf p) - pk_wr p"
  obtain q io where q: "await_read ?room (pk_io p) = (q, io)" by (cases "await_read ?room (pk_io p)")
  note inc = await_read_incoming [OF q]
  show ?thesis
  proof (cases "\<exists>bs. q = Ready (Inr bs)")
    case True
    then obtain bs where bs: "q = Ready (Inr bs)" by blast
    have len: "length bs \<le> ?room" "incoming (pk_io p) = bs @ incoming io" using inc bs by simp_all
    let ?b = "take (pk_wr p) (pk_buf p) @ bs @ drop (pk_wr p + length bs) (pk_buf p)"
    have "take (pk_wr p + length bs - pk_rd p) (drop (pk_rd p) ?b) = window p @ bs"
      using assms len(1) by (auto simp: pk_inv_def window_def drop_take min_absorb2)
    then show ?thesis using assms q bs len
      by (auto simp: peek_fill_def unfilled_slice_def pk_inv_def unread_def window_def filled_def)
  next
    case False
    then consider "q = Pending" | e where "q = Ready (Inl e)" by (metis poll.exhaust sum.exhaust)
    then show ?thesis
      by cases (use assms q inc in \<open>simp_all add: peek_fill_def unfilled_slice_def pk_inv_def unread_def window_def filled_def\<close>)
  qed
qed

lemma copy_out_ok:
  assumes "pk_inv p" "pk_rd p = 0" "len \<le> filled p"
  shows "copy_out len p = Inr (take len (unread p))"
  using assms by (simp add: copy_out_def filled_slice_def pk_inv_def filled_def unread_def window_def min_def)

lemma copy_out_panics:
  assumes "pk_inv p" "0 < pk_rd p"
  shows "\<exists>e. copy_out len p = Inl e"
proof (cases "pk_rd p + len \<le> filled p")
  case True
  then have "pk_rd p + len \<le> length (take (pk_wr p - pk_rd p) (drop (pk_rd p) (pk_buf p)))"
    using assms by (auto simp: filled_def pk_inv_def)
  then show ?thesis using assms by (simp add: copy_out_def filled_slice_def pk_inv_def filled_def sub_slice_def)
next
  case False
  then show ?thesis using assms by (simp add: copy_out_def filled_slice_def pk_inv_def filled_def sub_slice_def)
qed

section \<open>Properties\<close>

lemma prefix_takeI: "bs = take k xs \<Longrightarrow> prefix bs xs"
  by (simp add: take_is_prefix)

lemma peek_ok:
  assumes "pk_inv p" "pk_rd (try_reset p) = 0"
  shows "\<exists>r p'. peek n p = Inr (r, p') \<and> pk_inv p' \<and> unread p' = unread p \<and>
    (\<forall>bs. r = Ready (Inr bs) \<longrightarrow> bs = take (length bs) (unread p) \<and> length bs = min (filled p') n)"
proof -
  let ?p = "try_reset p"
  note rs = try_reset_inv [OF assms(1)]
  obtain r p' where f: "(if 0 < unfilled ?p then peek_fill ?p else Inr (Ready (Inr 0), ?p)) = Inr (r, p')"
    "pk_inv p'" "unread p' = unread p" "pk_rd p' = 0"
    using peek_fill_spec [of ?p] rs assms(2) by (cases "0 < unfilled ?p") auto
  have out: "copy_out (min (filled p') n) p' = Inr (take (min (filled p') n) (unread p))"
    using copy_out_ok [OF f(2,4)] f(3) by simp
  have len: "filled p' \<le> length (unread p)"
    using window_length [OF f(2)] f(3) by (metis le_add1 length_append unread_def)
  show ?thesis
  proof (cases "\<exists>k. r = Ready (Inr k)")
    case True
    then show ?thesis using f out len by (auto simp: peek_def)
  next
    case False
    then consider "r = Pending" | e where "r = Ready (Inl e)" by (metis poll.exhaust sum.exhaust)
    then show ?thesis by cases (use f in \<open>simp_all add: peek_def\<close>)
  qed
qed

lemma take_split: "a \<le> b \<Longrightarrow> take b xs = take a xs @ take (b - a) (drop a xs)"
  using take_add [of a "b - a" xs] by simp

lemma pk_poll_read_ok:
  assumes "pk_inv p"
  shows "\<exists>r p'. pk_poll_read n p = Inr (r, p') \<and> pk_inv p' \<and>
    unread p = (case r of Ready (Inr bs) \<Rightarrow> bs | _ \<Rightarrow> []) @ unread p'"
proof (cases "pk_rd p = pk_wr p")
  case True
  obtain r io where r: "poll_read n (pk_io p) = (r, io)" by (cases "poll_read n (pk_io p)")
  show ?thesis using poll_read_incoming [OF r] assms True r
    by (simp add: pk_poll_read_def unread_def window_def pk_inv_def)
next
  case False
  let ?len = "min (pk_wr p - pk_rd p) n"
  have w: "window p = take ?len (drop (pk_rd p) (pk_buf p)) @ take (pk_wr p - (pk_rd p + ?len)) (drop (pk_rd p + ?len) (pk_buf p))"
    using take_split [of ?len "pk_wr p - pk_rd p" "drop (pk_rd p) (pk_buf p)"]
    by (simp add: window_def add.commute)
  have le: "pk_rd p + ?len \<le> pk_wr p" using assms by (auto simp: pk_inv_def)
  have "pk_rd p + ?len \<le> length (pk_buf p)" using assms by (auto simp: pk_inv_def)
  then have "pk_poll_read n p = Inr (Ready (Inr (take ?len (drop (pk_rd p) (pk_buf p)))), p\<lparr>pk_rd := pk_rd p + ?len\<rparr>)"
    using assms False by (simp add: pk_poll_read_def pk_inv_def Let_def)
  then show ?thesis using assms w le by (simp add: unread_def pk_inv_def window_def)
qed

text \<open>
  C34: Looking does not consume: as long as nothing was read from the buffered bytes, a peek never
  panics, gives the first bytes that the next reads will deliver, and leaves what they deliver
  as it was; and a read takes from the front of it what it returns.
\<close>
theorem peek_preserves:
  assumes "pk_rd p \<le> pk_wr p" "pk_wr p \<le> length (pk_buf p)"
  shows "(pk_rd p = 0 \<or> pk_rd p = pk_wr p \<longrightarrow>
      (\<exists>r p'. peek n p = Inr (r, p') \<and> unread p' = unread p \<and>
         (\<forall>bs. r = Ready (Inr bs) \<longrightarrow> prefix bs (unread p) \<and> length bs = min (filled p') n))) \<and>
    (\<exists>r p'. pk_poll_read n p = Inr (r, p') \<and>
       unread p = (case r of Ready (Inr bs) \<Rightarrow> bs | _ \<Rightarrow> []) @ unread p')"
proof -
  have inv: "pk_inv p" using assms by (simp add: pk_inv_def)
  have rst: "pk_rd p = 0 \<or> pk_rd p = pk_wr p \<Longrightarrow> pk_rd (try_reset p) = 0"
    by (auto simp: try_reset_def filled_def)
  then have "\<exists>r p'. peek n p = Inr (r, p') \<and> unread p' = unread p \<and>
         (\<forall>bs. r = Ready (Inr bs) \<longrightarrow> prefix bs (unread p) \<and> length bs = min (filled p') n)"
    if c: "pk_rd p = 0 \<or> pk_rd p = pk_wr p"
  proof -
    obtain r p' where r: "peek n p = Inr (r, p')" "unread p' = unread p"
      "\<And>bs. r = Ready (Inr bs) \<Longrightarrow> bs = take (length bs) (unread p) \<and> length bs = min (filled p') n"
      using peek_ok [OF inv rst [OF c], of n] by blast
    have "prefix bs (unread p)" if "r = Ready (Inr bs)" for bs using prefix_takeI r(3) [OF that] by blast
    with r show ?thesis by blast
  qed
  moreover obtain r p' where "pk_poll_read n p = Inr (r, p')"
    "unread p = (case r of Ready (Inr bs) \<Rightarrow> bs | _ \<Rightarrow> []) @ unread p'"
    using pk_poll_read_ok [OF inv] by blast
  ultimately show ?thesis by blast
qed

definition peek_demo :: peek_stream where
  "peek_demo = peek_new \<lparr>rd_evs = [RdPending, RdData [1, 2, 3]], wr_evs = [], fl_evs = [], sd_evs = [],
     rcvd = [], sent = [], flushed = 0, shut = False\<rparr> (replicate 4 0)"

theorem peek_preserves_witness: "\<exists>r p'. peek 2 peek_demo = Inr (r, p') \<and> unread p' = [1, 2, 3]"
proof -
  have i: "pk_rd peek_demo = 0" "pk_wr peek_demo = 0" by (simp_all add: peek_demo_def peek_new_def)
  have u: "unread peek_demo = [1, 2, 3]"
    by (simp add: peek_demo_def peek_new_def unread_def window_def incoming_def)
  have "pk_rd peek_demo \<le> pk_wr peek_demo" "pk_wr peek_demo \<le> length (pk_buf peek_demo)" by (simp_all add: i)
  from peek_preserves [OF this, of 2, THEN conjunct1] i u show ?thesis by metis
qed

lemma peek_loop_stuck: "pk_inv p \<Longrightarrow> unfilled p = 0 \<Longrightarrow> rd_evs (pk_io p) = RdData bs # es \<Longrightarrow> bs \<noteq> [] \<Longrightarrow>
    0 < required \<Longrightarrow> peek_loop fuel required p = None"
proof (induction fuel)
  case (Suc fuel)
  have "length (pk_buf p) = pk_wr p" using Suc.prems(1,2) by (simp add: pk_inv_def unfilled_def)
  then have "peek_fill p = Inr (Ready (Inr 0), p)"
    using Suc.prems by (simp add: peek_fill_def unfilled_slice_def await_read.simps poll_read_def)
  then show ?case using Suc by simp
qed simp

text \<open>
  C35: Two defects of the wrapper, once some of its buffered bytes were read and some were not. A peek, of any length, panics
  when the buffer has no room left, and when it has and the read into the rest succeeds, with data or at the end of
  the stream: it slices from \<open>rd\<close> a second time. It does not when that read is pending or fails: then it is pending, or
  gives that error. And with no room left \<open>peek_exact\<close> of the buffer's length spins for ever while the stream has data, although
  its assertion on the capacity holds.
\<close>
theorem peek_after_partial_read:
  assumes "0 < pk_rd p" "pk_rd p < pk_wr p" "pk_wr p \<le> length (pk_buf p)"
  shows "(if pk_wr p = length (pk_buf p) then \<exists>e. peek n p = Inl e
          else case await_read (length (pk_buf p) - pk_wr p) (pk_io p) of
                 (Ready (Inr _), _) \<Rightarrow> \<exists>e. peek n p = Inl e
               | (Ready (Inl e), io) \<Rightarrow> peek n p = Inr (Ready (Inl e), p\<lparr>pk_io := io\<rparr>)
               | (Pending, io) \<Rightarrow> peek n p = Inr (Pending, p\<lparr>pk_io := io\<rparr>)) \<and>
    (pk_wr p = length (pk_buf p) \<and> rd_evs (pk_io p) = RdData (b # bs) # es \<longrightarrow> peek_exact fuel (length (pk_buf p)) p = None)"
proof -
  have inv: "pk_inv p" and r: "try_reset p = p" using assms by (simp_all add: pk_inv_def try_reset_def filled_def)
  have "\<exists>e. peek n p = Inl e" if "pk_wr p = length (pk_buf p)"
    using copy_out_panics [OF inv assms(1), of "min (filled p) n"] that by (auto simp: peek_def r unfilled_def)
  moreover have "case await_read (length (pk_buf p) - pk_wr p) (pk_io p) of
        (Ready (Inr _), _) \<Rightarrow> \<exists>e. peek n p = Inl e
      | (Ready (Inl e), io) \<Rightarrow> peek n p = Inr (Ready (Inl e), p\<lparr>pk_io := io\<rparr>)
      | (Pending, io) \<Rightarrow> peek n p = Inr (Pending, p\<lparr>pk_io := io\<rparr>)" if "pk_wr p \<noteq> length (pk_buf p)"
  proof -
    have u: "0 < unfilled p" using that assms(3) by (simp add: unfilled_def)
    obtain q p' where f: "peek_fill p = Inr (q, p')" "pk_inv p'" "pk_rd p' = pk_rd p"
      using peek_fill_spec [OF inv] by blast
    have "\<exists>e. copy_out (min (filled p') n) p' = Inl e" using copy_out_panics [OF f(2)] f(3) assms(1) by simp
    then show ?thesis using u f(1) assms(3)
      by (auto simp: peek_def r peek_fill_def unfilled_slice_def split: prod.splits poll.splits sum.splits)
  qed
  moreover have "peek_loop fuel (length (pk_buf p) - filled p) p = None"
    if "pk_wr p = length (pk_buf p)" "rd_evs (pk_io p) = RdData (b # bs) # es"
    by (rule peek_loop_stuck [OF inv _ that(2)]) (use assms that in \<open>simp_all add: filled_def unfilled_def\<close>)
  ultimately show ?thesis by (auto simp: peek_exact_def capacity_def r)
qed

text \<open>A buffer of four bytes with one read: peeked at again, when there is no room and when two more bytes arrive.\<close>

theorem peek_after_partial_read_witness:
  "(\<exists>e. peek 1 (peek_demo\<lparr>pk_rd := 1, pk_wr := 4\<rparr>) = Inl e) \<and> (\<exists>e. peek 1 (peek_demo\<lparr>pk_rd := 1, pk_wr := 2\<rparr>) = Inl e)"
  using peek_after_partial_read [of "peek_demo\<lparr>pk_rd := 1, pk_wr := 4\<rparr>" 1]
    peek_after_partial_read [of "peek_demo\<lparr>pk_rd := 1, pk_wr := 2\<rparr>" 1]
  by (simp add: peek_demo_def peek_new_def await_read.simps poll_read_def)

text \<open>The number of bytes a sequence of writes put into the stream.\<close>

fun st_writes :: "bytes list \<Rightarrow> stat_stream \<Rightarrow> stat_stream" where
  "st_writes [] s = s"
| "st_writes (b # bs) s = st_writes bs (snd (st_poll_write b s))"

lemma st_poll_write_counts:
  assumes "honest (st_io s)"
  shows "honest (st_io (snd (st_poll_write bs s))) \<and>
    st_stat (snd (st_poll_write bs s)) + length (sent (st_io s)) = st_stat s + length (sent (st_io (snd (st_poll_write bs s))))"
proof -
  obtain p io where p: "poll_write bs (st_io s) = (p, io)" by (cases "poll_write bs (st_io s)")
  note h = poll_write_honest [OF p assms]
  show ?thesis
    by (rule poll_write_cases [OF p assms]) (use p h in \<open>simp_all add: st_poll_write_def\<close>)
qed

text \<open>
  The statistics wrapper counts exactly the bytes its stream accepted, over any sequence of writes
  with any short writes, errors and waits.
\<close>
theorem stat_counts:
  assumes "honest (st_io s)"
  shows "st_stat (st_writes bss s) = st_stat s + (length (sent (st_io (st_writes bss s))) - length (sent (st_io s))) \<and>
    length (sent (st_io s)) \<le> length (sent (st_io (st_writes bss s)))"
proof -
  have "st_stat (st_writes bss s) + length (sent (st_io s)) = st_stat s + length (sent (st_io (st_writes bss s))) \<and>
    length (sent (st_io s)) \<le> length (sent (st_io (st_writes bss s)))"
    using assms
  proof (induction bss arbitrary: s)
    case (Cons b bss)
    let ?t = "snd (st_poll_write b s)"
    obtain p io where p: "poll_write b (st_io s) = (p, io)" by (cases "poll_write b (st_io s)")
    have "length (sent (st_io s)) \<le> length (sent (st_io ?t))"
      by (rule poll_write_cases [OF p Cons.prems]) (use p in \<open>simp_all add: st_poll_write_def\<close>)
    with Cons.IH [of ?t] st_poll_write_counts [OF Cons.prems, of b] show ?case by simp
  qed simp
  then show ?thesis by linarith
qed

theorem stat_counts_witness:
  "st_stat (st_writes [[1, 2, 3], [4]] (stat_new (pk_io peek_demo\<lparr>wr_evs := [WrAccept 2, WrAccept 2]\<rparr>) 5)) = 8"
  using stat_counts [of "stat_new (pk_io peek_demo\<lparr>wr_evs := [WrAccept 2, WrAccept 2]\<rparr>) 5" "[[1, 2, 3], [4]]"]
  by (simp add: honest_def stat_new_def peek_demo_def peek_new_def st_poll_write_def poll_write_def)

end
