(* ===== verification/Net_Addr.thy ===== *)
theory Net_Addr
  imports Relay_Prelude
begin

text \<open>
  Network addresses, as \<^verbatim>\<open>std::net\<close> has them: \<^verbatim>\<open>IpAddr\<close>, \<^verbatim>\<open>SocketAddr\<close> (a version 6
  address carries its flow label and scope, which take part in equality), and the relay's
  \<^verbatim>\<open>RemoteAddr\<close> (\<^verbatim>\<open>hoorayhug_core/src/endpoint.rs\<close>).
\<close>

datatype ip_addr = IpV4 u32 | IpV6 "128 word"

datatype sock_addr =
    SockV4 (ip4: u32) (port4: u16)
  | SockV6 (ip6: "128 word") (port6: u16) (flowinfo: u32) (scope_id: u32)

datatype remote_addr = RemoteSock sock_addr | DomainName string u16

text \<open>\<^verbatim>\<open>octets()\<close>: the bytes in network order.\<close>

definition octets4 :: "u32 \<Rightarrow> bytes" where
  "octets4 a = map (\<lambda>i. ucast (drop_bit (8 * i) a)) [3, 2, 1, 0]"

definition octets6 :: "128 word \<Rightarrow> bytes" where
  "octets6 a = map (\<lambda>i. ucast (drop_bit (8 * i) a)) [15, 14, 13, 12, 11, 10, 9, 8, 7, 6, 5, 4, 3, 2, 1, 0]"

fun octets :: "ip_addr \<Rightarrow> bytes" where
  "octets (IpV4 a) = octets4 a"
| "octets (IpV6 a) = octets6 a"

lemma length_octets: "length (octets ip) = 4 \<or> length (octets ip) = 16"
  by (cases ip) (simp_all add: octets4_def octets6_def)

text \<open>\<^verbatim>\<open>SocketAddr::ip()\<close>, \<^verbatim>\<open>SocketAddr::new(ip, port)\<close> and \<^verbatim>\<open>is_ipv4()\<close>.\<close>

fun sock_ip :: "sock_addr \<Rightarrow> ip_addr" where
  "sock_ip (SockV4 a _) = IpV4 a"
| "sock_ip (SockV6 a _ _ _) = IpV6 a"

fun sock_new :: "ip_addr \<Rightarrow> u16 \<Rightarrow> sock_addr" where
  "sock_new (IpV4 a) p = SockV4 a p"
| "sock_new (IpV6 a) p = SockV6 a p 0 0"

fun is_ipv4 :: "sock_addr \<Rightarrow> bool" where
  "is_ipv4 (SockV4 _ _) = True"
| "is_ipv4 (SockV6 _ _ _ _) = False"

lemma sock_ip_new [simp]: "sock_ip (sock_new ip p) = ip"
  by (cases ip) simp_all

section \<open>Printing\<close>

text \<open>
  \<^verbatim>\<open>Display\<close> of the addresses: dotted decimal, and for version 6 the hexadecimal groups with the first
  longest run of at least two zero groups left out.
\<close>

definition hex_char :: "nat \<Rightarrow> char" where
  "hex_char n = (if n < 10 then digit_char n else char_of (87 + n))"

fun show_hex :: "nat \<Rightarrow> string" where
  "show_hex n = (if n < 16 then [hex_char n] else show_hex (n div 16) @ [hex_char (n mod 16)])"

declare show_hex.simps [simp del]

fun join :: "string \<Rightarrow> string list \<Rightarrow> string" where
  "join sep [] = []"
| "join sep [s] = s"
| "join sep (s # t # ss) = s @ sep @ join sep (t # ss)"

definition show_ip4 :: "u32 \<Rightarrow> string" where
  "show_ip4 a = join ''.'' (map (\<lambda>b. show_nat (unat b)) (octets4 a))"

definition segments :: "128 word \<Rightarrow> nat list" where
  "segments a = map (\<lambda>i. unat (drop_bit (16 * i) a) mod 2 ^ 16) [7, 6, 5, 4, 3, 2, 1, 0]"

text \<open>The first longest run of zeros, as its start and length.\<close>

definition zero_run :: "nat list \<Rightarrow> nat \<times> nat" where
  "zero_run xs = foldl (\<lambda>(s, n) i.
     let k = length (takeWhile (\<lambda>x. x = 0) (drop i xs)) in if n < k then (i, k) else (s, n)) (0, 0) [0..<length xs]"

definition show_ip6 :: "128 word \<Rightarrow> string" where
  "show_ip6 a =
     (let xs = segments a; (s, n) = zero_run xs; hex = (\<lambda>ys. join '':'' (map show_hex ys)) in
      if take 6 xs = [0, 0, 0, 0, 0, 0xFFFF] then ''::ffff:'' @ show_ip4 (ucast a)
      else if 1 < n then hex (take s xs) @ ''::'' @ hex (drop (s + n) xs)
      else hex xs)"

fun show_sock :: "sock_addr \<Rightarrow> string" where
  "show_sock (SockV4 a p) = show_ip4 a @ '':'' @ show_nat (unat p)"
| "show_sock (SockV6 a p f s) =
     (if s = 0 then ''['' @ show_ip6 a @ '']:'' @ show_nat (unat p)
      else ''['' @ show_ip6 a @ ''%'' @ show_nat (unat s) @ '']:'' @ show_nat (unat p))"

fun show_remote :: "remote_addr \<Rightarrow> string" where
  "show_remote (RemoteSock a) = show_sock a"
| "show_remote (DomainName host port) = host @ '':'' @ show_nat (unat port)"

definition show_bool :: "bool \<Rightarrow> string" where
  "show_bool b = (if b then ''true'' else ''false'')"

end
