(* ===== verification/Udp_Batch.thy ===== *)
theory Udp_Batch
  imports Net_Addr
begin

text \<open>
  Batches of datagrams: the message headers of \<^verbatim>\<open>hoorayhug_io/src/linux/mmsg.rs\<close>, packets and the two
  ways of receiving and sending them (\<^verbatim>\<open>hoorayhug_core/src/udp/batched.rs\<close>), and the registry that
  groups a batch by sender (\<^verbatim>\<open>hoorayhug_core/src/udp/middle.rs\<close>). The kernel's answers are scripts: each
  element is what one system call says.
\<close>

section \<open>Message headers\<close>

text \<open>
  A pointer of the header is what it points to, \<open>None\<close> the null pointer; a length is kept beside it, as in
  \<^verbatim>\<open>libc::mmsghdr\<close>. Dereferencing a null \<^verbatim>\<open>msg_name\<close> is undefined in the code and a panic here.
\<close>

record ('addr, 'iov) mmsghdr =
  msg_name :: "'addr option"
  msg_namelen :: nat
  msg_iov :: "'iov list option"
  msg_iovlen :: nat
  msg_control :: "bytes option"
  msg_controllen :: nat
  msg_flags :: u32
  msg_len :: u32

definition mmsg_new :: "('addr, 'iov) mmsghdr" where
  "mmsg_new = \<lparr>msg_name = None, msg_namelen = 0, msg_iov = None, msg_iovlen = 0, msg_control = None,
     msg_controllen = 0, msg_flags = 0, msg_len = 0\<rparr>"

definition with_addr :: "nat \<Rightarrow> 'addr \<Rightarrow> ('addr, 'iov) mmsghdr \<Rightarrow> ('addr, 'iov) mmsghdr" where
  "with_addr len a m = m\<lparr>msg_name := Some a, msg_namelen := len\<rparr>"

definition with_iovec :: "'iov list \<Rightarrow> ('addr, 'iov) mmsghdr \<Rightarrow> ('addr, 'iov) mmsghdr" where
  "with_iovec iov m = m\<lparr>msg_iov := Some iov, msg_iovlen := length iov\<rparr>"

definition with_control :: "bytes \<Rightarrow> ('addr, 'iov) mmsghdr \<Rightarrow> ('addr, 'iov) mmsghdr" where
  "with_control c m = m\<lparr>msg_control := Some c, msg_controllen := length c\<rparr>"

definition with_flags :: "u32 \<Rightarrow> ('addr, 'iov) mmsghdr \<Rightarrow> ('addr, 'iov) mmsghdr" where
  "with_flags f m = m\<lparr>msg_flags := f\<rparr>"

text \<open>\<^verbatim>\<open>make_slice\<close>: a null pointer is allowed when the length is 0.\<close>

definition make_slice :: "'a list option \<Rightarrow> nat \<Rightarrow> 'a list checked" where
  "make_slice p n =
     (if n = 0 then Inr []
      else case p of Some xs \<Rightarrow> Inr (take n xs) | None \<Rightarrow> Inl (Panic ''null pointer''))"

record ('addr, 'iov) mmsg_ref =
  ref_addr :: 'addr
  ref_iovec :: "'iov list"
  ref_control :: bytes
  ref_flags :: u32
  ref_nbytes :: u32

definition get_ref :: "('addr, 'iov) mmsghdr \<Rightarrow> ('addr, 'iov) mmsg_ref checked" where
  "get_ref m =
     (case msg_name m of
        None \<Rightarrow> Inl (Panic ''null pointer'')
      | Some a \<Rightarrow>
          bind_sum (make_slice (msg_iov m) (msg_iovlen m)) (\<lambda>iov.
          bind_sum (make_slice (msg_control m) (msg_controllen m)) (\<lambda>ctl.
            Inr \<lparr>ref_addr = a, ref_iovec = iov, ref_control = ctl, ref_flags = msg_flags m, ref_nbytes = msg_len m\<rparr>)))"

lemma get_ref_built:
  "get_ref (with_flags f (with_control c (with_iovec iov (with_addr n a mmsg_new)))) =
     Inr \<lparr>ref_addr = a, ref_iovec = iov, ref_control = c, ref_flags = f, ref_nbytes = 0\<rparr>"
  by (simp add: get_ref_def with_flags_def with_control_def with_iovec_def with_addr_def mmsg_new_def make_slice_def)

text \<open>
  The header for receiving: the same fields, set from mutable storage, and a mutable accessor. Writing through it
  changes what the pointers point to and the flags; the lengths stay, and the number of bytes is a copy.
\<close>

definition with_addr_mut :: "nat \<Rightarrow> 'addr \<Rightarrow> ('addr, 'iov) mmsghdr \<Rightarrow> ('addr, 'iov) mmsghdr" where
  "with_addr_mut len a m = m\<lparr>msg_name := Some a, msg_namelen := len\<rparr>"

definition with_iovec_mut :: "'iov list \<Rightarrow> ('addr, 'iov) mmsghdr \<Rightarrow> ('addr, 'iov) mmsghdr" where
  "with_iovec_mut iov m = m\<lparr>msg_iov := Some iov, msg_iovlen := length iov\<rparr>"

definition with_control_mut :: "bytes \<Rightarrow> ('addr, 'iov) mmsghdr \<Rightarrow> ('addr, 'iov) mmsghdr" where
  "with_control_mut c m = m\<lparr>msg_control := Some c, msg_controllen := length c\<rparr>"

definition make_slice_mut :: "'a list option \<Rightarrow> nat \<Rightarrow> 'a list checked" where
  "make_slice_mut p n =
     (if n = 0 then Inr []
      else case p of Some xs \<Rightarrow> Inr (take n xs) | None \<Rightarrow> Inl (Panic ''null pointer''))"

record ('addr, 'iov) mmsg_mut_ref =
  mut_addr :: 'addr
  mut_iovec :: "'iov list"
  mut_control :: bytes
  mut_flags :: u32
  mut_nbytes :: u32

definition get_mut :: "('addr, 'iov) mmsghdr \<Rightarrow> ('addr, 'iov) mmsg_mut_ref checked" where
  "get_mut m =
     (case msg_name m of
        None \<Rightarrow> Inl (Panic ''null pointer'')
      | Some a \<Rightarrow>
          bind_sum (make_slice_mut (msg_iov m) (msg_iovlen m)) (\<lambda>iov.
          bind_sum (make_slice_mut (msg_control m) (msg_controllen m)) (\<lambda>ctl.
            Inr \<lparr>mut_addr = a, mut_iovec = iov, mut_control = ctl, mut_flags = msg_flags m, mut_nbytes = msg_len m\<rparr>)))"

definition write_slice :: "'a list \<Rightarrow> nat \<Rightarrow> 'a list option \<Rightarrow> 'a list option" where
  "write_slice xs n p = (if n = 0 then p else map_option (\<lambda>ys. xs @ drop n ys) p)"

definition write_mut :: "('addr, 'iov) mmsg_mut_ref \<Rightarrow> ('addr, 'iov) mmsghdr \<Rightarrow> ('addr, 'iov) mmsghdr" where
  "write_mut r m =
     m\<lparr>msg_name := Some (mut_addr r), msg_iov := write_slice (mut_iovec r) (msg_iovlen m) (msg_iov m),
       msg_control := write_slice (mut_control r) (msg_controllen m) (msg_control m), msg_flags := mut_flags r\<rparr>"

text \<open>What is written through the accessor is what it then reads, and writing back what it reads changes nothing.\<close>

lemma slice_write:
  assumes "make_slice_mut p n = Inr xs" "length xs' = length xs"
  shows "make_slice_mut (write_slice xs' n p) n = Inr xs'" "write_slice xs n p = p"
proof -
  show "make_slice_mut (write_slice xs' n p) n = Inr xs'"
    using assms by (cases p) (auto simp: make_slice_mut_def write_slice_def split: if_splits)
  show "write_slice xs n p = p"
    using assms(1) by (cases p) (auto simp: make_slice_mut_def write_slice_def split: if_splits)
qed

lemma mut_ref_lens:
  assumes "get_mut m = Inr r" "length (mut_iovec r') = length (mut_iovec r)" "length (mut_control r') = length (mut_control r)"
    and "mut_nbytes r' = mut_nbytes r"
  shows "get_mut (write_mut r' m) = Inr r'" "write_mut r m = m"
proof -
  obtain a iov ctl where e: "msg_name m = Some a" "make_slice_mut (msg_iov m) (msg_iovlen m) = Inr iov"
    "make_slice_mut (msg_control m) (msg_controllen m) = Inr ctl"
    "r = \<lparr>mut_addr = a, mut_iovec = iov, mut_control = ctl, mut_flags = msg_flags m, mut_nbytes = msg_len m\<rparr>"
    using assms(1) by (auto simp: get_mut_def bind_sum_Inr_iff split: option.splits)
  have l: "length (mut_iovec r') = length iov" "length (mut_control r') = length ctl" using assms(2,3) e(4) by simp_all
  show "get_mut (write_mut r' m) = Inr r'"
    using slice_write(1) [OF e(2) l(1)] slice_write(1) [OF e(3) l(2)] assms(4) e(4)
    by (simp add: get_mut_def write_mut_def)
  show "write_mut r m = m"
    using slice_write(2) [OF e(2) l(1)] slice_write(2) [OF e(3) l(2)] e(1,4) by (simp add: write_mut_def)
qed

text \<open>
  The readiness loop of \<^verbatim>\<open>poll_read_raw\<close> and \<^verbatim>\<open>poll_write_raw\<close> around a system call, awaited:
  not ready waits, \<open>WouldBlock\<close> tries again, the rest is the result.
\<close>

datatype 'a sys_ev = SysWait | SysErr io_error | SysOk 'a

fun raw_await :: "'a sys_ev list \<Rightarrow> 'a io_result poll \<times> 'a sys_ev list" where
  "raw_await [] = (Pending, [])"
| "raw_await (SysWait # es) = raw_await es"
| "raw_await (SysErr e # es) = (if e = WouldBlock then raw_await es else (Ready (Inl e), es))"
| "raw_await (SysOk x # es) = (Ready (Inr x), es)"

lemma raw_await_shorter: "raw_await es = (Ready r, es') \<Longrightarrow> length es' < length es"
  by (induction es rule: raw_await.induct) (auto split: if_splits)

section \<open>Packets\<close>

definition PACKET_SIZE :: nat where "PACKET_SIZE = 1500"
definition MAX_PACKETS :: nat where "MAX_PACKETS = 128"

text \<open>
  \<^verbatim>\<open>SockAddrStore\<close>: with batching a zeroed storage, which is no address; without it 0.0.0.0:0.
\<close>

type_synonym addr_store = "sock_addr option"

definition store_new :: "bool \<Rightarrow> addr_store" where
  "store_new batched = (if batched then None else Some (SockV4 0 0))"

definition store_from :: "sock_addr \<Rightarrow> addr_store" where
  "store_from a = Some a"

definition store_into :: "addr_store \<Rightarrow> sock_addr checked" where
  "store_into s = (case s of Some a \<Rightarrow> Inr a | None \<Rightarrow> Inl (Panic ''as_socket().unwrap()''))"

record packet =
  pkt_buf :: bytes
  pkt_addr :: addr_store
  pkt_cursor :: u16

record packet_ref =
  pr_buf :: bytes
  pr_addr :: addr_store

definition packet_new :: "bool \<Rightarrow> packet" where
  "packet_new batched = \<lparr>pkt_buf = replicate PACKET_SIZE 0, pkt_addr = store_new batched, pkt_cursor = 0\<rparr>"

definition payload :: "packet \<Rightarrow> bytes" where
  "payload p = take (unat (pkt_cursor p)) (pkt_buf p)"

definition ref_with_addr :: "addr_store \<Rightarrow> packet \<Rightarrow> packet_ref" where
  "ref_with_addr a p = \<lparr>pr_buf = payload p, pr_addr = a\<rparr>"

text \<open>
  What the kernel does with a datagram: the bytes that fit into the buffer, the sender's address; and what
  the code does with the number of bytes.
\<close>

type_synonym datagram = "bytes \<times> sock_addr"

definition fill_packet :: "datagram \<Rightarrow> packet \<Rightarrow> packet" where
  "fill_packet d p =
     (let bs = take (length (pkt_buf p)) (fst d)
      in p\<lparr>pkt_buf := bs @ drop (length bs) (pkt_buf p), pkt_addr := Some (snd d), pkt_cursor := of_nat (length bs)\<rparr>)"

text \<open>Without batching: one datagram, into the first packet (an index panic when there is none).\<close>

definition common_recv_some :: "datagram sys_ev list \<Rightarrow> packet list \<Rightarrow> (nat io_result poll \<times> packet list) checked" where
  "common_recv_some es pkts =
     (case pkts of
        [] \<Rightarrow> Inl (Panic ''index out of bounds'')
      | pkt # rest \<Rightarrow>
          (case fst (raw_await es) of
             Pending \<Rightarrow> Inr (Pending, pkts)
           | Ready (Inl e) \<Rightarrow> Inr (Ready (Inl e), pkts)
           | Ready (Inr d) \<Rightarrow> Inr (Ready (Inr 1), fill_packet d pkt # rest)))"

text \<open>
  With batching: a header per packet, with the packet's buffer and address storage; the kernel fills at most as many
  packets as there are headers and notes the lengths in them, which the code reads back.
\<close>

definition SOCK_STORE_LEN :: nat where "SOCK_STORE_LEN = 128"

definition recv_msg_header :: "packet \<Rightarrow> (addr_store, bytes) mmsghdr" where
  "recv_msg_header p = with_iovec_mut [pkt_buf p] (with_addr_mut SOCK_STORE_LEN (pkt_addr p) mmsg_new)"

text \<open>
  The storage of a packet is made with the full length, and receiving does not change it (the kernel notes the length of
  the address in the header only). The addresses that are sent to are made from socket addresses and have
  the length of \<^verbatim>\<open>sockaddr_in\<close> or \<^verbatim>\<open>sockaddr_in6\<close>.
\<close>

definition store_len :: "addr_store \<Rightarrow> nat" where
  "store_len a =
     (case a of None \<Rightarrow> SOCK_STORE_LEN | Some (SockV4 _ _) \<Rightarrow> 16 | Some (SockV6 _ _ _ _) \<Rightarrow> 28)"

definition send_msg_header :: "packet_ref \<Rightarrow> (addr_store, bytes) mmsghdr" where
  "send_msg_header pr = with_iovec [pr_buf pr] (with_addr (store_len (pr_addr pr)) (pr_addr pr) mmsg_new)"

lemma get_ref_send_msg_header:
  "get_ref (send_msg_header pr) =
     Inr \<lparr>ref_addr = pr_addr pr, ref_iovec = [pr_buf pr], ref_control = [], ref_flags = 0, ref_nbytes = 0\<rparr>"
  by (simp add: get_ref_def send_msg_header_def with_iovec_def with_addr_def mmsg_new_def make_slice_def)

definition recvmmsg_fill :: "datagram \<Rightarrow> packet \<Rightarrow> packet checked" where
  "recvmmsg_fill d p =
     (let bs = take (length (pkt_buf p)) (fst d);
          p' = p\<lparr>pkt_buf := bs @ drop (length bs) (pkt_buf p), pkt_addr := Some (snd d)\<rparr>;
          msg = (recv_msg_header p)\<lparr>msg_len := of_nat (length bs)\<rparr>
      in bind_sum (get_ref msg) (\<lambda>r. Inr (p'\<lparr>pkt_cursor := ucast (ref_nbytes r)\<rparr>)))"

lemma ucast_of_nat_u32: "(ucast (of_nat n :: u32) :: u16) = of_nat n"
  by transfer (simp add: take_bit_of_nat min_def)

lemma recvmmsg_fill_eq: "recvmmsg_fill d p = Inr (fill_packet d p)"
  by (simp add: recvmmsg_fill_def fill_packet_def recv_msg_header_def get_ref_def with_iovec_mut_def with_addr_mut_def mmsg_new_def
      make_slice_def Let_def ucast_of_nat_u32)

definition linux_recv_some :: "datagram list sys_ev list \<Rightarrow> packet list \<Rightarrow> (nat io_result poll \<times> packet list) checked" where
  "linux_recv_some es pkts =
     (case fst (raw_await es) of
        Pending \<Rightarrow> Inr (Pending, pkts)
      | Ready (Inl e) \<Rightarrow> Inr (Ready (Inl e), pkts)
      | Ready (Inr ds) \<Rightarrow>
          (let n = min (length ds) (length pkts)
           in bind_sum (mapM_sum (\<lambda>(d, p). recvmmsg_fill d p) (zip (take n ds) (take n pkts))) (\<lambda>filled.
                Inr (Ready (Inr n), filled @ drop n pkts))))"

lemma linux_recv_some_eq:
  "linux_recv_some es pkts =
     Inr (case fst (raw_await es) of
        Pending \<Rightarrow> (Pending, pkts)
      | Ready (Inl e) \<Rightarrow> (Ready (Inl e), pkts)
      | Ready (Inr ds) \<Rightarrow>
          (let n = min (length ds) (length pkts)
           in (Ready (Inr n), map2 fill_packet (take n ds) (take n pkts) @ drop n pkts)))"
proof -
  have "mapM_sum (\<lambda>(d, p). recvmmsg_fill d p) xs = Inr (map (\<lambda>(d, p). fill_packet d p) xs)" for xs
    by (rule mapM_sum_total) (auto simp: recvmmsg_fill_eq)
  then show ?thesis by (simp add: linux_recv_some_def Let_def split: poll.split sum.split)
qed

text \<open>Sending: each packet that left the socket is logged.\<close>

fun common_send_all :: "unit sys_ev list \<Rightarrow> packet_ref list \<Rightarrow> unit io_result poll \<times> packet_ref list" where
  "common_send_all es [] = (Ready (Inr ()), [])"
| "common_send_all es (p # ps) =
     (case raw_await es of
        (Pending, _) \<Rightarrow> (Pending, [])
      | (Ready (Inl e), _) \<Rightarrow> (Ready (Inl e), [])
      | (Ready (Inr _), es') \<Rightarrow> (case common_send_all es' ps of (r, sent) \<Rightarrow> (r, p # sent)))"

text \<open>
  The batched loop over \<^verbatim>\<open>sendmmsg\<close>, which takes some number of the packets that are left.
\<close>

function linux_send_all :: "nat sys_ev list \<Rightarrow> packet_ref list \<Rightarrow> unit io_result poll \<times> packet_ref list" where
  "linux_send_all es ps =
     (if ps = [] then (Ready (Inr ()), [])
      else case raw_await es of
             (Pending, _) \<Rightarrow> (Pending, [])
           | (Ready (Inl e), _) \<Rightarrow> (Ready (Inl e), [])
           | (Ready (Inr n), es') \<Rightarrow>
               (case linux_send_all es' (drop n ps) of (r, sent) \<Rightarrow> (r, take n ps @ sent)))"
  by pat_completeness auto
termination
  by (relation "measure (\<lambda>(es, ps). length es)") (auto dest: raw_await_shorter [OF sym])

declare linux_send_all.simps [simp del]

lemma fill_packet_payload:
  assumes "length (pkt_buf p) = PACKET_SIZE"
  shows "payload (fill_packet d p) = take PACKET_SIZE (fst d)" "length (pkt_buf (fill_packet d p)) = PACKET_SIZE"
proof -
  let ?bs = "take PACKET_SIZE (fst d)"
  have "length ?bs \<le> 1500" by (simp add: PACKET_SIZE_def)
  then have "unat (of_nat (length ?bs) :: u16) = length ?bs" by (simp add: unat_of_nat)
  then show "payload (fill_packet d p) = ?bs" using assms
    by (auto simp: payload_def fill_packet_def Let_def min_def)
  show "length (pkt_buf (fill_packet d p)) = PACKET_SIZE" using assms by (simp add: fill_packet_def Let_def)
qed

lemma common_send_all_spec:
  "common_send_all es ps = (r, sent) \<Longrightarrow>
     (\<exists>rest. ps = sent @ rest) \<and> (r = Ready (Inr ()) \<longrightarrow> sent = ps)"
proof (induction ps arbitrary: es r sent)
  case (Cons p ps)
  then show ?case
    by (auto split: prod.splits poll.splits sum.splits)
qed simp

lemma linux_send_all_spec:
  "linux_send_all es ps = (r, sent) \<Longrightarrow>
     (\<exists>rest. ps = sent @ rest) \<and> (r = Ready (Inr ()) \<longrightarrow> sent = ps)"
proof (induction es ps arbitrary: r sent rule: linux_send_all.induct)
  case (1 es ps)
  show ?case
  proof (cases "ps = []")
    case True
    then show ?thesis using "1.prems" by (simp add: linux_send_all.simps)
  next
    case ne: False
    obtain q es' where q: "raw_await es = (q, es')" by (cases "raw_await es")
    show ?thesis
    proof (cases "\<exists>n. q = Ready (Inr n)")
      case False
      then show ?thesis using "1.prems" ne q
        by (auto simp: linux_send_all.simps [of es ps] split: poll.splits sum.splits)
    next
      case True
      then obtain n where n: "q = Ready (Inr n)" by blast
      obtain r' sent' where s: "linux_send_all es' (drop n ps) = (r', sent')" by (cases "linux_send_all es' (drop n ps)")
      have "r = r'" "sent = take n ps @ sent'"
        using "1.prems" ne q n s by (simp_all add: linux_send_all.simps [of es ps])
      moreover have "(\<exists>rest. drop n ps = sent' @ rest) \<and> (r' = Ready (Inr ()) \<longrightarrow> sent' = drop n ps)"
        using "1.IH" [OF ne q [symmetric] n refl s] by blast
      ultimately show ?thesis by (metis append.assoc append_take_drop_id)
    qed
  qed
qed

section \<open>Grouping a batch\<close>

text \<open>
  \<^verbatim>\<open>group_by_inner\<close>: the inner loop collects the elements equal to the first one of the group by swapping
  them forward, the outer one goes on behind the group. The ranges are \<^verbatim>\<open>u16\<close>.
\<close>

type_synonym range16 = "u16 \<times> u16"

definition swap_elems :: "nat \<Rightarrow> nat \<Rightarrow> 'a list \<Rightarrow> 'a list" where
  "swap_elems i j xs = xs[i := xs ! j, j := xs ! i]"

function probe_loop :: "('a \<Rightarrow> 'a \<Rightarrow> bool) \<Rightarrow> nat \<Rightarrow> nat \<Rightarrow> nat \<Rightarrow> 'a list \<Rightarrow> 'a list \<times> nat" where
  "probe_loop eq beg stop probe data =
     (if probe < length data
      then if eq (data ! probe) (data ! beg)
           then probe_loop eq beg (stop + 1) (probe + 1) (swap_elems probe stop data)
           else probe_loop eq beg stop (probe + 1) data
      else (data, stop))"
  by pat_completeness auto
termination
  by (relation "measure (\<lambda>(eq, beg, stop, probe, data). length data - probe)") (auto simp: swap_elems_def)

declare probe_loop.simps [simp del]

lemma length_swap_elems [simp]: "length (swap_elems i j xs) = length xs"
  by (simp add: swap_elems_def)

lemma probe_loop_bounds:
  "probe_loop eq beg stop probe data = (data', stop') \<Longrightarrow> length data' = length data \<and> stop \<le> stop'"
proof (induction eq beg stop probe data arbitrary: data' stop' rule: probe_loop.induct)
  case (1 eq beg stop probe data)
  show ?case
    using 1(1) [of data' stop'] 1(2) [of data' stop'] 1(3)
    by (auto simp: probe_loop.simps [of eq beg stop probe data] split: if_splits)
qed

function group_loop ::
  "('a \<Rightarrow> 'a \<Rightarrow> bool) \<Rightarrow> nat \<Rightarrow> nat \<Rightarrow> 'a list \<Rightarrow> range16 list \<Rightarrow> 'a list \<times> range16 list" where
  "group_loop eq beg stop data groups =
     (if stop < length data
      then if eq (data ! stop) (data ! beg)
           then group_loop eq beg (stop + 1) data groups
           else case probe_loop eq beg stop (stop + 1) data of
                  (data', stop') \<Rightarrow> group_loop eq stop' (stop' + 1) data' (groups @ [(of_nat beg, of_nat stop')])
      else (data, groups @ [(of_nat beg, of_nat stop)]))"
  by pat_completeness auto
termination
  by (relation "measure (\<lambda>(eq, beg, stop, data, groups). length data - stop)")
     (auto dest!: probe_loop_bounds [OF sym])

declare group_loop.simps [simp del]

definition group_by_inner :: "('a \<Rightarrow> 'a \<Rightarrow> bool) \<Rightarrow> 'a list \<Rightarrow> range16 list \<Rightarrow> 'a list \<times> range16 list" where
  "group_by_inner eq data groups = group_loop eq 0 1 data groups"

text \<open>What a correct grouping of the elements from \<open>beg\<close> on by the key \<open>f\<close> is.\<close>

fun grouped :: "('a \<Rightarrow> 'k) \<Rightarrow> 'a list \<Rightarrow> nat \<Rightarrow> (nat \<times> nat) list \<Rightarrow> bool" where
  "grouped f data beg [] \<longleftrightarrow> beg = length data"
| "grouped f data beg ((b, e) # rs) \<longleftrightarrow>
     b = beg \<and> b < e \<and> e \<le> length data \<and>
     (\<forall>i. b \<le> i \<and> i < e \<longrightarrow> f (data ! i) = f (data ! b)) \<and>
     (\<forall>x \<in> set (drop e data). f x \<noteq> f (data ! b)) \<and> grouped f data e rs"

lemma swap_elems_facts:
  assumes "i < length xs" "j < length xs"
  shows "mset (swap_elems i j xs) = mset xs"
    and "k < length xs \<Longrightarrow> swap_elems i j xs ! k = (if k = j then xs ! i else if k = i then xs ! j else xs ! k)"
  using assms mset_swap [of j xs i] by (simp_all add: swap_elems_def nth_list_update)

lemma probe_loop_spec:
  assumes "probe_loop (\<lambda>a b. f a = f b) beg stop probe data = (data', stop')"
    and "beg < stop" "stop \<le> probe" "probe \<le> length data"
    and "\<forall>i. beg \<le> i \<and> i < stop \<longrightarrow> f (data ! i) = f (data ! beg)"
    and "\<forall>i. stop \<le> i \<and> i < probe \<longrightarrow> f (data ! i) \<noteq> f (data ! beg)"
  shows "mset data' = mset data \<and> stop' \<le> length data \<and> (\<forall>i < stop. data' ! i = data ! i) \<and>
    (stop < probe \<longrightarrow> stop' < length data) \<and>
    (\<forall>i. beg \<le> i \<and> i < stop' \<longrightarrow> f (data' ! i) = f (data ! beg)) \<and>
    (\<forall>i. stop' \<le> i \<and> i < length data \<longrightarrow> f (data' ! i) \<noteq> f (data ! beg))"
  using assms
proof (induction "\<lambda>a b. f a = f b" beg stop probe data arbitrary: data' stop' rule: probe_loop.induct)
  case (1 beg stop probe data)
  show ?case
  proof (cases "probe < length data")
    case False
    then have e: "data' = data" "stop' = stop"
      using "1.prems"(1) by (simp_all add: probe_loop.simps [of _ beg stop probe data])
    have "probe = length data" using False "1.prems"(4) by simp
    note e = e this
    show ?thesis unfolding e(1,2)
      using "1.prems"(3) [unfolded e(3)] "1.prems"(5) "1.prems"(6) [unfolded e(3)] e(3)
      by (intro conjI allI impI refl) (assumption | simp only: e | blast)+
  next
    case lt: True
    show ?thesis
    proof (cases "f (data ! probe) = f (data ! beg)")
      case False
      then have l: "probe_loop (\<lambda>a b. f a = f b) beg stop (probe + 1) data = (data', stop')"
        using "1.prems"(1) lt by (simp add: probe_loop.simps [of _ beg stop probe data])
      have "\<forall>i. stop \<le> i \<and> i < probe + 1 \<longrightarrow> f (data ! i) \<noteq> f (data ! beg)"
        using "1.prems"(6) False by (auto simp: less_Suc_eq)
      note r = "1.hyps"(2) [OF lt False l "1.prems"(2) _ _ "1.prems"(5) this]
      have "stop \<le> probe + 1" "probe + 1 \<le> length data" "stop < probe + 1"
        using "1.prems"(3) lt by simp_all
      from r [OF this(1,2)] this(3) show ?thesis by blast
    next
      case True
      let ?d = "swap_elems probe stop data"
      have l: "probe_loop (\<lambda>a b. f a = f b) beg (stop + 1) (probe + 1) ?d = (data', stop')"
        using "1.prems"(1) lt True by (simp add: probe_loop.simps [of _ beg stop probe data])
      have sl: "stop < length data" using "1.prems"(3) lt by simp
      note sw = swap_elems_facts [OF lt sl]
      have b: "?d ! beg = data ! beg" using sw(2) [of beg] "1.prems"(2,3) lt by simp
      have k: "\<forall>i. beg \<le> i \<and> i < stop + 1 \<longrightarrow> f (?d ! i) = f (?d ! beg)"
      proof (intro allI impI)
        fix i assume i: "beg \<le> i \<and> i < stop + 1"
        show "f (?d ! i) = f (?d ! beg)"
        proof (cases "i = stop")
          case False
          with i have "i < stop" by simp
          then have "?d ! i = data ! i" using sw(2) [of i] "1.prems"(3) lt by simp
          with \<open>i < stop\<close> i "1.prems"(5) b show ?thesis by (simp only: simp_thms)
        qed (use sw(2) [of stop] sl True b in simp)
      qed
      have nk: "\<forall>i. stop + 1 \<le> i \<and> i < probe + 1 \<longrightarrow> f (?d ! i) \<noteq> f (?d ! beg)"
      proof (intro allI impI)
        fix i assume i: "stop + 1 \<le> i \<and> i < probe + 1"
        then have "?d ! i = (if i = probe then data ! stop else data ! i)"
          using sw(2) [of i] lt by auto
        moreover have "f (data ! stop) \<noteq> f (data ! beg)" if "stop < probe" using "1.prems"(6) that by blast
        moreover have "f (data ! i) \<noteq> f (data ! beg)" if "i \<noteq> probe" using "1.prems"(6) i that by simp
        ultimately show "f (?d ! i) \<noteq> f (?d ! beg)" using i b by (cases "i = probe") auto
      qed
      have p: "?d ! i = data ! i" if "i < stop" for i
        using sw(2) [of i] "1.prems"(2,3) lt that by simp
      have "beg < stop + 1" "stop + 1 \<le> probe + 1" "probe + 1 \<le> length ?d"
        using "1.prems"(2,3) lt by simp_all
      note r = "1.hyps"(1) [OF lt True l this k nk, unfolded length_swap_elems sw(1) b]
      from r have keep: "\<forall>i < stop. data' ! i = data ! i" using p by simp
      from r have "stop < probe \<longrightarrow> stop' < length data" by simp
      with r keep show ?thesis by (elim conjE, intro conjI) assumption+
    qed
  qed
qed

lemma set_drop_nth: "set (drop n xs) = {xs ! i |i. n \<le> i \<and> i < length xs}"
proof -
  have "drop n xs = map ((!) xs) [n..<length xs]"
    by (rule nth_equalityI) (auto simp: add.commute)
  then show ?thesis by auto
qed

lemma mset_take_drop_eq:
  assumes "mset xs = mset ys" "take n xs = take n ys"
  shows "mset (drop n xs) = mset (drop n ys)"
proof -
  have "mset (take n xs) + mset (drop n xs) = mset (take n ys) + mset (drop n ys)"
    using assms(1) by (metis append_take_drop_id mset_append)
  then show ?thesis using assms(2) by simp
qed

lemma take_eq_nth: "length xs = length ys \<Longrightarrow> (\<And>i. i < n \<Longrightarrow> i < length ys \<Longrightarrow> xs ! i = ys ! i) \<Longrightarrow> take n xs = take n ys"
  by (rule nth_equalityI) auto

definition range16_of :: "nat \<times> nat \<Rightarrow> range16" where
  "range16_of r = (of_nat (fst r), of_nat (snd r))"

lemma probe_loop_take:
  assumes "probe_loop (\<lambda>a b. f a = f b) beg stop (stop + 1) data = (data', stop')"
    and "beg < stop" "stop < length data" "f (data ! stop) \<noteq> f (data ! beg)"
    and "\<forall>i. beg \<le> i \<and> i < stop \<longrightarrow> f (data ! i) = f (data ! beg)"
  shows "mset data' = mset data" "stop \<le> stop'" "stop' < length data" "\<And>i. i < stop \<Longrightarrow> data' ! i = data ! i"
    and "\<forall>i. beg \<le> i \<and> i < stop' \<longrightarrow> f (data' ! i) = f (data' ! beg)"
    and "\<forall>x \<in> set (drop stop' data'). f x \<noteq> f (data' ! beg)" "length data' = length data"
proof -
  have "\<forall>i. stop \<le> i \<and> i < stop + 1 \<longrightarrow> f (data ! i) \<noteq> f (data ! beg)"
    using assms(4) by (auto simp: less_Suc_eq)
  note r = probe_loop_spec [OF assms(1,2) _ _ assms(5) this]
  have "stop \<le> stop + 1" "stop + 1 \<le> length data" "stop < stop + 1" using assms(3) by simp_all
  note r = r [OF this(1,2)] this(3)
  from r show "mset data' = mset data" "stop' < length data" "\<And>i. i < stop \<Longrightarrow> data' ! i = data ! i" by blast+
  show l: "length data' = length data" "stop \<le> stop'" using probe_loop_bounds [OF assms(1)] by simp_all
  have b: "data' ! beg = data ! beg" using r assms(2) by blast
  from r show "\<forall>i. beg \<le> i \<and> i < stop' \<longrightarrow> f (data' ! i) = f (data' ! beg)" unfolding b by blast
  from r show "\<forall>x \<in> set (drop stop' data'). f x \<noteq> f (data' ! beg)" unfolding b set_drop_nth l(1) by blast
qed

lemma grouped_last:
  assumes "beg < length data" "\<forall>i. beg \<le> i \<and> i < length data \<longrightarrow> f (data ! i) = f (data ! beg)"
  shows "grouped f data beg [(beg, length data)]"
  unfolding grouped.simps using assms(1) by (intro conjI refl assms) simp_all

lemma group_loop_spec:
  assumes "group_loop (\<lambda>a b. f a = f b) beg stop data groups = (data', groups')"
    and "beg < stop" "stop \<le> length data"
    and "\<forall>i. beg \<le> i \<and> i < stop \<longrightarrow> f (data ! i) = f (data ! beg)"
  shows "\<exists>rs. groups' = groups @ map range16_of rs \<and> grouped f data' beg rs \<and> mset data' = mset data \<and>
    (\<forall>i < stop. data' ! i = data ! i)"
  using assms
proof (induction "\<lambda>a b. f a = f b" beg stop data groups arbitrary: data' groups' rule: group_loop.induct)
  case (1 beg stop data groups)
  show ?case
  proof (cases "stop < length data")
    case False
    then have e: "data' = data" "groups' = groups @ [range16_of (beg, stop)]"
      using "1.prems"(1) by (simp_all add: group_loop.simps [of _ beg stop data] range16_of_def)
    have end_eq: "stop = length data" using "1.prems"(3) False by simp
    have "grouped f data beg [(beg, stop)]"
      using grouped_last [of beg data f] "1.prems"(2,4) unfolding end_eq by blast
    then show ?thesis unfolding e by - (rule exI [where x = "[(beg, stop)]"], simp del: grouped.simps)
  next
    case lt: True
    show ?thesis
    proof (cases "f (data ! stop) = f (data ! beg)")
      case True
      have l: "group_loop (\<lambda>a b. f a = f b) beg (stop + 1) data groups = (data', groups')"
        using "1.prems"(1) lt True by (simp add: group_loop.simps [of _ beg stop data])
      have "\<forall>i. beg \<le> i \<and> i < stop + 1 \<longrightarrow> f (data ! i) = f (data ! beg)"
        using "1.prems"(4) True by (metis less_Suc_eq Suc_eq_plus1)
      note r = "1.hyps"(1) [OF lt True l _ _ this]
      have "beg < stop + 1" "stop + 1 \<le> length data" using "1.prems"(2) lt by simp_all
      from r [OF this] obtain rs where rs: "groups' = groups @ map range16_of rs" "grouped f data' beg rs"
        "mset data' = mset data" "\<forall>i < stop + 1. data' ! i = data ! i" by blast
      from rs(4) have "\<forall>i < stop. data' ! i = data ! i" by simp
      with rs show ?thesis by blast
    next
      case False
      obtain d s where p: "probe_loop (\<lambda>a b. f a = f b) beg stop (stop + 1) data = (d, s)"
        by (cases "probe_loop (\<lambda>a b. f a = f b) beg stop (stop + 1) data")
      note pl = probe_loop_take [OF p "1.prems"(2) lt False "1.prems"(4)]
      have l: "group_loop (\<lambda>a b. f a = f b) s (s + 1) d (groups @ [range16_of (beg, s)]) = (data', groups')"
        using "1.prems"(1) lt False p by (simp add: group_loop.simps [of _ beg stop data] range16_of_def)
      have o: "s < s + 1" "s + 1 \<le> length d" "\<forall>i. s \<le> i \<and> i < s + 1 \<longrightarrow> f (d ! i) = f (d ! s)"
        using pl(3,7) by (auto simp: less_Suc_eq)
      note r = "1.hyps"(2) [OF lt False p [symmetric] l [unfolded range16_of_def fst_conv snd_conv] o]
      from r obtain rs where rs: "groups' = groups @ map range16_of ((beg, s) # rs)" "grouped f data' s rs"
        "mset data' = mset d" "\<And>i. i < s + 1 \<Longrightarrow> data' ! i = d ! i"
        by (auto simp: range16_of_def simp del: grouped.simps)
      have len: "length data' = length d" using rs(3) by (metis mset_eq_length)
      have tk: "take s data' = take s d" using rs(4) len by (intro take_eq_nth) auto
      have "set (drop s data') = set (drop s d)" using mset_take_drop_eq [OF rs(3) tk] by (metis set_mset_mset)
      moreover have b: "data' ! beg = d ! beg" using rs(4) [of beg] "1.prems"(2) pl(2) by simp
      moreover have "\<forall>i. beg \<le> i \<and> i < s \<longrightarrow> f (data' ! i) = f (data' ! beg)"
        using rs(4) pl(5) b by (metis less_add_one less_trans)
      ultimately have "grouped f data' beg ((beg, s) # rs)"
        using rs(2) pl(2,3,6,7) "1.prems"(2) len by simp
      moreover have "\<forall>i < stop. data' ! i = data ! i" using rs(4) pl(2,4) by simp
      ultimately show ?thesis using rs(1,3) pl(1) by - (rule exI [where x = "(beg, s) # rs"], simp del: grouped.simps)
    qed
  qed
qed

definition slice_of :: "'a list \<Rightarrow> nat \<times> nat \<Rightarrow> 'a list" where
  "slice_of xs r = take (snd r - fst r) (drop (fst r) xs)"

definition uniform :: "('a \<Rightarrow> 'k) \<Rightarrow> 'a list \<Rightarrow> bool" where
  "uniform f s \<longleftrightarrow> s \<noteq> [] \<and> (\<forall>x \<in> set s. f x = f (hd s))"

lemma grouped_slices:
  "grouped f data beg rs \<Longrightarrow>
     concat (map (slice_of data) rs) = drop beg data \<and> list_all (uniform f) (map (slice_of data) rs) \<and>
     distinct (map (f \<circ> hd \<circ> slice_of data) rs) \<and> list_all (\<lambda>(b, e). b < e \<and> e \<le> length data) rs"
proof (induction rs arbitrary: beg)
  case (Cons r rs)
  obtain b e where r: "r = (b, e)" by (cases r)
  have g: "b = beg" "b < e" "e \<le> length data"
    "\<And>i. b \<le> i \<Longrightarrow> i < e \<Longrightarrow> f (data ! i) = f (data ! b)"
    "\<forall>x \<in> set (drop e data). f x \<noteq> f (data ! b)" "grouped f data e rs"
    using Cons.prems unfolding r grouped.simps by blast+
  note ih = Cons.IH [OF g(6)]
  have c: "slice_of data r @ drop e data = drop beg data"
  proof -
    have "drop e data = drop (e - b) (drop b data)" using g(2) by simp
    then show ?thesis unfolding slice_of_def r g(1) [symmetric] fst_conv snd_conv by (simp only: append_take_drop_id)
  qed
  have ne: "slice_of data r \<noteq> []" "hd (slice_of data r) = data ! b"
    using g(2,3) r by (auto simp: slice_of_def hd_drop_conv_nth)
  have "f x = f (data ! b)" if "x \<in> set (slice_of data r)" for x
  proof -
    from that obtain j where "j < e - b" "x = data ! (b + j)"
      using g(2,3) r by (auto simp: slice_of_def in_set_conv_nth)
    then show ?thesis using g(4) [of "b + j"] by simp
  qed
  then have u: "uniform f (slice_of data r)" using ne by (simp add: uniform_def)
  have "f (data ! b) \<notin> set (map (f \<circ> hd \<circ> slice_of data) rs)"
  proof
    assume "f (data ! b) \<in> set (map (f \<circ> hd \<circ> slice_of data) rs)"
    then obtain q where q: "q \<in> set rs" "f (data ! b) = f (hd (slice_of data q))" by auto
    then have "uniform f (slice_of data q)" using ih by (simp add: list_all_iff)
    then have "slice_of data q \<noteq> []" by (simp add: uniform_def)
    then have "hd (slice_of data q) \<in> set (concat (map (slice_of data) rs))" using q(1) by force
    then have "hd (slice_of data q) \<in> set (drop e data)" using ih by simp
    with g(5) q(2) show False by fastforce
  qed
  with ih c u ne(2) g(2,3) r show ?case by simp
qed simp

section \<open>The registry\<close>

record registry =
  reg_pkts :: "packet list"
  reg_groups :: "range16 list"
  reg_cursor :: u16

definition registry_new :: "bool \<Rightarrow> nat \<Rightarrow> registry" where
  "registry_new batched npkts =
     \<lparr>reg_pkts = replicate npkts (packet_new batched), reg_groups = [], reg_cursor = 0\<rparr>"

text \<open>\<open>recv\<close> is \<^verbatim>\<open>recv_some\<close> on the socket, with or without batching.\<close>

definition batched_recv_on ::
  "(packet list \<Rightarrow> (nat io_result poll \<times> packet list) checked) \<Rightarrow> registry \<Rightarrow> (unit io_result poll \<times> registry) checked" where
  "batched_recv_on recv r =
     bind_sum (recv (reg_pkts r)) (\<lambda>(res, pkts).
       Inr (case res of
              Pending \<Rightarrow> (Pending, r\<lparr>reg_pkts := pkts\<rparr>)
            | Ready (Inl e) \<Rightarrow> (Ready (Inl e), r\<lparr>reg_pkts := pkts\<rparr>)
            | Ready (Inr n) \<Rightarrow> (Ready (Inr ()), r\<lparr>reg_pkts := pkts, reg_cursor := of_nat n\<rparr>)))"

definition same_addr :: "packet \<Rightarrow> packet \<Rightarrow> bool" where
  "same_addr a b \<longleftrightarrow> pkt_addr a = pkt_addr b"

definition group_by_addr :: "registry \<Rightarrow> registry checked" where
  "group_by_addr r =
     (let n = unat (reg_cursor r) in
      bind_sum (sub_slice 0 n (reg_pkts r)) (\<lambda>data.
        let (data', groups) = group_by_inner same_addr data []
        in Inr (r\<lparr>reg_pkts := data' @ drop n (reg_pkts r), reg_groups := groups\<rparr>)))"

definition group_iter :: "registry \<Rightarrow> packet list list checked" where
  "group_iter r = mapM_sum (\<lambda>(s, e). sub_slice (unat s) (unat e) (reg_pkts r)) (reg_groups r)"

definition registry_iter :: "registry \<Rightarrow> packet list checked" where
  "registry_iter r = sub_slice 0 (unat (reg_cursor r)) (reg_pkts r)"

lemma mapM_range16:
  assumes "list_all (\<lambda>(b, e). b < e \<and> e \<le> length xs) rs" "length xs < 2 ^ 16"
  shows "mapM_sum (\<lambda>(s, e). sub_slice (unat s) (unat e) (xs @ ys)) (map range16_of rs) = Inr (map (slice_of xs) rs)"
proof -
  have "sub_slice (unat (fst (range16_of r))) (unat (snd (range16_of r))) (xs @ ys) = Inr (slice_of xs r)"
    if "r \<in> set rs" for r
  proof -
    obtain b e where r: "r = (b, e)" by (cases r)
    with that assms(1) have be: "b < e" "e \<le> length xs" by (auto simp: list_all_iff)
    then have "unat (of_nat b :: u16) = b" "unat (of_nat e :: u16) = e"
      using assms(2) by (simp_all add: unat_of_nat)
    then show ?thesis using be r by (simp add: range16_of_def slice_of_def)
  qed
  then have "mapM_sum ((\<lambda>(s, e). sub_slice (unat s) (unat e) (xs @ ys)) \<circ> range16_of) rs = Inr (map (slice_of xs) rs)"
    by (intro mapM_sum_total) (simp add: case_prod_beta)
  moreover have "mapM_sum g (map h zs) = mapM_sum (g \<circ> h) zs" for g :: "range16 \<Rightarrow> panic + 'a list" and h and zs :: "(nat \<times> nat) list"
    by (induction zs) simp_all
  ultimately show ?thesis by simp
qed

lemma registry_groups_spec:
  assumes "n = unat (reg_cursor r)" "0 < n" "n \<le> length (reg_pkts r)"
  shows "\<exists>r' slices. group_by_addr r = Inr r' \<and> group_iter r' = Inr slices \<and>
    mset (concat slices) = mset (take n (reg_pkts r)) \<and> list_all (uniform pkt_addr) slices \<and>
    distinct (map (pkt_addr \<circ> hd) slices) \<and> reg_cursor r' = reg_cursor r \<and>
    mset (reg_pkts r') = mset (reg_pkts r)"
proof -
  let ?d = "take n (reg_pkts r)"
  obtain d' gs where g: "group_loop same_addr 0 1 ?d [] = (d', gs)" by (cases "group_loop same_addr 0 1 ?d []")
  have eq: "same_addr = (\<lambda>a b. pkt_addr a = pkt_addr b)" by (simp add: fun_eq_iff same_addr_def)
  have pre: "(0 :: nat) < 1" "1 \<le> length ?d" "\<forall>i. 0 \<le> i \<and> i < 1 \<longrightarrow> pkt_addr (?d ! i) = pkt_addr (?d ! 0)"
    using assms by auto
  obtain rs where rs: "gs = map range16_of rs" "grouped pkt_addr d' 0 rs" "mset d' = mset ?d"
    using group_loop_spec [OF g [unfolded eq] pre] by auto
  note sl = grouped_slices [OF rs(2)]
  have "length d' = n" using rs(3) assms(3) by (metis length_take min.absorb2 mset_eq_length)
  moreover have "n < 2 ^ 16" using assms(1) unsigned_less [of "reg_cursor r"] by simp
  ultimately have it: "mapM_sum (\<lambda>(s, e). sub_slice (unat s) (unat e) (d' @ drop n (reg_pkts r))) gs = Inr (map (slice_of d') rs)"
    using mapM_range16 [of d' rs] sl rs(1) by simp
  have "mset (d' @ drop n (reg_pkts r)) = mset (reg_pkts r)"
    using rs(3) by (metis append_take_drop_id mset_append)
  then show ?thesis
    using assms(1,3) g it sl rs(3)
    by (simp add: group_by_addr_def group_by_inner_def group_iter_def mapM_sum_total flip: comp_assoc)
qed

section \<open>Properties\<close>

text \<open>
  C27: Grouping a batch: for any number of received packets from 1 on the slices that are iterated are the received
  packets, each exactly once; every slice is non-empty and from one sender, and no sender has two slices.
\<close>
theorem registry_groups:
  assumes "n = unat (reg_cursor r)" "0 < n" "n \<le> length (reg_pkts r)"
  shows "\<exists>r' slices. group_by_addr r = Inr r' \<and> group_iter r' = Inr slices \<and>
    mset (concat slices) = mset (take n (reg_pkts r)) \<and> list_all (uniform pkt_addr) slices \<and>
    distinct (map (pkt_addr \<circ> hd) slices) \<and> reg_cursor r' = reg_cursor r \<and>
    mset (reg_pkts r') = mset (reg_pkts r)"
  by (rule registry_groups_spec [OF assms])

definition demo_pkt :: "u16 \<Rightarrow> u8 \<Rightarrow> packet" where
  "demo_pkt port b = \<lparr>pkt_buf = [b], pkt_addr = Some (SockV4 1 port), pkt_cursor = 1\<rparr>"

text \<open>
  The packets of one sender can change their order: here the second group's do.
\<close>

definition demo_reg :: registry where
  "demo_reg = \<lparr>reg_pkts = [demo_pkt 1 0, demo_pkt 2 1, demo_pkt 2 2, demo_pkt 1 3], reg_groups = [], reg_cursor = 4\<rparr>"

lemma demo_reg_groups:
  "bind_sum (group_by_addr demo_reg) group_iter = Inr [[demo_pkt 1 0, demo_pkt 1 3], [demo_pkt 2 2, demo_pkt 2 1]]"
  by (simp add: demo_reg_def group_by_addr_def group_by_inner_def group_loop.simps probe_loop.simps swap_elems_def
      same_addr_def group_iter_def sub_slice_def demo_pkt_def)

theorem registry_groups_witness:
  "\<exists>r' slices. group_by_addr demo_reg = Inr r' \<and> group_iter r' = Inr slices \<and>
     mset (concat slices) = mset [demo_pkt 1 0, demo_pkt 2 1, demo_pkt 2 2, demo_pkt 1 3] \<and>
     distinct (map (pkt_addr \<circ> hd) slices)"
  using registry_groups [of 4 demo_reg] by (auto simp: demo_reg_def)

end
