(* ===== verification/Sock_Map.thy ===== *)
theory Sock_Map
  imports Net_Addr
begin

text \<open>
  The association table of the udp relay, \<^verbatim>\<open>hoorayhug_core/src/udp/sockmap.rs\<close>: a hash map from client
  addresses to sockets behind a lock, each operation one critical section. Its laws are a locale, which the
  model's map satisfies; the relay relies on nothing else.
\<close>

section \<open>The interface\<close>

locale sock_map =
  fixes lookup :: "'m \<Rightarrow> 'k \<Rightarrow> 'v option"
    and insert_at :: "'k \<Rightarrow> 'v \<Rightarrow> 'm \<Rightarrow> 'm"
    and remove_at :: "'k \<Rightarrow> 'm \<Rightarrow> 'm"
  assumes lookup_insert: "lookup (insert_at k v m) k' = (if k' = k then Some v else lookup m k')"
    and lookup_remove: "lookup (remove_at k m) k' = (if k' = k then None else lookup m k')"
begin

text \<open>
  \<^verbatim>\<open>owned\<close>: every socket of the table serves the client it is stored under, as \<open>own\<close> records it. A socket
  in use under one address is then never found under another.
\<close>

definition owned :: "('v \<Rightarrow> 'k option) \<Rightarrow> 'm \<Rightarrow> bool" where
  "owned own m \<longleftrightarrow> (\<forall>k v. lookup m k = Some v \<longrightarrow> own v = Some k)"

lemma ownedD: "owned own m \<Longrightarrow> lookup m k = Some v \<Longrightarrow> own v = Some k"
  by (simp add: owned_def)

lemma owned_insert: "owned own m \<Longrightarrow> own v = Some k \<Longrightarrow> owned own (insert_at k v m)"
  by (simp add: owned_def lookup_insert)

lemma owned_remove: "owned own m \<Longrightarrow> owned own (remove_at k m)"
  by (simp add: owned_def lookup_remove)

lemma owned_fresh:
  assumes "owned own m" "own v = None"
  shows "owned (own(v := Some k)) m"
  using assms by (auto simp: owned_def)

lemma owned_unique: "owned own m \<Longrightarrow> lookup m k = Some v \<Longrightarrow> lookup m k' = Some v \<Longrightarrow> k = k'"
  by (metis ownedD option.inject)

end

section \<open>The table\<close>

type_synonym 'v sockmap = "sock_addr \<rightharpoonup> 'v"

definition sockmap_new :: "'v sockmap" where
  "sockmap_new = (\<lambda>_. None)"

definition sm_find :: "'v sockmap \<Rightarrow> sock_addr \<Rightarrow> 'v option" where
  "sm_find m addr = m addr"

definition sm_insert :: "sock_addr \<Rightarrow> 'v \<Rightarrow> 'v sockmap \<Rightarrow> 'v sockmap" where
  "sm_insert addr socket m = m(addr \<mapsto> socket)"

definition sm_remove :: "sock_addr \<Rightarrow> 'v sockmap \<Rightarrow> 'v sockmap" where
  "sm_remove addr m = m(addr := None)"

interpretation sm: sock_map sm_find sm_insert sm_remove
  by unfold_locales (simp_all add: sm_find_def sm_insert_def sm_remove_def)

text \<open>
  \<^verbatim>\<open>find_or_insert\<close>: \<open>f\<close> makes the socket, with its effects on the state \<open>'s\<close> around the table. Run
  alone, its three critical sections are one step.
\<close>

definition find_or_insert ::
  "sock_addr \<Rightarrow> ('s \<Rightarrow> ('e + 'v) \<times> 's) \<Rightarrow> 'v sockmap \<times> 's \<Rightarrow> ('e + 'v) \<times> 'v sockmap \<times> 's" where
  "find_or_insert addr f st =
     (case st of (m, s) \<Rightarrow>
        (case sm_find m addr of
           Some x \<Rightarrow> (Inr x, m, s)
         | None \<Rightarrow>
             (case f s of
                (Inl e, s') \<Rightarrow> (Inl e, m, s')
              | (Inr socket, s') \<Rightarrow> (Inr socket, sm_insert addr socket m, s'))))"

lemma find_or_insert_found: "sm_find m addr = Some x \<Longrightarrow> find_or_insert addr f (m, s) = (Inr x, m, s)"
  by (simp add: find_or_insert_def)

lemma find_or_insert_result:
  assumes "find_or_insert addr f (m, s) = (Inr x, m', s')"
  shows "sm_find m' addr = Some x \<and> (\<forall>k. k \<noteq> addr \<longrightarrow> sm_find m' k = sm_find m k)"
  using assms by (auto simp: find_or_insert_def sm.lookup_insert split: option.splits sum.splits prod.splits)

end
