(* ===== verification/Timeout.thy ===== *)
theory Timeout
  imports Relay_Prelude
begin

text \<open>
  The timeout future of \<^verbatim>\<open>hoorayhug_core/src/time.rs\<close>. \<open>elapsed\<close> is the number of seconds since
  \<^verbatim>\<open>timeoutfut\<close> built the future, as the timer sees it when it is polled.
\<close>

datatype delay = DelaySome nat | DelayNone

definition timeoutfut :: "nat \<Rightarrow> delay" where
  "timeoutfut t = (case t of 0 \<Rightarrow> DelayNone | Suc _ \<Rightarrow> DelaySome t)"

definition timeout_poll :: "delay \<Rightarrow> nat \<Rightarrow> 'a poll \<Rightarrow> 'a io_result poll" where
  "timeout_poll d elapsed value =
     (case value of
        Ready v \<Rightarrow> Ready (Inr v)
      | Pending \<Rightarrow>
          (case d of
             DelaySome t \<Rightarrow> if t \<le> elapsed then Ready (Inl TimedOut) else Pending
           | DelayNone \<Rightarrow> Pending))"

text \<open>The polls of an awaited future, each with the time and what the wrapped future answers.\<close>

fun timeout_await :: "delay \<Rightarrow> (nat \<times> 'a poll) list \<Rightarrow> 'a io_result poll" where
  "timeout_await d [] = Pending"
| "timeout_await d ((elapsed, v) # ps) =
     (case timeout_poll d elapsed v of Pending \<Rightarrow> timeout_await d ps | r \<Rightarrow> r)"

text \<open>
  The wrapped future's last answer decides: \<open>v\<close> is its outcome (\<open>Pending\<close> when it never completes),
  \<open>expired\<close> whether the timer runs out first.
\<close>

definition with_timeout :: "nat \<Rightarrow> bool \<Rightarrow> 'a poll \<Rightarrow> 'a io_result poll" where
  "with_timeout t expired v =
     (case v of
        Ready x \<Rightarrow> if t \<noteq> 0 \<and> expired then Ready (Inl TimedOut) else Ready (Inr x)
      | Pending \<Rightarrow> if t \<noteq> 0 then Ready (Inl TimedOut) else Pending)"

lemma timeoutfut_simps [simp]: "timeoutfut 0 = DelayNone" "t \<noteq> 0 \<Longrightarrow> timeoutfut t = DelaySome t"
  by (auto simp: timeoutfut_def split: nat.splits)

lemma timeout_await_pending:
  "(\<forall>(e, v) \<in> set ps. v = Pending \<and> (t \<noteq> 0 \<longrightarrow> e < t)) \<Longrightarrow>
     timeout_await (timeoutfut t) (ps @ qs) = timeout_await (timeoutfut t) qs"
  by (induction ps) (auto simp: timeout_poll_def split: delay.splits nat.splits)

lemma timeout_await_spec:
  assumes "\<forall>(e, v) \<in> set ps. v = Pending \<and> (t \<noteq> 0 \<longrightarrow> e < t)" "v \<noteq> Pending \<or> t \<noteq> 0 \<and> t \<le> e"
  shows "timeout_await (timeoutfut t) (ps @ (e, v) # qs) = with_timeout t (v = Pending) v"
  unfolding timeout_await_pending [OF assms(1)]
  using assms(2) by (cases "t = 0"; cases v) (simp_all add: timeout_poll_def with_timeout_def)

lemma timeout_await_Ready:
  "timeout_await (timeoutfut t) ps = Ready r \<Longrightarrow>
     (\<exists>e v. (e, v) \<in> set ps \<and> (case r of Inr x \<Rightarrow> v = Ready x | Inl err \<Rightarrow> err = TimedOut \<and> v = Pending \<and> 0 < t \<and> t \<le> e))"
proof (induction ps)
  case (Cons p ps)
  obtain e v where p: "p = (e, v)" by (cases p)
  show ?case
  proof (cases "timeout_poll (timeoutfut t) e v")
    case Pending
    with Cons p show ?thesis by auto
  next
    case (Ready s)
    then have "s = r" using Cons.prems p by simp
    with Ready p show ?thesis
      by (cases "t = 0"; cases v; cases r) (auto simp: timeout_poll_def split: if_splits)
  qed
qed simp

section \<open>Properties\<close>

text \<open>
  C32: A future under a timeout: if every earlier poll found it waiting before the deadline, the poll
  that finds it ready yields its value, even at or after the deadline, and otherwise the first poll at the
  deadline yields \<open>TimedOut\<close>; a timeout of 0 never yields \<open>TimedOut\<close>.
\<close>
theorem timeout_first_event:
  assumes "\<forall>(e, v) \<in> set ps. v = Pending \<and> (t \<noteq> 0 \<longrightarrow> e < t)"
  shows "timeout_await (timeoutfut t) (ps @ (e, Ready x) # qs) = Ready (Inr x) \<and>
    (t \<noteq> 0 \<longrightarrow> t \<le> e \<longrightarrow> timeout_await (timeoutfut t) (ps @ (e, Pending) # qs) = Ready (Inl TimedOut)) \<and>
    timeout_await (timeoutfut 0) rs \<noteq> Ready (Inl err)"
proof -
  have "timeout_await (timeoutfut 0) rs \<noteq> Ready (Inl err)"
    using timeout_await_Ready [of 0 rs "Inl err"] by auto
  then show ?thesis
    using timeout_await_spec [OF assms, of "Ready x" e qs] timeout_await_spec [OF assms, of Pending e qs]
    by (simp add: with_timeout_def)
qed

theorem timeout_first_event_witness:
  "timeout_await (timeoutfut 5) ([(1, Pending), (4, Pending)] @ (7, Ready True) # []) = Ready (Inr True)"
  by (rule timeout_first_event [THEN conjunct1]) simp

end
