(* ===== verification/Proxy.thy ===== *)
theory Proxy
  imports Net_Addr Stream_IO Timeout
begin

text \<open>
  The PROXY protocol of \<^verbatim>\<open>hoorayhug_core/src/tcp/proxy.rs\<close>. The crate \<^verbatim>\<open>proxy_protocol\<close> is a
  parameter: \<open>parse\<close> gives a header and the rest of the slice or an error, \<open>encode\<close> the bytes of a header
  or an error. The header types are those the code builds and matches. \<^verbatim>\<open>peek\<close> is the socket's: it
  looks at what has arrived without consuming it. The logging macros are left out.
\<close>

type_synonym sin4 = "u32 \<times> u16"
type_synonym sin6 = "128 word \<times> u16 \<times> u32 \<times> u32"

datatype v1_addresses = V1Unknown | V1Ipv4 sin4 sin4 | V1Ipv6 sin6 sin6
datatype v2_addresses = V2Unspec | V2Ipv4 sin4 sin4 | V2Ipv6 sin6 sin6 | V2Unix bytes bytes
datatype v2_command = CmdLocal | CmdProxy
datatype v2_protocol = ProtoUnspec | ProtoStream | ProtoDatagram

datatype proxy_header =
    Version1 v1_addresses
  | Version2 v2_command v2_protocol v2_addresses
  | VersionOther

text \<open>\<^verbatim>\<open>ProxyOpts\<close> (\<^verbatim>\<open>hoorayhug_core/src/endpoint.rs\<close>).\<close>

record proxy_opts =
  send_proxy :: bool
  accept_proxy :: bool
  send_proxy_version :: nat
  accept_proxy_timeout :: nat

definition proxy_enabled :: "proxy_opts \<Rightarrow> bool" where
  "proxy_enabled o1 \<longleftrightarrow> send_proxy o1 \<or> accept_proxy o1"

section \<open>Headers\<close>

fun unpack_sin4 :: "sock_addr \<Rightarrow> sin4 checked" where
  "unpack_sin4 (SockV4 a p) = Inr (a, p)"
| "unpack_sin4 (SockV6 a p f s) = Inl (Panic ''unreachable'')"

fun unpack_sin6 :: "sock_addr \<Rightarrow> sin6 checked" where
  "unpack_sin6 (SockV6 a p f s) = Inr (a, p, f, s)"
| "unpack_sin6 (SockV4 a p) = Inl (Panic ''unreachable'')"

fun sock_v4 :: "sin4 \<Rightarrow> sock_addr" where
  "sock_v4 (a, p) = SockV4 a p"

fun sock_v6 :: "sin6 \<Rightarrow> sock_addr" where
  "sock_v6 (a, p, f, s) = SockV6 a p f s"

definition make_header_v1 :: "sock_addr \<Rightarrow> sock_addr \<Rightarrow> proxy_header checked" where
  "make_header_v1 client server =
     (if is_ipv4 client
      then bind_sum (unpack_sin4 client) (\<lambda>s. bind_sum (unpack_sin4 server) (\<lambda>d. Inr (Version1 (V1Ipv4 s d))))
      else bind_sum (unpack_sin6 client) (\<lambda>s. bind_sum (unpack_sin6 server) (\<lambda>d. Inr (Version1 (V1Ipv6 s d)))))"

definition make_header_v2 :: "sock_addr \<Rightarrow> sock_addr \<Rightarrow> proxy_header checked" where
  "make_header_v2 client server =
     bind_sum
       (if is_ipv4 client
        then bind_sum (unpack_sin4 client) (\<lambda>s. bind_sum (unpack_sin4 server) (\<lambda>d. Inr (V2Ipv4 s d)))
        else bind_sum (unpack_sin6 client) (\<lambda>s. bind_sum (unpack_sin6 server) (\<lambda>d. Inr (V2Ipv6 s d))))
       (\<lambda>a. Inr (Version2 CmdProxy ProtoStream a))"

definition make_header :: "sock_addr \<Rightarrow> sock_addr \<Rightarrow> nat \<Rightarrow> proxy_header checked" where
  "make_header client server version =
     (if version = 2 then make_header_v2 client server
      else if version = 1 then make_header_v1 client server
      else Inl (Panic ''unreachable''))"

fun handle_header_v1 :: "v1_addresses \<Rightarrow> (sock_addr \<times> sock_addr) option" where
  "handle_header_v1 V1Unknown = None"
| "handle_header_v1 (V1Ipv4 s d) = Some (sock_v4 s, sock_v4 d)"
| "handle_header_v1 (V1Ipv6 s d) = Some (sock_v6 s, sock_v6 d)"

definition handle_header_v2 :: "v2_command \<Rightarrow> v2_protocol \<Rightarrow> v2_addresses \<Rightarrow> (sock_addr \<times> sock_addr) option" where
  "handle_header_v2 cmd proto addr =
     (if cmd = CmdLocal then None
      else case proto of
             ProtoUnspec \<Rightarrow> None
           | ProtoDatagram \<Rightarrow> None
           | ProtoStream \<Rightarrow>
               (case addr of
                  V2Ipv4 s d \<Rightarrow> Some (sock_v4 s, sock_v4 d)
                | V2Ipv6 s d \<Rightarrow> Some (sock_v6 s, sock_v6 d)
                | V2Unspec \<Rightarrow> None
                | V2Unix _ _ \<Rightarrow> None))"

fun handle_header :: "proxy_header \<Rightarrow> (sock_addr \<times> sock_addr) option" where
  "handle_header (Version1 a) = handle_header_v1 a"
| "handle_header (Version2 c p a) = handle_header_v2 c p a"
| "handle_header VersionOther = None"

section \<open>The handler\<close>

text \<open>\<^verbatim>\<open>TcpStream::peek\<close>, awaited.\<close>

function tcp_peek :: "nat \<Rightarrow> stream \<Rightarrow> bytes io_result poll \<times> stream" where
  "tcp_peek n s =
     (case rd_evs s of
        [] \<Rightarrow> (Pending, s)
      | RdPending # es \<Rightarrow> tcp_peek n (s\<lparr>rd_evs := es\<rparr>)
      | RdErr e # es \<Rightarrow> (Ready (Inl e), s\<lparr>rd_evs := es\<rparr>)
      | RdData bs # es \<Rightarrow> (Ready (Inr (take n bs)), s))"
  by pat_completeness auto
termination by (relation "measure (\<lambda>(n, s). length (rd_evs s))") auto

declare tcp_peek.simps [simp del]

definition unspecified :: "sock_addr \<Rightarrow> sock_addr" where
  "unspecified a = (if is_ipv4 a then sock_new (IpV4 0) 0 else sock_new (IpV6 0) 0)"

type_synonym proxy_outcome = "(unit io_result poll \<times> stream \<times> stream) checked"

text \<open>
  The first half: the header that is accepted. \<open>Leave\<close> ends \<^verbatim>\<open>handle_proxy\<close>, \<open>Addrs\<close> goes on with
  the addresses that were forwarded, if any.
\<close>

datatype accepted = Leave "unit io_result poll" | Addrs "(sock_addr \<times> sock_addr) option"

definition accept_header ::
  "(bytes \<Rightarrow> string + proxy_header \<times> bytes) \<Rightarrow> proxy_opts \<Rightarrow> bool \<Rightarrow> stream \<Rightarrow> accepted \<times> stream" where
  "accept_header parse opts expired src =
     (if accept_proxy opts
      then case tcp_peek 256 src of
             (p, src1) \<Rightarrow>
               (case with_timeout (accept_proxy_timeout opts) expired p of
                  Pending \<Rightarrow> (Leave Pending, src1)
                | Ready (Inl e) \<Rightarrow> (Leave (Ready (Inl e)), src1)
                | Ready (Inr (Inl e)) \<Rightarrow> (Leave (Ready (Inl e)), src1)
                | Ready (Inr (Inr buf)) \<Rightarrow>
                    (case parse buf of
                       Inl e \<Rightarrow> (Leave (Ready (Inl (OtherError e))), src1)
                     | Inr (header, rest) \<Rightarrow>
                         (case read_exact (length buf - length rest) src1 of
                            (Pending, src2) \<Rightarrow> (Leave Pending, src2)
                          | (Ready (Inl e), src2) \<Rightarrow> (Leave (Ready (Inl e)), src2)
                          | (Ready (Inr _), src2) \<Rightarrow>
                              (if send_proxy opts then Addrs (handle_header header) else Leave (Ready (Inr ())), src2))))
      else (Addrs None, src))"

definition send_header ::
  "(proxy_header \<Rightarrow> string + bytes) \<Rightarrow> sock_addr \<Rightarrow> sock_addr \<Rightarrow> nat \<Rightarrow> stream \<Rightarrow> stream \<Rightarrow> proxy_outcome" where
  "send_header encode client server version src dst =
     bind_sum (make_header client server version) (\<lambda>h.
       case encode h of
         Inl e \<Rightarrow> Inr (Ready (Inl (OtherError e)), src, dst)
       | Inr bs \<Rightarrow> (case write_all bs dst of (p, dst') \<Rightarrow> Inr (p, src, dst')))"

definition handle_proxy ::
  "(bytes \<Rightarrow> string + proxy_header \<times> bytes) \<Rightarrow> (proxy_header \<Rightarrow> string + bytes) \<Rightarrow> sock_addr io_result
     \<Rightarrow> proxy_opts \<Rightarrow> bool \<Rightarrow> stream \<Rightarrow> stream \<Rightarrow> proxy_outcome" where
  "handle_proxy parse encode peer_addr opts expired src dst =
     (case accept_header parse opts expired src of
        (Leave r, src1) \<Rightarrow> Inr (r, src1, dst)
      | (Addrs (Some (client, server)), src1) \<Rightarrow>
          send_header encode client server (send_proxy_version opts) src1 dst
      | (Addrs None, src1) \<Rightarrow>
          (case peer_addr of
             Inl e \<Rightarrow> Inr (Ready (Inl e), src1, dst)
           | Inr client \<Rightarrow>
               send_header encode client (unspecified client) (send_proxy_version opts) src1 dst))"

section \<open>Lemmas\<close>

lemma make_header_ok:
  assumes "is_ipv4 c = is_ipv4 d" "v = 1 \<or> v = 2"
  shows "\<exists>h. make_header c d v = Inr h \<and> handle_header h = Some (c, d)"
  using assms
  by (cases c; cases d) (auto simp: make_header_def make_header_v1_def make_header_v2_def handle_header_v2_def)

lemma make_header_panics: "v \<noteq> 1 \<Longrightarrow> v \<noteq> 2 \<Longrightarrow> make_header c d v = Inl (Panic ''unreachable'')"
  by (simp add: make_header_def)

lemma handle_header_family: "handle_header h = Some (c, d) \<Longrightarrow> is_ipv4 c = is_ipv4 d"
proof (induction h rule: handle_header.induct)
  case (1 a)
  then show ?case by (cases a) auto
next
  case (2 c p a)
  then show ?case by (auto simp: handle_header_v2_def split: if_splits v2_protocol.splits v2_addresses.splits)
qed simp

lemma accept_header_family: "accept_header parse opts expired src = (Addrs (Some (c, d)), s) \<Longrightarrow> is_ipv4 c = is_ipv4 d"
  by (auto simp: accept_header_def split: if_splits prod.splits poll.splits sum.splits dest: handle_header_family)

lemma send_header_panics:
  assumes "is_ipv4 c = is_ipv4 d"
  shows "(\<exists>e. send_header encode c d v src dst = Inl e) = (v \<noteq> 1 \<and> v \<noteq> 2)"
proof (cases "v = 1 \<or> v = 2")
  case True
  then obtain h where "make_header c d v = Inr h" using make_header_ok [OF assms] by blast
  then show ?thesis using True by (auto simp: send_header_def split: sum.splits prod.splits)
next
  case False
  then show ?thesis by (simp add: send_header_def make_header_panics)
qed

lemma unspecified_family [simp]: "is_ipv4 (unspecified c) = is_ipv4 c"
  by (cases c) (simp_all add: unspecified_def)

text \<open>A header that has arrived in one piece.\<close>

lemma accept_header_whole:
  assumes "accept_proxy opts" "\<not> expired \<or> accept_proxy_timeout opts = 0" "rd_evs src = RdData (bs @ rest) # es"
    and "parse (take 256 (bs @ rest)) = Inr (h, drop (length bs) (take 256 (bs @ rest)))" "length bs \<le> 256" "bs \<noteq> []"
  shows "\<exists>src'. accept_header parse opts expired src =
      (if send_proxy opts then Addrs (handle_header h) else Leave (Ready (Inr ())), src') \<and>
    rcvd src' = rcvd src @ bs \<and> incoming src' = rest @ concat (map ev_data es)"
proof -
  define buf where "buf = take 256 (bs @ rest)"
  have p: "tcp_peek 256 src = (Ready (Inr buf), src)" using assms(3) by (simp add: tcp_peek.simps buf_def)
  have parsed: "parse buf = Inr (h, drop (length bs) buf)" using assms(4) by (simp only: buf_def)
  have len: "length buf - length (drop (length bs) buf) = length bs" using assms(5) by (simp add: buf_def)
  let ?src = "src\<lparr>rd_evs := (if rest = [] then es else RdData rest # es), rcvd := rcvd src @ bs\<rparr>"
  have "poll_read (length bs) src = (Ready (Inr bs), ?src)" using assms(3) by (simp add: poll_read_def)
  then have r: "read_exact (length bs) src = (Ready (Inr bs), ?src)"
    using assms(3,6) by (simp add: read_exact.simps [of "length bs" src] read_exact.simps [of 0])
  have t: "with_timeout (accept_proxy_timeout opts) expired (Ready (Inr buf)) = Ready (Inr (Inr buf :: bytes io_result))"
    using assms(2) by (auto simp: with_timeout_def)
  have "accept_header parse opts expired src =
      (if send_proxy opts then Addrs (handle_header h) else Leave (Ready (Inr ())), ?src)"
    unfolding accept_header_def p using assms(1) by (simp add: t parsed len r del: length_drop)
  moreover have "incoming ?src = rest @ concat (map ev_data es)" by (simp add: incoming_def)
  ultimately show ?thesis by (intro exI [of _ ?src]) simp
qed

lemma handle_proxy_panics:
  "(\<exists>e. handle_proxy parse encode peer opts expired src dst = Inl e) =
   ((case accept_header parse opts expired src of
       (Leave _, _) \<Rightarrow> False
     | (Addrs (Some _), _) \<Rightarrow> True
     | (Addrs None, _) \<Rightarrow> (\<exists>a. peer = Inr a)) \<and> send_proxy_version opts \<notin> {1, 2})"
proof -
  obtain x s where a: "accept_header parse opts expired src = (x, s)" by (cases "accept_header parse opts expired src")
  show ?thesis
  proof (cases x)
    case (Leave r)
    then show ?thesis by (simp add: handle_proxy_def a)
  next
    case (Addrs z)
    show ?thesis
    proof (cases z)
      case None
      then show ?thesis
        by (cases peer) (simp_all add: handle_proxy_def a Addrs send_header_panics)
    next
      case (Some cd)
      obtain c d where cd: "cd = (c, d)" by (cases cd)
      have "is_ipv4 c = is_ipv4 d" using accept_header_family a Addrs Some cd by blast
      then show ?thesis by (simp add: handle_proxy_def a Addrs Some cd send_header_panics)
    qed
  qed
qed

text \<open>
  What the handler does to the two streams. \<open>took_header\<close>: the header that was accepted is what the parser took of
  the bytes that were waiting, and exactly that is read off the client's stream. \<open>sent_header\<close>: the header that is
  sent is the encoding of the addresses that were forwarded, or else of the client's own.
\<close>

definition proxy_addrs :: "sock_addr io_result \<Rightarrow> (sock_addr \<times> sock_addr) option \<Rightarrow> (sock_addr \<times> sock_addr) io_result" where
  "proxy_addrs peer_addr addrs =
     (case addrs of Some cd \<Rightarrow> Inr cd | None \<Rightarrow> map_sum id (\<lambda>c. (c, unspecified c)) peer_addr)"

definition took_header ::
  "(bytes \<Rightarrow> string + proxy_header \<times> bytes) \<Rightarrow> proxy_opts \<Rightarrow> stream \<Rightarrow> (sock_addr \<times> sock_addr) option \<Rightarrow> stream \<Rightarrow> bool" where
  "took_header parse opts src addrs src1 \<longleftrightarrow>
     (if accept_proxy opts
      then \<exists>buf h rest. parse buf = Inr (h, rest) \<and> length buf \<le> 256 \<and> addrs = handle_header h \<and>
             rcvd src1 = rcvd src @ take (length buf - length rest) buf
      else addrs = None \<and> rcvd src1 = rcvd src) \<and> rd_frame src src1"

definition sent_header ::
  "(proxy_header \<Rightarrow> string + bytes) \<Rightarrow> sock_addr io_result \<Rightarrow> proxy_opts \<Rightarrow> (sock_addr \<times> sock_addr) option
     \<Rightarrow> stream \<Rightarrow> stream \<Rightarrow> bool" where
  "sent_header encode peer_addr opts addrs dst dst1 \<longleftrightarrow>
     (if send_proxy opts
      then \<exists>c d h bs. proxy_addrs peer_addr addrs = Inr (c, d) \<and> make_header c d (send_proxy_version opts) = Inr h \<and>
             encode h = Inr bs \<and> sent dst1 = sent dst @ bs
      else sent dst1 = sent dst) \<and> rcvd dst1 = rcvd dst \<and> (honest dst \<longrightarrow> honest dst1)"

definition proxied ::
  "(bytes \<Rightarrow> string + proxy_header \<times> bytes) \<Rightarrow> (proxy_header \<Rightarrow> string + bytes) \<Rightarrow> sock_addr io_result \<Rightarrow> proxy_opts
     \<Rightarrow> stream \<Rightarrow> stream \<Rightarrow> stream \<Rightarrow> stream \<Rightarrow> bool" where
  "proxied parse encode peer_addr opts src dst src1 dst1 \<longleftrightarrow>
     (\<exists>addrs. took_header parse opts src addrs src1 \<and> sent_header encode peer_addr opts addrs dst dst1)"

lemma tcp_peek_Ready:
  "tcp_peek n s = (Ready (Inr buf), s') \<Longrightarrow>
     rd_frame s s' \<and> rcvd s' = rcvd s \<and> (\<exists>bs es. rd_evs s' = RdData bs # es \<and> buf = take n bs)"
proof (induction n s rule: tcp_peek.induct)
  case (1 n s)
  show ?case
  proof (cases "\<exists>es. rd_evs s = RdPending # es")
    case True
    then obtain es where es: "rd_evs s = RdPending # es" by blast
    then have "tcp_peek n (s\<lparr>rd_evs := es\<rparr>) = (Ready (Inr buf), s')" using "1.prems" by (simp add: tcp_peek.simps [of n s])
    from "1.IH" [OF es refl this] show ?thesis by (simp add: rd_frame_def)
  next
    case False
    then show ?thesis using "1.prems" by (subst (asm) tcp_peek.simps) (auto split: list.splits rd_ev.splits)
  qed
qed

lemma read_exact_front:
  assumes "rd_evs s = RdData bs # es" "n \<le> length bs" "read_exact n s = (Ready (Inr xs), s')"
  shows "rcvd s' = rcvd s @ take n bs"
proof (cases "n = 0")
  case True
  then show ?thesis using assms(3) read_exact_Ready [OF assms(3)] by simp
next
  case False
  let ?t = "s\<lparr>rd_evs := (if drop n bs = [] then es else RdData (drop n bs) # es), rcvd := rcvd s @ take n bs\<rparr>"
  have "poll_read n s = (Ready (Inr (take n bs)), ?t)" using assms(1,2) False by (auto simp: poll_read_def)
  then have "read_exact n s = (Ready (Inr (take n bs)), ?t)"
    using assms(1,2) False by (auto simp: read_exact.simps [of n s] read_exact.simps [of 0])
  then show ?thesis using assms(3) by auto
qed

lemma accept_header_took:
  assumes "accept_header parse opts expired src = (r, src1)"
  shows "(r = Leave (Ready (Inr ())) \<longrightarrow> \<not> send_proxy opts \<and> (\<exists>addrs. took_header parse opts src addrs src1)) \<and>
    (\<forall>addrs. r = Addrs addrs \<longrightarrow> took_header parse opts src addrs src1 \<and> (accept_proxy opts \<longrightarrow> send_proxy opts))"
proof (cases "accept_proxy opts \<and> (r = Leave (Ready (Inr ())) \<or> (\<exists>addrs. r = Addrs addrs))")
  case False
  then show ?thesis using assms by (auto simp: accept_header_def took_header_def)
next
  case True
  then have ok: "accept_proxy opts" "r = Leave (Ready (Inr ())) \<or> (\<exists>addrs. r = Addrs addrs)" by simp_all
  obtain p s1 where p: "tcp_peek 256 src = (p, s1)" by (cases "tcp_peek 256 src")
  obtain buf h rest xs where b: "p = Ready (Inr buf)" "parse buf = Inr (h, rest)"
    "read_exact (length buf - length rest) s1 = (Ready (Inr xs), src1)"
    "r = (if send_proxy opts then Addrs (handle_header h) else Leave (Ready (Inr ())))"
    using assms ok p
    by (auto simp: accept_header_def with_timeout_def split: poll.splits sum.splits prod.splits if_splits)
  note pk = tcp_peek_Ready [OF p [unfolded b(1)]]
  then obtain bs es where e: "rd_evs s1 = RdData bs # es" "buf = take 256 bs" by blast
  have n: "length buf - length rest \<le> length bs" "take (length buf - length rest) bs = take (length buf - length rest) buf"
    using e(2) by (auto simp: min_def)
  have "rcvd src1 = rcvd src @ take (length buf - length rest) buf"
    using read_exact_front [OF e(1) n(1) b(3)] pk n(2) by simp
  moreover have "rd_frame src src1" using pk read_exact_rd_frame [OF b(3)] rd_frame_trans by blast
  moreover have "length buf \<le> 256" using e(2) by simp
  ultimately have "took_header parse opts src (handle_header h) src1"
    unfolding took_header_def using ok(1) b(2) by auto
  then show ?thesis using b(4) by auto
qed

lemma send_header_sent:
  assumes "send_header encode c d v src dst = Inr (Ready (Inr ()), src', dst')" "honest dst"
  shows "src' = src \<and> (\<exists>h bs. make_header c d v = Inr h \<and> encode h = Inr bs \<and> sent dst' = sent dst @ bs) \<and>
    rcvd dst' = rcvd dst \<and> honest dst'"
proof -
  obtain h bs where h: "make_header c d v = Inr h" "encode h = Inr bs" "write_all bs dst = (Ready (Inr ()), dst')" "src' = src"
    using assms(1) by (cases "make_header c d v"; cases "encode (projr (make_header c d v))")
      (auto simp: send_header_def split: prod.splits)
  then show ?thesis using write_all_Ready [OF h(3) assms(2)] by blast
qed

lemma handle_proxy_proxied:
  assumes "handle_proxy parse encode peer_addr opts expired src dst = Inr (Ready (Inr ()), src1, dst1)"
    and "proxy_enabled opts" "honest dst"
  shows "proxied parse encode peer_addr opts src dst src1 dst1"
proof -
  obtain r s where a: "accept_header parse opts expired src = (r, s)" by (cases "accept_header parse opts expired src")
  note took = accept_header_took [OF a]
  show ?thesis
  proof (cases r)
    case (Leave x)
    then have "x = Ready (Inr ()) \<and> src1 = s \<and> dst1 = dst" using assms(1) a by (simp add: handle_proxy_def)
    then show ?thesis using took Leave by (auto simp: proxied_def sent_header_def)
  next
    case (Addrs addrs)
    then have t: "took_header parse opts src addrs s" "send_proxy opts"
      using took assms(2) by (auto simp: proxy_enabled_def)
    obtain c d where cd: "proxy_addrs peer_addr addrs = Inr (c, d)"
      "send_header encode c d (send_proxy_version opts) s dst = Inr (Ready (Inr ()), src1, dst1)"
      using assms(1) a Addrs by (cases addrs; cases peer_addr) (auto simp: handle_proxy_def proxy_addrs_def)
    show ?thesis
      using send_header_sent [OF cd(2) assms(3)] t cd(1) by (auto simp: proxied_def sent_header_def)
  qed
qed

section \<open>Properties\<close>

text \<open>
  What the wire carries of an address: a version 6 address goes without its flow information and scope, which the receiver
  has as 0.
\<close>

fun wire_sock :: "sock_addr \<Rightarrow> sock_addr" where
  "wire_sock (SockV4 a p) = SockV4 a p"
| "wire_sock (SockV6 a p f sc) = SockV6 a p 0 0"

fun wire_sin6 :: "sin6 \<Rightarrow> sin6" where
  "wire_sin6 (a, p, f, sc) = (a, p, 0, 0)"

fun wire_header :: "proxy_header \<Rightarrow> proxy_header" where
  "wire_header (Version1 (V1Ipv6 s d)) = Version1 (V1Ipv6 (wire_sin6 s) (wire_sin6 d))"
| "wire_header (Version2 cmd proto (V2Ipv6 s d)) = Version2 cmd proto (V2Ipv6 (wire_sin6 s) (wire_sin6 d))"
| "wire_header h = h"

lemma make_header_wire:
  assumes "make_header c d v = Inr h"
  shows "handle_header (wire_header h) = Some (wire_sock c, wire_sock d)"
proof -
  have "v = 1 \<or> v = 2" using assms make_header_panics [of v c d] by auto
  then show ?thesis using assms
    by (cases c; cases d) (auto simp: make_header_def make_header_v1_def make_header_v2_def handle_header_v2_def)
qed

text \<open>
  C31: What one relay sends the next understands. The codec is a parameter; the law that is asked of it is the one of the wire
  format: what it encodes of a header that the code makes, followed by anything, it parses as that header, without flow
  information and scope. Then a relay that accepts such a header, of at most 256 bytes and arrived in one piece,
  before the timeout if one is set, takes exactly its bytes from the client, and if it sends one
  itself, that carries the same two addresses, of the first relay's client and server.
\<close>
theorem proxy_chain:
  assumes codec: "\<And>c d v h bs rest. make_header c d v = Inr h \<Longrightarrow> encode h = Inr bs \<Longrightarrow> parse (bs @ rest) = Inr (wire_header h, rest)"
    and header: "make_header c d v = Inr h" "encode h = Inr bs" "length bs \<le> 256" "bs \<noteq> []"
    and arrived: "rd_evs src = RdData (bs @ rest) # es"
    and opts: "accept_proxy opts" "\<not> expired \<or> accept_proxy_timeout opts = 0"
  shows "\<exists>src'. rcvd src' = rcvd src @ bs \<and> incoming src' = rest @ concat (map ev_data es) \<and>
    handle_proxy parse encode peer opts expired src dst =
      (if send_proxy opts then send_header encode (wire_sock c) (wire_sock d) (send_proxy_version opts) src' dst
       else Inr (Ready (Inr ()), src', dst))"
proof -
  have h: "handle_header (wire_header h) = Some (wire_sock c, wire_sock d)" by (rule make_header_wire [OF header(1)])
  have "take 256 (bs @ rest) = bs @ take (256 - length bs) rest" using header(3) by simp
  then have "parse (take 256 (bs @ rest)) = Inr (wire_header h, drop (length bs) (take 256 (bs @ rest)))"
    using codec [OF header(1,2)] by simp
  from accept_header_whole [of opts expired src bs rest es parse "wire_header h"] this
  show ?thesis using arrived header(3,4) opts by (auto simp: handle_proxy_def h)
qed

text \<open>
  A codec for which it holds: the binary format of version 2, with its signature, for connections over TCP.
\<close>

fun nat_bytes :: "nat \<Rightarrow> nat \<Rightarrow> bytes" where
  "nat_bytes 0 k = []"
| "nat_bytes (Suc n) k = nat_bytes n (k div 256) @ [of_nat k]"

definition bytes_nat :: "bytes \<Rightarrow> nat" where
  "bytes_nat bs = foldl (\<lambda>k b. k * 256 + unat b) 0 bs"

lemma length_nat_bytes [simp]: "length (nat_bytes n k) = n"
  by (induction n arbitrary: k) simp_all

lemma bytes_nat_bytes: "bytes_nat (nat_bytes n k) = k mod 256 ^ n"
proof (induction n arbitrary: k)
  case (Suc n)
  have "bytes_nat (nat_bytes (Suc n) k) = bytes_nat (nat_bytes n (k div 256)) * 256 + k mod 256"
    by (simp add: bytes_nat_def unat_of_nat)
  then show ?case using Suc [of "k div 256"] mod_mult2_eq [of k 256 "256 ^ n"] by simp
qed (simp add: bytes_nat_def)

lemma word_nat_bytes:
  "of_nat (bytes_nat (nat_bytes 2 (unat (p :: u16)))) = p" "of_nat (bytes_nat (nat_bytes 4 (unat (a :: u32)))) = a"
  "of_nat (bytes_nat (nat_bytes 16 (unat (x :: 128 word)))) = x"
proof -
  have "unat p < 256 ^ 2" using unsigned_less [of p] by simp
  then show "of_nat (bytes_nat (nat_bytes 2 (unat p))) = p" by (simp add: bytes_nat_bytes del: power2_eq_square)
  have "unat a < 256 ^ 4" using unsigned_less [of a] by simp
  then show "of_nat (bytes_nat (nat_bytes 4 (unat a))) = a" by (simp add: bytes_nat_bytes)
  have "unat x < 256 ^ 16" using unsigned_less [of x] by simp
  then show "of_nat (bytes_nat (nat_bytes 16 (unat x))) = x" by (simp add: bytes_nat_bytes)
qed

definition v2_signature :: bytes where
  "v2_signature = [0x0D, 0x0A, 0x0D, 0x0A, 0x00, 0x0D, 0x0A, 0x51, 0x55, 0x49, 0x54, 0x0A]"

fun v2_encode :: "proxy_header \<Rightarrow> string + bytes" where
  "v2_encode (Version2 CmdProxy ProtoStream (V2Ipv4 (a, p) (b, q))) =
     Inr (v2_signature @ [0x21, 0x11, 0, 12] @ nat_bytes 4 (unat a) @ nat_bytes 4 (unat b) @ nat_bytes 2 (unat p) @ nat_bytes 2 (unat q))"
| "v2_encode (Version2 CmdProxy ProtoStream (V2Ipv6 (a, p, f, s) (b, q, g, t))) =
     Inr (v2_signature @ [0x21, 0x21, 0, 36] @ nat_bytes 16 (unat a) @ nat_bytes 16 (unat b) @ nat_bytes 2 (unat p) @ nat_bytes 2 (unat q))"
| "v2_encode h = Inl ''unsupported''"

definition v2_field :: "nat \<Rightarrow> nat \<Rightarrow> bytes \<Rightarrow> nat" where
  "v2_field i n bs = bytes_nat (take n (drop i bs))"

definition v2_parse :: "bytes \<Rightarrow> string + proxy_header \<times> bytes" where
  "v2_parse bs =
     (if take 16 bs = v2_signature @ [0x21, 0x11, 0, 12] \<and> 28 \<le> length bs
      then Inr (Version2 CmdProxy ProtoStream
        (V2Ipv4 (of_nat (v2_field 16 4 bs), of_nat (v2_field 24 2 bs)) (of_nat (v2_field 20 4 bs), of_nat (v2_field 26 2 bs))), drop 28 bs)
      else if take 16 bs = v2_signature @ [0x21, 0x21, 0, 36] \<and> 52 \<le> length bs
      then Inr (Version2 CmdProxy ProtoStream
        (V2Ipv6 (of_nat (v2_field 16 16 bs), of_nat (v2_field 48 2 bs), 0, 0)
                (of_nat (v2_field 32 16 bs), of_nat (v2_field 50 2 bs), 0, 0)), drop 52 bs)
      else Inl ''invalid'')"

lemma v2_field_skip: "length xs \<le> i \<Longrightarrow> v2_field i n (xs @ ys) = v2_field (i - length xs) n ys"
  by (simp add: v2_field_def)

lemma v2_field_here: "v2_field 0 n (nat_bytes n k @ ys) = bytes_nat (nat_bytes n k)"
  by (simp add: v2_field_def)

lemma length_v2_signature: "length v2_signature = 12"
  by (simp add: v2_signature_def)

lemma v2_codec: "v2_encode h = Inr bs \<Longrightarrow> v2_parse (bs @ rest) = Inr (wire_header h, rest)"
proof (induction h rule: v2_encode.induct)
  case (1 a p b q)
  let ?sig = "v2_signature @ [0x21, 0x11, 0, 12]"
  have bs: "bs @ rest = ?sig @ nat_bytes 4 (unat a) @ nat_bytes 4 (unat b) @ nat_bytes 2 (unat p) @ nat_bytes 2 (unat q) @ rest"
    using 1 by auto
  have l: "length ?sig = 16" by (simp add: length_v2_signature)
  have "v2_field 16 4 (bs @ rest) = bytes_nat (nat_bytes 4 (unat a))" "v2_field 20 4 (bs @ rest) = bytes_nat (nat_bytes 4 (unat b))"
    "v2_field 24 2 (bs @ rest) = bytes_nat (nat_bytes 2 (unat p))" "v2_field 26 2 (bs @ rest) = bytes_nat (nat_bytes 2 (unat q))"
    unfolding bs by (simp_all only: v2_field_skip v2_field_here length_nat_bytes l) (simp_all add: v2_field_skip v2_field_here)
  moreover have "take 16 (bs @ rest) = ?sig" "drop 28 (bs @ rest) = rest" "28 \<le> length (bs @ rest)"
    unfolding bs by (simp_all add: length_v2_signature)
  ultimately show ?case by (simp add: v2_parse_def word_nat_bytes)
next
  case (2 a p f s b q g t)
  let ?sig = "v2_signature @ [0x21, 0x21, 0, 36]"
  have bs: "bs @ rest = ?sig @ nat_bytes 16 (unat a) @ nat_bytes 16 (unat b) @ nat_bytes 2 (unat p) @ nat_bytes 2 (unat q) @ rest"
    using 2 by auto
  have l: "length ?sig = 16" by (simp add: length_v2_signature)
  have "v2_field 16 16 (bs @ rest) = bytes_nat (nat_bytes 16 (unat a))" "v2_field 32 16 (bs @ rest) = bytes_nat (nat_bytes 16 (unat b))"
    "v2_field 48 2 (bs @ rest) = bytes_nat (nat_bytes 2 (unat p))" "v2_field 50 2 (bs @ rest) = bytes_nat (nat_bytes 2 (unat q))"
    unfolding bs by (simp_all only: v2_field_skip v2_field_here length_nat_bytes l) (simp_all add: v2_field_skip v2_field_here)
  moreover have "take 16 (bs @ rest) = ?sig" "drop 52 (bs @ rest) = rest" "52 \<le> length (bs @ rest)"
    unfolding bs by (simp_all add: length_v2_signature)
  ultimately show ?case by (simp add: v2_parse_def word_nat_bytes)
qed simp_all

text \<open>A relay that accepts the header of a version 6 client and sends it on.\<close>

definition hop_client :: sock_addr where "hop_client = SockV6 1 443 7 5"
definition hop_server :: sock_addr where "hop_server = SockV6 2 80 0 0"

definition hop_header :: bytes where
  "hop_header = projr (v2_encode (projr (make_header hop_client hop_server 2)))"

definition hop_stream :: "bytes \<Rightarrow> stream" where
  "hop_stream bs = \<lparr>rd_evs = [RdData bs], wr_evs = [WrAccept 64], fl_evs = [], sd_evs = [], rcvd = [],
     sent = [], flushed = 0, shut = False\<rparr>"

theorem proxy_chain_witness:
  "\<exists>src' dst'. handle_proxy v2_parse v2_encode (Inl TimedOut)
       \<lparr>send_proxy = True, accept_proxy = True, send_proxy_version = 2, accept_proxy_timeout = 5\<rparr> False
       (hop_stream (hop_header @ [9])) (hop_stream [])
     = Inr (Ready (Inr ()), src', dst') \<and> rcvd src' = hop_header \<and> incoming src' = [9] \<and>
     sent dst' = hop_header \<and> length hop_header = 52"
proof -
  let ?o = "\<lparr>send_proxy = True, accept_proxy = True, send_proxy_version = 2, accept_proxy_timeout = 5\<rparr>"
  let ?h = "Version2 CmdProxy ProtoStream (V2Ipv6 (1, 443, 7, 5) (2, 80, 0, 0))"
  let ?w = "Version2 CmdProxy ProtoStream (V2Ipv6 (1, 443, 0, 0) (2, 80, 0, 0))"
  have m: "make_header hop_client hop_server 2 = Inr ?h" "make_header (wire_sock hop_client) (wire_sock hop_server) 2 = Inr ?w"
    by (simp_all add: make_header_def make_header_v2_def hop_client_def hop_server_def)
  have hh: "hop_header = projr (v2_encode ?h)" by (simp add: hop_header_def m)
  have e: "v2_encode ?h = Inr hop_header" "v2_encode ?w = Inr hop_header" "length hop_header = 52"
    unfolding hh by (simp_all add: length_v2_signature)
  have ne: "hop_header \<noteq> []" "length hop_header \<le> 256" using e(3) by auto
  have a: "rd_evs (hop_stream (hop_header @ [9])) = RdData (hop_header @ [9]) # []" by (simp add: hop_stream_def)
  have o: "accept_proxy ?o" "\<not> False \<or> accept_proxy_timeout ?o = 0" by simp_all
  from proxy_chain [of v2_encode v2_parse, OF v2_codec m(1) e(1) ne(2,1) a o, of "Inl TimedOut" "hop_stream []"]
  obtain src' where src': "rcvd src' = hop_header" "incoming src' = [9]"
    "handle_proxy v2_parse v2_encode (Inl TimedOut) ?o False (hop_stream (hop_header @ [9])) (hop_stream [])
      = send_header v2_encode (wire_sock hop_client) (wire_sock hop_server) 2 src' (hop_stream [])"
    by (auto simp: hop_stream_def)
  have "write_all hop_header (hop_stream []) = (Ready (Inr ()), (hop_stream [])\<lparr>wr_evs := [], sent := hop_header\<rparr>)"
    using ne(1) e(3) by (simp add: hop_stream_def write_all.simps poll_write_def)
  then have "send_header v2_encode (wire_sock hop_client) (wire_sock hop_server) 2 src' (hop_stream [])
      = Inr (Ready (Inr ()), src', (hop_stream [])\<lparr>wr_evs := [], sent := hop_header\<rparr>)"
    by (simp add: send_header_def m(2) e(2) del: v2_encode.simps)
  with src' e(3) show ?thesis by auto
qed

text \<open>A codec of two bytes, for examples of whole connections.\<close>

definition demo_header :: proxy_header where
  "demo_header = Version1 (V1Ipv4 (1, 2) (3, 4))"

definition demo_encode :: "proxy_header \<Rightarrow> string + bytes" where
  "demo_encode h = (if h = demo_header then Inr [7, 8] else Inl ''unsupported'')"

definition demo_parse :: "bytes \<Rightarrow> string + proxy_header \<times> bytes" where
  "demo_parse bs = (if take 2 bs = [7, 8] then Inr (demo_header, drop 2 bs) else Inl ''invalid'')"

text \<open>
  When the proxy handler panics: exactly when it gets as far as writing a header and the configured
  version is neither 1 nor 2. The other \<open>unreachable!\<close> branches, on mixed address families, are never taken.
\<close>
lemma proxy_panics_iff:
  "(\<exists>e. handle_proxy parse encode peer opts expired src dst = Inl e) =
   ((case accept_header parse opts expired src of
       (Leave _, _) \<Rightarrow> False
     | (Addrs (Some _), _) \<Rightarrow> True
     | (Addrs None, _) \<Rightarrow> (\<exists>a. peer = Inr a)) \<and> send_proxy_version opts \<notin> {1, 2})"
  by (rule handle_proxy_panics)

end
