(* ===== verification/Balance_Trait.thy ===== *)
theory Balance_Trait
  imports Relay_Prelude
begin

text \<open>
  The load-balancing interface (\<^verbatim>\<open>hoorayhug_lb/src/lib.rs\<close>): a peer token, and the
  contract of the \<^verbatim>\<open>Balance\<close> trait as a locale. A balancer is a state with an invariant
  of its own; \<open>bnext\<close> is one call of \<^verbatim>\<open>next\<close> with its argument and the state threaded
  through (the round robin mutates its nodes behind a mutex). What a client relies on is
  that every call yields a token, that the token names one of the peers, and that a call
  keeps the invariant and the number of peers.
\<close>

datatype token = Token u8

fun token_val :: "token \<Rightarrow> u8" where
  "token_val (Token t) = t"

definition peer_bound :: "u8 \<Rightarrow> nat" where
  "peer_bound n = max 1 (unat n)"

lemma peer_bound_pos [simp]: "0 < peer_bound n"
  by (simp add: peer_bound_def)

locale balance =
  fixes binv :: "'b \<Rightarrow> bool"
    and btotal :: "'b \<Rightarrow> u8"
    and bnext :: "'st \<Rightarrow> 'b \<Rightarrow> token option \<times> 'b"
  assumes next_token: "binv b \<Longrightarrow> bnext st b = (r, b') \<Longrightarrow>
      \<exists>t. r = Some (Token t) \<and> unat t < peer_bound (btotal b)"
    and next_inv: "binv b \<Longrightarrow> bnext st b = (r, b') \<Longrightarrow> binv b'"
    and next_total: "binv b \<Longrightarrow> bnext st b = (r, b') \<Longrightarrow> btotal b' = btotal b"
begin

text \<open>A sequence of calls, one per connection, threading the balancer's state.\<close>

primrec calls :: "'st list \<Rightarrow> 'b \<Rightarrow> token option list \<times> 'b" where
  "calls [] b = ([], b)"
| "calls (st # sts) b =
     (let (r, b') = bnext st b; (rs, b'') = calls sts b' in (r # rs, b''))"

lemma calls_keep:
  "binv b \<Longrightarrow> calls sts b = (rs, b') \<Longrightarrow> binv b' \<and> btotal b' = btotal b \<and> length rs = length sts"
proof (induction sts arbitrary: b b' rs)
  case Nil
  then show ?case by simp
next
  case (Cons st sts)
  obtain r c where n: "bnext st b = (r, c)" by (cases "bnext st b")
  obtain ss d where m: "calls sts c = (ss, d)" by (cases "calls sts c")
  from Cons.prems n m have eqs: "rs = r # ss" "b' = d" by simp_all
  have "binv c" "btotal c = btotal b"
    using next_inv [OF Cons.prems(1) n] next_total [OF Cons.prems(1) n] by simp_all
  with Cons.IH [OF \<open>binv c\<close> m] eqs show ?case by simp
qed

lemma calls_tokens:
  "binv b \<Longrightarrow> calls sts b = (rs, b') \<Longrightarrow> r \<in> set rs \<Longrightarrow>
     \<exists>t. r = Some (Token t) \<and> unat t < peer_bound (btotal b)"
proof (induction sts arbitrary: b b' rs)
  case Nil
  then show ?case by simp
next
  case (Cons st sts)
  obtain r0 c where n: "bnext st b = (r0, c)" by (cases "bnext st b")
  obtain ss d where m: "calls sts c = (ss, d)" by (cases "calls sts c")
  from Cons.prems(2) n m have rs: "rs = r0 # ss" "b' = d" by simp_all
  have "binv c" "btotal c = btotal b"
    using next_inv [OF Cons.prems(1) n] next_total [OF Cons.prems(1) n] by simp_all
  with Cons.IH [OF \<open>binv c\<close>] m rs next_token [OF Cons.prems(1) n] Cons.prems(3)
  show ?case by auto
qed

end

end
