(* ===== verification/Ip_Hash.thy ===== *)
theory Ip_Hash
  imports Balance_Trait Net_Addr
begin

text \<open>
  The IP-hash balancer of \<^verbatim>\<open>hoorayhug_lb/src/ip_hash.rs\<close>: the \<^verbatim>\<open>chash\<close> functions on 32-bit
  words, the replica ratio, the ring of virtual nodes and the lookup by binary search.
  \<^verbatim>\<open>unchecked_add\<close> and \<^verbatim>\<open>unchecked_mul\<close> compile to the plain wrapping instructions, which is
  what \<open>c_add\<close> and \<open>c_mul\<close> compute; the condition under which \<^verbatim>\<open>unchecked_mul\<close> is defined at all is
  \<open>c_mul_defined\<close>. \<^verbatim>\<open>sort_unstable_by_key\<close> leaves the order of equal keys open, so the sorting
  function is a parameter with the contract \<open>unstable_sort\<close>.
\<close>

section \<open>The hash functions\<close>

definition chash_SEED :: u32 where "chash_SEED = 0xbc9f1d34"
definition chash_M :: u32 where "chash_M = 0xc6a4a793"

definition c_add :: "u32 \<Rightarrow> u32 \<Rightarrow> u32" where "c_add a b = a + b"
definition c_mul :: "u32 \<Rightarrow> u32 \<Rightarrow> u32" where "c_mul a b = a * b"

definition c_mul_defined :: "u32 \<Rightarrow> u32 \<Rightarrow> bool" where
  "c_mul_defined a b \<longleftrightarrow> unat a * unat b < 2 ^ 32"

definition le_word :: "u8 \<Rightarrow> u8 \<Rightarrow> u8 \<Rightarrow> u8 \<Rightarrow> u32" where
  "le_word b0 b1 b2 b3 = ucast b0 OR push_bit 8 (ucast b1) OR push_bit 16 (ucast b2) OR push_bit 24 (ucast b3)"

definition chash_mix :: "u32 \<Rightarrow> u32 \<Rightarrow> u32" where
  "chash_mix h w = (let h1 = c_mul (c_add h w) chash_M in h1 XOR drop_bit 16 h1)"

fun chash_loop :: "bytes \<Rightarrow> u32 \<Rightarrow> u32 \<times> bytes" where
  "chash_loop (b0 # b1 # b2 # b3 # bs) h = chash_loop bs (chash_mix h (le_word b0 b1 b2 b3))"
| "chash_loop bs h = (h, bs)"

definition chash_tail :: "u32 \<Rightarrow> bytes \<Rightarrow> u32" where
  "chash_tail h b =
     (let (h, len) = (if length b = 3 then (c_add h (push_bit 16 (ucast (b ! 2))), 2) else (h, length b));
          (h, len) = (if len = 2 then (c_add h (push_bit 8 (ucast (b ! 1))), 1) else (h, len))
      in if len = 1
         then let h1 = c_mul (c_add h (ucast (b ! 0))) chash_M in h1 XOR drop_bit 24 h1
         else h)"

definition chash :: "bytes \<Rightarrow> u32" where
  "chash buf = (let (h, b) = chash_loop buf (chash_SEED XOR c_mul (of_nat (length buf)) chash_M) in chash_tail h b)"

text \<open>
  \<^verbatim>\<open>align_to::<u32>\<close>: only the part of the buffer that starts at an address divisible by four is
  seen as words. \<open>addr\<close> is the buffer's address; the octets are a byte array, whose alignment is 1.
  \<^verbatim>\<open>to_le\<close> makes each word the little-endian value of its four bytes on every target.
\<close>

fun le_words :: "bytes \<Rightarrow> u32 list" where
  "le_words (b0 # b1 # b2 # b3 # bs) = le_word b0 b1 b2 b3 # le_words bs"
| "le_words bs = []"

definition align_to_u32 :: "nat \<Rightarrow> bytes \<Rightarrow> u32 list" where
  "align_to_u32 addr buf = le_words (drop ((4 - addr mod 4) mod 4) buf)"

definition chash_for_ip :: "nat \<Rightarrow> bytes \<Rightarrow> u32" where
  "chash_for_ip addr buf =
     foldl chash_mix (chash_SEED XOR c_mul (of_nat (length buf)) chash_M) (align_to_u32 addr buf)"

section \<open>Replicas and the ring\<close>

text \<open>
  \<^verbatim>\<open>f64::ceil(128 / max) as u8\<close>: for \<open>1 \<le> max < 128\<close> the exact quotient is an integer or at least
  1/127 away from one, so the rounded division has the same ceiling; for \<open>max = 0\<close> the quotient is
  infinite and the cast saturates at 255.
\<close>

definition replica_ratio :: "u8 list \<Rightarrow> u8 checked" where
  "replica_ratio weights =
     (if weights = [] then Inl (Panic ''called Option::unwrap() on a None value'')
      else let m = unat (foldl max 0 weights)
           in Inr (if m \<ge> 128 then 1 else if m = 0 then 255 else of_nat ((128 + m - 1) div m)))"

record ip_node =
  in_hash :: u32
  in_token :: token

record ip_hash =
  ih_nodes :: "ip_node list"
  ih_total :: u8

definition vnode_hash :: "nat \<Rightarrow> u32" where
  "vnode_hash vidx = chash (str_bytes (show_nat vidx @ '' 114514''))"

definition ring_nodes :: "nat \<Rightarrow> u8 list \<Rightarrow> ip_node list" where
  "ring_nodes ratio weights =
     concat (map (\<lambda>(n, w). map (\<lambda>vidx. \<lparr>in_hash = vnode_hash vidx, in_token = Token (of_nat n)\<rparr>)
                              [0..<Suc (unat w * ratio)])
                 (enumerate 0 weights))"

definition iphash_new :: "(ip_node list \<Rightarrow> ip_node list) \<Rightarrow> u8 list \<Rightarrow> ip_hash checked" where
  "iphash_new sort_unstable weights =
     (if length weights > 255 then Inl (Panic ''assertion failed: weights.len() <= u8::MAX'')
      else if length weights \<le> 1
      then Inr \<lparr>ih_nodes = [], ih_total = of_nat (length weights)\<rparr>
      else bind_sum (replica_ratio weights) (\<lambda>ratio.
             Inr \<lparr>ih_nodes = sort_unstable (ring_nodes (unat ratio) weights),
                  ih_total = of_nat (length weights)\<rparr>))"

locale unstable_sort =
  fixes sort_unstable :: "ip_node list \<Rightarrow> ip_node list"
  assumes sort_perm: "mset (sort_unstable xs) = mset xs"
    and sort_sorted: "sorted (map in_hash (sort_unstable xs))"
begin

lemma sort_set: "set (sort_unstable xs) = set xs"
  by (metis sort_perm set_mset_mset)

lemma sort_length: "length (sort_unstable xs) = length xs"
  by (metis sort_perm size_mset)

end

interpretation stable_sort: unstable_sort "sort_key in_hash"
  by unfold_locales simp_all

section \<open>Binary search\<close>

text \<open>
  \<^verbatim>\<open>slice::binary_search_by_key\<close> as the standard library has it: the loop halves the window without
  an early exit, so on equal keys it ends at the last one it can reach.
\<close>

datatype search = Found nat | Missing nat

function bs_loop :: "u32 list \<Rightarrow> u32 \<Rightarrow> nat \<Rightarrow> nat \<Rightarrow> nat" where
  "bs_loop keys key base sz =
     (if sz > 1
      then let half = sz div 2; mid = base + half
           in bs_loop keys key (if key < keys ! mid then base else mid) (sz - half)
      else base)"
  by pat_completeness auto
termination
  by (relation "measure (\<lambda>(keys, key, base, sz). sz)") auto

declare bs_loop.simps [simp del]

definition binary_search :: "u32 list \<Rightarrow> u32 \<Rightarrow> search" where
  "binary_search keys key =
     (if keys = [] then Missing 0
      else let base = bs_loop keys key 0 (length keys)
           in if keys ! base = key then Found base
              else Missing (if keys ! base < key then base + 1 else base))"

locale searcher =
  fixes bsearch :: "u32 list \<Rightarrow> u32 \<Rightarrow> search"
  assumes found: "sorted keys \<Longrightarrow> bsearch keys key = Found i \<Longrightarrow> i < length keys \<and> keys ! i = key"
    and missing: "sorted keys \<Longrightarrow> bsearch keys key = Missing i \<Longrightarrow>
      i \<le> length keys \<and> (\<forall>j<i. keys ! j < key) \<and> (\<forall>j<length keys. i \<le> j \<longrightarrow> key < keys ! j)"
begin

text \<open>The index the ring lookup uses: wrap around at the end.\<close>

definition ring_index :: "u32 list \<Rightarrow> u32 \<Rightarrow> nat" where
  "ring_index keys key =
     (case bsearch keys key of Found i \<Rightarrow> i | Missing i \<Rightarrow> if i \<ge> length keys then 0 else i)"

lemma ring_index_bound: "sorted keys \<Longrightarrow> keys \<noteq> [] \<Longrightarrow> ring_index keys key < length keys"
  using found missing by (auto simp: ring_index_def split: search.splits)

lemma ring_index_successor:
  assumes "sorted keys" "keys \<noteq> []"
  shows "(key \<le> keys ! ring_index keys key \<and> (\<forall>k\<in>set keys. key \<le> k \<longrightarrow> keys ! ring_index keys key \<le> k))
       \<or> ((\<forall>k\<in>set keys. k < key) \<and> (\<forall>k\<in>set keys. keys ! ring_index keys key \<le> k))"
proof (cases "bsearch keys key")
  case (Found i)
  with found [OF assms(1)] show ?thesis by (simp add: ring_index_def)
next
  case (Missing i)
  note m = missing [OF assms(1) Missing]
  show ?thesis
  proof (cases "i \<ge> length keys")
    case True
    have "\<forall>k\<in>set keys. keys ! 0 \<le> k"
      using assms by (cases keys) auto
    moreover have "\<forall>k\<in>set keys. k < key"
    proof
      fix k assume "k \<in> set keys"
      then obtain j where "j < length keys" "k = keys ! j" by (metis in_set_conv_nth)
      then show "k < key" using m True by simp
    qed
    ultimately show ?thesis using Missing True by (simp add: ring_index_def)
  next
    case False
    have "keys ! i \<le> k" if kin: "k \<in> set keys" and ge: "key \<le> k" for k
    proof -
      obtain j where j: "j < length keys" "k = keys ! j" using kin by (metis in_set_conv_nth)
      have "i \<le> j"
      proof (rule ccontr)
        assume "\<not> i \<le> j"
        then have "keys ! j < key" using m by simp
        with ge j(2) show False by simp
      qed
      from sorted_nth_mono [OF assms(1) this j(1)] j(2) show ?thesis by simp
    qed
    moreover have "key \<le> keys ! i" using m False by (simp add: order_less_imp_le)
    ultimately show ?thesis using Missing False by (simp add: ring_index_def)
  qed
qed

end

lemma bs_loop_inv:
  assumes "sorted keys" "1 \<le> sz" "base + sz \<le> length keys" "base = 0 \<or> keys ! base \<le> key"
    "\<forall>j<length keys. base + sz \<le> j \<longrightarrow> key < keys ! j"
  shows "bs_loop keys key base sz < length keys \<and>
    (bs_loop keys key base sz = 0 \<or> keys ! bs_loop keys key base sz \<le> key) \<and>
    (\<forall>j<length keys. bs_loop keys key base sz < j \<longrightarrow> key < keys ! j)"
  using assms
proof (induction keys key base sz rule: bs_loop.induct)
  case (1 keys key base sz)
  show ?case
  proof (cases "sz > 1")
    case False
    then have eq: "bs_loop keys key base sz = base" by (subst bs_loop.simps) simp
    show ?thesis using "1.prems" False unfolding eq by (auto simp: Suc_le_eq)
  next
    case True
    define mid where "mid = base + sz div 2"
    define base' where "base' = (if key < keys ! mid then base else mid)"
    have eq: "bs_loop keys key base sz = bs_loop keys key base' (sz - sz div 2)"
      using True by (subst bs_loop.simps) (simp add: Let_def base'_def mid_def)
    have mid: "mid < length keys" using "1.prems" True by (simp add: mid_def)
    have up: "\<forall>j<length keys. base' + (sz - sz div 2) \<le> j \<longrightarrow> key < keys ! j"
    proof (cases "key < keys ! mid")
      case True
      have "key < keys ! j" if "j < length keys" "base + (sz - sz div 2) \<le> j" for j
      proof -
        have "mid \<le> j" using that by (simp add: mid_def)
        then have "keys ! mid \<le> keys ! j" using sorted_nth_mono [OF "1.prems"(1) _ that(1)] by simp
        with True show ?thesis by (rule less_le_trans)
      qed
      with True show ?thesis by (simp add: base'_def)
    next
      case False
      with "1.prems"(5) show ?thesis by (simp add: base'_def mid_def)
    qed
    have b0: "base' = 0 \<or> keys ! base' \<le> key" using "1.prems"(4) by (auto simp: base'_def)
    have s1: "1 \<le> sz - sz div 2" using True by simp
    have s2: "base' + (sz - sz div 2) \<le> length keys"
    proof -
      have "base' \<le> base + sz div 2" by (simp add: base'_def mid_def)
      then show ?thesis using "1.prems"(3) by linarith
    qed
    show ?thesis
      unfolding eq
      using "1.IH" [OF True refl refl, folded mid_def, folded base'_def, OF "1.prems"(1) s1 s2 b0 up] .
  qed
qed

interpretation bs: searcher binary_search
proof
  fix keys :: "u32 list" and key i
  assume s: "sorted keys"
  let ?b = "bs_loop keys key 0 (length keys)"
  have inv: "?b < length keys \<and> (?b = 0 \<or> keys ! ?b \<le> key) \<and> (\<forall>j<length keys. ?b < j \<longrightarrow> key < keys ! j)"
    if "keys \<noteq> []" using bs_loop_inv [OF s, of "length keys" 0 key] that by (cases keys) auto
  show "i < length keys \<and> keys ! i = key" if "binary_search keys key = Found i"
    using that inv by (auto simp: binary_search_def Let_def split: if_splits)
  show "i \<le> length keys \<and> (\<forall>j<i. keys ! j < key) \<and> (\<forall>j<length keys. i \<le> j \<longrightarrow> key < keys ! j)"
    if m: "binary_search keys key = Missing i"
  proof (cases "keys = []")
    case True
    with m show ?thesis by (simp add: binary_search_def)
  next
    case False
    note inv = inv [OF False]
    show ?thesis
    proof (cases "keys ! ?b < key")
      case True
      then have i: "i = ?b + 1" using m False by (simp add: binary_search_def Let_def split: if_splits)
      have "keys ! j < key" if "j < i" for j
      proof -
        have "keys ! j \<le> keys ! ?b" using that inv by (intro sorted_nth_mono [OF s]) (simp_all add: i)
        then show ?thesis using True by (rule le_less_trans)
      qed
      with inv show ?thesis by (auto simp: i)
    next
      case False': False
      then have i: "i = ?b" and ne: "keys ! ?b \<noteq> key"
        using m False by (simp_all add: binary_search_def Let_def split: if_splits)
      have b: "?b = 0" using inv False' ne by (metis order_le_less)
      have "key < keys ! 0" using False' ne b by simp
      moreover have "key < keys ! j" if "j < length keys" "0 < j" for j using inv that b by simp
      ultimately show ?thesis using inv by (auto simp: i b)
    qed
  qed
qed

section \<open>The balancer\<close>

definition iphash_next :: "nat \<Rightarrow> ip_addr \<Rightarrow> ip_hash \<Rightarrow> token option" where
  "iphash_next addr ip ih =
     (if ih_total ih \<le> 1 then Some (Token 0)
      else let hash = chash_for_ip addr (octets ip);
               keys = map in_hash (ih_nodes ih);
               idx = (case binary_search keys hash of
                        Found idx \<Rightarrow> idx
                      | Missing idx \<Rightarrow> if idx \<ge> length (ih_nodes ih) then 0 else idx)
           in Some (in_token (ih_nodes ih ! idx)))"

definition iphash_inv :: "ip_hash \<Rightarrow> bool" where
  "iphash_inv ih \<longleftrightarrow> ih_total ih \<le> 1 \<or>
     (ih_nodes ih \<noteq> [] \<and> sorted (map in_hash (ih_nodes ih)) \<and>
      (\<forall>p\<in>set (ih_nodes ih). unat (token_val (in_token p)) < unat (ih_total ih)))"

lemma iphash_next_ring:
  "iphash_next addr ip ih =
     (if ih_total ih \<le> 1 then Some (Token 0)
      else Some (in_token (ih_nodes ih ! bs.ring_index (map in_hash (ih_nodes ih)) (chash_for_ip addr (octets ip)))))"
  by (simp add: iphash_next_def bs.ring_index_def Let_def split: search.split)

lemma iphash_next_node:
  assumes "iphash_inv ih" "\<not> ih_total ih \<le> 1"
  obtains p where "p \<in> set (ih_nodes ih)" "iphash_next addr ip ih = Some (in_token p)"
    "p = ih_nodes ih ! bs.ring_index (map in_hash (ih_nodes ih)) (chash_for_ip addr (octets ip))"
proof -
  let ?i = "bs.ring_index (map in_hash (ih_nodes ih)) (chash_for_ip addr (octets ip))"
  have "?i < length (map in_hash (ih_nodes ih))"
    using assms by (intro bs.ring_index_bound) (simp_all add: iphash_inv_def)
  then show ?thesis using assms(2) by (intro that [of "ih_nodes ih ! ?i"]) (simp_all add: iphash_next_ring)
qed

lemma iphash_next_contract:
  assumes "iphash_inv ih"
  shows "\<exists>t. iphash_next addr ip ih = Some (Token t) \<and> unat t < peer_bound (ih_total ih)"
proof (cases "ih_total ih \<le> 1")
  case True
  then show ?thesis by (simp add: iphash_next_def peer_bound_def)
next
  case False
  obtain p where p: "p \<in> set (ih_nodes ih)" "iphash_next addr ip ih = Some (in_token p)"
    using iphash_next_node [OF assms False] by blast
  obtain t where "in_token p = Token t" by (cases "in_token p")
  moreover have "unat (token_val (in_token p)) < unat (ih_total ih)"
    using assms False p(1) by (simp add: iphash_inv_def)
  ultimately show ?thesis using p(2) by (simp add: peer_bound_def)
qed

interpretation ihb: balance iphash_inv ih_total "\<lambda>(addr, ip) ih. (iphash_next addr ip ih, ih)"
  using iphash_next_contract by unfold_locales auto

lemma set_enumerate0: "set (enumerate 0 xs) = (\<lambda>i. (i, xs ! i)) ` {..<length xs}"
  by (force simp: enumerate_eq_zip set_zip)

lemma ring_nodes_tokens:
  "p \<in> set (ring_nodes r ws) \<longleftrightarrow>
     (\<exists>n v. n < length ws \<and> v \<le> unat (ws ! n) * r \<and> p = \<lparr>in_hash = vnode_hash v, in_token = Token (of_nat n)\<rparr>)"
proof -
  have "set (ring_nodes r ws) = (\<Union>n<length ws. (\<lambda>v. \<lparr>in_hash = vnode_hash v, in_token = Token (of_nat n)\<rparr>) ` {..unat (ws ! n) * r})"
    by (simp add: ring_nodes_def set_enumerate0 atLeastLessThanSuc_atLeastAtMost atLeast0AtMost
        del: upt_Suc)
  then show ?thesis by auto
qed

lemma replica_ratio_Inr: "ws \<noteq> [] \<Longrightarrow> \<exists>r. replica_ratio ws = Inr r"
  by (simp add: replica_ratio_def Let_def)

lemma iphash_new_Inr:
  assumes "length ws \<le> 255"
  obtains ih where "iphash_new srt ws = Inr ih"
proof (cases "length ws \<le> 1")
  case True
  with assms that show ?thesis by (simp add: iphash_new_def)
next
  case False
  then obtain r where "replica_ratio ws = Inr r" using replica_ratio_Inr [of ws] by fastforce
  with False assms that show ?thesis by (simp add: iphash_new_def)
qed

lemma iphash_new_nodes:
  assumes "iphash_new srt ws = Inr ih" "2 \<le> length ws"
  obtains r where "replica_ratio ws = Inr r" "ih_nodes ih = srt (ring_nodes (unat r) ws)"
    "ih_total ih = of_nat (length ws)" "length ws \<le> 255"
  using assms by (auto simp: iphash_new_def bind_sum_Inr_iff split: if_splits)

lemma iphash_new_total: "iphash_new srt ws = Inr ih \<Longrightarrow> unat (ih_total ih) = length ws"
  by (auto simp: iphash_new_def bind_sum_Inr_iff unat_of_nat split: if_splits)

lemma iphash_new_inv:
  assumes srt: "unstable_sort srt" and new: "iphash_new srt ws = Inr ih"
  shows "iphash_inv ih"
proof (cases "length ws \<le> 1")
  case True
  then show ?thesis using new by (auto simp: iphash_new_def iphash_inv_def word_le_nat_alt unat_of_nat split: if_splits)
next
  case False
  then have two: "2 \<le> length ws" by simp
  obtain r where r: "replica_ratio ws = Inr r" "ih_nodes ih = srt (ring_nodes (unat r) ws)"
      "ih_total ih = of_nat (length ws)" "length ws \<le> 255"
    by (rule iphash_new_nodes [OF new two])
  have set: "set (ih_nodes ih) = set (ring_nodes (unat r) ws)"
    using unstable_sort.sort_set [OF srt] r(2) by simp
  have "\<lparr>in_hash = vnode_hash 0, in_token = Token (of_nat 0)\<rparr> \<in> set (ih_nodes ih)"
    unfolding set ring_nodes_tokens using two by (intro exI [of _ 0]) auto
  then have "ih_nodes ih \<noteq> []" by auto
  moreover have "\<forall>p\<in>set (ih_nodes ih). unat (token_val (in_token p)) < unat (ih_total ih)"
    unfolding set using r(3,4) by (auto simp: ring_nodes_tokens unat_of_nat)
  ultimately show ?thesis
    using unstable_sort.sort_sorted [OF srt] r(2) by (simp add: iphash_inv_def)
qed

lemma chash_loop_words:
  "length bs mod 4 = 0 \<Longrightarrow> chash_loop bs h = (foldl chash_mix h (le_words bs), [])"
  by (induction bs h rule: chash_loop.induct) auto

section \<open>Properties\<close>

text \<open>
  C3: The ring lookup. A balancer built from two or more weights, whatever order the unstable sort
  leaves equal keys in, sends a client to a virtual node at the first ring position at or after
  the client's hash, and to one at the lowest position when there is none after it.
\<close>
theorem iphash_ring_successor:
  assumes "unstable_sort srt" and "iphash_new srt ws = Inr ih" and "2 \<le> length ws"
  shows "\<exists>p\<in>set (ih_nodes ih). iphash_next addr ip ih = Some (in_token p) \<and>
     ((chash_for_ip addr (octets ip) \<le> in_hash p \<and>
       (\<forall>q\<in>set (ih_nodes ih). chash_for_ip addr (octets ip) \<le> in_hash q \<longrightarrow> in_hash p \<le> in_hash q)) \<or>
      ((\<forall>q\<in>set (ih_nodes ih). in_hash q < chash_for_ip addr (octets ip)) \<and>
       (\<forall>q\<in>set (ih_nodes ih). in_hash p \<le> in_hash q)))"
proof -
  let ?keys = "map in_hash (ih_nodes ih)" and ?h = "chash_for_ip addr (octets ip)"
  have inv: "iphash_inv ih" using iphash_new_inv [OF assms(1,2)] .
  have big: "\<not> ih_total ih \<le> 1" using iphash_new_total [OF assms(2)] assms(3) by (simp add: word_le_nat_alt)
  obtain p where p: "p \<in> set (ih_nodes ih)" "iphash_next addr ip ih = Some (in_token p)"
      "p = ih_nodes ih ! bs.ring_index ?keys ?h"
    using iphash_next_node [OF inv big] by blast
  have s: "sorted ?keys" "?keys \<noteq> []" using inv big by (simp_all add: iphash_inv_def)
  have "?keys ! bs.ring_index ?keys ?h = in_hash p"
    using bs.ring_index_bound [OF s, of ?h] p(3) by simp
  with bs.ring_index_successor [OF s, of ?h] p(1,2) show ?thesis by auto
qed

theorem iphash_ring_successor_witness:
  "\<exists>ih. iphash_new (sort_key in_hash) [1, 2] = Inr ih \<and>
     (\<exists>p\<in>set (ih_nodes ih). iphash_next 0 (IpV4 0x01010101) ih = Some (in_token p))"
proof -
  obtain ih where ih: "iphash_new (sort_key in_hash) [1, 2] = Inr ih"
    using iphash_new_Inr [of "[1, 2]"] by auto
  show ?thesis
    using iphash_ring_successor [OF stable_sort.unstable_sort_axioms ih, of 0 "IpV4 0x01010101"] ih by auto
qed

text \<open>
  C6: On a word-aligned buffer the specialised hash of an address agrees with the general hash
  of its octets, for every IPv4 and IPv6 address (what the unit test samples).
\<close>
theorem chash_for_ip_aligned:
  assumes "addr mod 4 = 0"
  shows "chash_for_ip addr (octets ip) = chash (octets ip)"
proof -
  have "length (octets ip) mod 4 = 0" using length_octets [of ip] by auto
  then show ?thesis
    using assms by (simp add: chash_def chash_for_ip_def align_to_u32_def chash_loop_words chash_tail_def)
qed

theorem chash_for_ip_aligned_witness:
  "chash_for_ip 4096 (octets (IpV4 0x08080808)) = chash (octets (IpV4 0x08080808))"
  by (rule chash_for_ip_aligned) simp

text \<open>
  C7: On a buffer that is not word-aligned the specialised hash ignores an IPv4 address
  altogether: all IPv4 clients get the same peer. Nothing in the code aligns the octets.
\<close>
theorem chash_for_ip_misaligned:
  assumes "addr mod 4 \<noteq> 0"
  shows "iphash_next addr (IpV4 a) ih = iphash_next addr (IpV4 b) ih"
proof -
  have "align_to_u32 addr (octets4 x) = []" for x
  proof -
    have "addr mod 4 < 4" by simp
    then have "0 < (4 - addr mod 4) mod 4" using assms by (simp add: mod_if)
    then obtain k where k: "(4 - addr mod 4) mod 4 = Suc k" using gr0_implies_Suc by blast
    have "length (drop (Suc k) (octets4 x)) < 4" by (simp add: octets4_def)
    then have "le_words (drop (Suc k) (octets4 x)) = []"
      by (cases "drop (Suc k) (octets4 x)" rule: le_words.cases) auto
    then show ?thesis by (simp add: align_to_u32_def k)
  qed
  moreover have "length (octets4 a) = length (octets4 b)" by (simp add: octets4_def)
  ultimately have "chash_for_ip addr (octets4 a) = chash_for_ip addr (octets4 b)"
    by (simp add: chash_for_ip_def)
  then show ?thesis by (simp add: iphash_next_ring)
qed

theorem chash_for_ip_misaligned_witness:
  "iphash_next 1 (IpV4 0x01010101) \<lparr>ih_nodes = [\<lparr>in_hash = 5, in_token = Token 0\<rparr>, \<lparr>in_hash = 9, in_token = Token 1\<rparr>], ih_total = 2\<rparr>
   = iphash_next 1 (IpV4 0x08080808) \<lparr>ih_nodes = [\<lparr>in_hash = 5, in_token = Token 0\<rparr>, \<lparr>in_hash = 9, in_token = Token 1\<rparr>], ih_total = 2\<rparr>"
  by (rule chash_for_ip_misaligned) simp

text \<open>
  The peers share their ring positions. A virtual node's hash depends on its index only, not
  on the peer, so every position a lighter peer has is a position of each heavier peer too:
  which of them a client gets is decided by how the sort happens to order equal keys.
\<close>
theorem iphash_positions_shared:
  assumes "unstable_sort srt" and "iphash_new srt ws = Inr ih"
    and "i < length ws" and "j < length ws" and "ws ! i \<le> ws ! j"
  shows "in_hash ` {p \<in> set (ih_nodes ih). in_token p = Token (of_nat i)}
           \<subseteq> in_hash ` {p \<in> set (ih_nodes ih). in_token p = Token (of_nat j)}"
proof (cases "length ws \<le> 1")
  case True
  with assms(3,4) have "i = j" by simp
  then show ?thesis by simp
next
  case False
  then have two: "2 \<le> length ws" by simp
  obtain r where r: "replica_ratio ws = Inr r" "ih_nodes ih = srt (ring_nodes (unat r) ws)"
      "ih_total ih = of_nat (length ws)" "length ws \<le> 255"
    by (rule iphash_new_nodes [OF assms(2) two])
  have set: "set (ih_nodes ih) = set (ring_nodes (unat r) ws)"
    using unstable_sort.sort_set [OF assms(1)] r(2) by simp
  show ?thesis
  proof
    fix h assume "h \<in> in_hash ` {p \<in> set (ih_nodes ih). in_token p = Token (of_nat i)}"
    then obtain n v where nv: "n < length ws" "v \<le> unat (ws ! n) * unat r" "h = vnode_hash v"
        "(of_nat n :: u8) = of_nat i"
      by (auto simp: set ring_nodes_tokens)
    have "unat (of_nat n :: u8) = unat (of_nat i :: u8)" using nv(4) by simp
    then have "n = i" using nv(1) assms(3) r(4) by (simp add: unat_of_nat)
    moreover have "unat (ws ! i) \<le> unat (ws ! j)" using assms(5) by (simp add: word_le_nat_alt)
    ultimately have "v \<le> unat (ws ! j) * unat r" using nv(2) by (meson le_trans mult_le_mono1)
    then have "\<lparr>in_hash = h, in_token = Token (of_nat j)\<rparr> \<in> set (ih_nodes ih)"
      unfolding set ring_nodes_tokens using assms(4) nv(3) by blast
    then show "h \<in> in_hash ` {p \<in> set (ih_nodes ih). in_token p = Token (of_nat j)}" by force
  qed
qed

theorem iphash_positions_shared_witness:
  "\<exists>ih. iphash_new (sort_key in_hash) [1, 2] = Inr ih \<and>
     in_hash ` {p \<in> set (ih_nodes ih). in_token p = Token (of_nat 0)}
       \<subseteq> in_hash ` {p \<in> set (ih_nodes ih). in_token p = Token (of_nat 1)}"
proof -
  obtain ih where ih: "iphash_new (sort_key in_hash) [1, 2] = Inr ih"
    using iphash_new_Inr [of "[1, 2]"] by auto
  show ?thesis
    using iphash_positions_shared [OF stable_sort.unstable_sort_axioms ih, of 0 1] ih by simp
qed

text \<open>
  The unchecked multiplication of the hash is outside its defined range for every address:
  \<^verbatim>\<open>unchecked_mul\<close> requires the product of the length (4 or 16) and the multiplier to fit 32 bits.
\<close>
lemma chash_mul_undefined:
  "\<not> c_mul_defined (of_nat (length (octets ip))) chash_M"
  using length_octets [of ip] by (auto simp: c_mul_defined_def chash_M_def)

text \<open>
  The replica ratio. With \<open>m\<close> the largest weight, the ratio is the least one that gives
  the heaviest peer 128 replicas: \<open>m * ratio\<close> is at least 128, and less than \<open>128 + m\<close> below that
  threshold; a ratio above 1 is never needed from 128 on.
\<close>
theorem replica_ratio_bounds:
  assumes "replica_ratio ws = Inr r" and "m = unat (foldl max 0 ws)" and "0 < m"
  shows "128 \<le> m * unat r \<and> (m < 128 \<longrightarrow> m * unat r < 128 + m) \<and> (128 \<le> m \<longrightarrow> r = 1)"
proof (cases "128 \<le> m")
  case True
  with assms show ?thesis by (simp add: replica_ratio_def Let_def split: if_splits)
next
  case False
  let ?q = "(128 + m - 1) div m"
  have r: "r = of_nat ?q" using assms False by (auto simp: replica_ratio_def Let_def split: if_splits)
  have "?q \<le> 128 + m - 1" by simp
  then have q: "?q < 256" using False by linarith
  then have "unat r = ?q" by (simp add: r unat_of_nat)
  moreover have "128 + m - 1 = m * ?q + (128 + m - 1) mod m" by (rule mult_div_mod_eq [symmetric])
  moreover have "(128 + m - 1) mod m < m" using assms(3) by simp
  ultimately have "unat r = ?q" "128 \<le> m * ?q" "m * ?q < 128 + m"
    using False assms(3) by linarith+
  then show ?thesis using False by simp
qed

theorem replica_ratio_bounds_witness:
  "replica_ratio [1, 1, 2, 2, 3] = Inr 43 \<and> 128 \<le> 3 * unat (43 :: u8)"
proof -
  have r: "replica_ratio [1, 1, 2, 2, 3] = Inr 43" by code_simp
  have "3 = unat (foldl max 0 [1, 1, 2, 2, 3 :: u8])" by code_simp
  from replica_ratio_bounds [OF r this] r show ?thesis by simp
qed

text \<open>
  The hash on the unit test's vectors. The seven neutral strings hash to the values the test
  expects; the six strings that contain the program's name do not, since the expected values are
  those of the same strings with the name \<^verbatim>\<open>realm\<close> of the project this one is derived from.
\<close>
theorem chash_vectors:
  "map (chash \<circ> str_bytes) [[], ''123'', ''1234567'', ''abc'', ''abcdefg'', ''123abc'', ''abc123'']
     = [3164544308, 4219602657, 897539970, 2237464879, 2383090994, 2851751921, 4002724297]
   \<and> map (chash \<circ> str_bytes) [''realm'', ''1 realm'', ''2 realm'', ''3 realm'', ''10 realm'', ''100 realm'']
     = [885396906, 4115282535, 1326782105, 1796078392, 2265248424, 4289654351]
   \<and> map (chash \<circ> str_bytes)
       [''hoorayhug'', ''1 hoorayhug'', ''2 hoorayhug'', ''3 hoorayhug'', ''10 hoorayhug'', ''100 hoorayhug'']
     = [2236072495, 1264034622, 3530045278, 1120499113, 666202051, 4275963274]"
  by code_simp

end
