(* ===== verification/Round_Robin.thy ===== *)
theory Round_Robin
  imports Balance_Trait
begin

text \<open>
  The smooth weighted round robin of \<^verbatim>\<open>hoorayhug_lb/src/round_robin.rs\<close>. The nodes keep
  the code's widths (\<^verbatim>\<open>cw: i16\<close>, \<^verbatim>\<open>ew\<close>, \<^verbatim>\<open>weight: u8\<close>), so \<open>+\<close> and \<open>-\<close> wrap as they do in
  the release profile. The specification is the same schedule over unbounded integers;
  the refinement holds while no \<^verbatim>\<open>i16\<close> overflows, and fairness is proved of the
  specification and carried over.
\<close>

section \<open>The code\<close>

record rr_node =
  rr_cw :: i16
  rr_ew :: u8
  rr_weight :: u8
  rr_token :: token

record round_robin =
  rr_nodes :: "rr_node list"
  rr_total :: u8

definition rr_new :: "u8 list \<Rightarrow> round_robin checked" where
  "rr_new weights =
     (if length weights > 255 then Inl (Panic ''assertion failed: weights.len() <= u8::MAX'')
      else if length weights \<le> 1
      then Inr \<lparr>rr_nodes = [], rr_total = of_nat (length weights)\<rparr>
      else Inr \<lparr>rr_nodes = map (\<lambda>(i, w). \<lparr>rr_cw = 0, rr_ew = w, rr_weight = w, rr_token = Token (of_nat i)\<rparr>)
                              (enumerate 0 weights),
                rr_total = of_nat (length weights)\<rparr>)"

text \<open>
  The loop over \<^verbatim>\<open>nodes.iter_mut()\<close>: \<open>i\<close> is the position, \<open>best\<close> the position and current
  weight of the best node so far.
\<close>

definition rr_visit :: "rr_node \<Rightarrow> rr_node" where
  "rr_visit p =
     (let p1 = p\<lparr>rr_cw := rr_cw p + ucast (rr_ew p)\<rparr>
      in if rr_ew p1 < rr_weight p1 then p1\<lparr>rr_ew := rr_ew p1 + 1\<rparr> else p1)"

definition rr_best :: "nat \<Rightarrow> i16 \<Rightarrow> (nat \<times> i16) option \<Rightarrow> (nat \<times> i16) option" where
  "rr_best i c best =
     (case best of Some (j, d) \<Rightarrow> if sint d < sint c then Some (i, c) else best
                 | None \<Rightarrow> Some (i, c))"

fun rr_scan :: "rr_node list \<Rightarrow> nat \<Rightarrow> i16 \<Rightarrow> (nat \<times> i16) option \<Rightarrow> rr_node list \<times> i16 \<times> (nat \<times> i16) option" where
  "rr_scan [] i tw best = ([], tw, best)"
| "rr_scan (p # ps) i tw best =
     (let tw' = tw + ucast (rr_ew p);
          p' = rr_visit p;
          (qs, tw'', b) = rr_scan ps (Suc i) tw' (rr_best i (rr_cw p') best)
      in (p' # qs, tw'', b))"

definition rr_next :: "round_robin \<Rightarrow> token option \<times> round_robin" where
  "rr_next rr =
     (if rr_total rr \<le> 1 then (Some (Token 0), rr)
      else let (ns, tw, best) = rr_scan (rr_nodes rr) 0 0 None
           in case best of
                None \<Rightarrow> (None, rr\<lparr>rr_nodes := ns\<rparr>)
              | Some (k, _) \<Rightarrow>
                  (Some (rr_token (ns ! k)),
                   rr\<lparr>rr_nodes := ns[k := (ns ! k)\<lparr>rr_cw := rr_cw (ns ! k) - tw\<rparr>]\<rparr>))"

primrec rr_calls :: "nat \<Rightarrow> round_robin \<Rightarrow> token option list \<times> round_robin" where
  "rr_calls 0 rr = ([], rr)"
| "rr_calls (Suc n) rr = (let (ts, rr') = rr_calls n rr; (t, rr'') = rr_next rr' in (ts @ [t], rr''))"

section \<open>The specification over the integers\<close>

fun best_scan :: "int list \<Rightarrow> nat \<Rightarrow> (nat \<times> int) option \<Rightarrow> (nat \<times> int) option" where
  "best_scan [] i b = b"
| "best_scan (c # cs) i b =
     best_scan cs (Suc i) (case b of Some (j, d) \<Rightarrow> if d < c then Some (i, c) else b
                                   | None \<Rightarrow> Some (i, c))"

definition swrr_step :: "int list \<Rightarrow> int list \<Rightarrow> nat \<times> int list" where
  "swrr_step ws cs =
     (let cs' = map2 (+) cs ws; k = fst (the (best_scan cs' 0 None))
      in (k, cs'[k := cs' ! k - sum_list ws]))"

primrec swrr_run :: "int list \<Rightarrow> nat \<Rightarrow> nat list \<times> int list" where
  "swrr_run ws 0 = ([], replicate (length ws) 0)"
| "swrr_run ws (Suc n) =
     (let (ks, cs) = swrr_run ws n; (k, cs') = swrr_step ws cs in (ks @ [k], cs'))"

lemma best_scan_Some:
  assumes "best_scan cs i (Some (j, d)) = Some (k, v)"
  shows "(k = j \<and> v = d \<and> (\<forall>c\<in>set cs. c \<le> d)) \<or>
         (\<exists>m<length cs. k = i + m \<and> v = cs ! m \<and> d < v \<and> (\<forall>c\<in>set cs. c \<le> v) \<and> (\<forall>m'<m. cs ! m' < v))"
  using assms
proof (induction cs arbitrary: i j d)
  case Nil
  then show ?case by simp
next
  case (Cons c cs)
  show ?case
  proof (cases "d < c")
    case True
    with Cons.prems have "best_scan cs (Suc i) (Some (i, c)) = Some (k, v)" by simp
    from Cons.IH [OF this] show ?thesis
    proof
      assume "k = i \<and> v = c \<and> (\<forall>c'\<in>set cs. c' \<le> c)"
      with True show ?thesis by (intro disjI2 exI [of _ 0]) auto
    next
      assume "\<exists>m<length cs. k = Suc i + m \<and> v = cs ! m \<and> c < v \<and> (\<forall>c\<in>set cs. c \<le> v) \<and> (\<forall>m'<m. cs ! m' < v)"
      then obtain m where m: "m < length cs" "k = Suc i + m" "v = cs ! m" "c < v"
        "\<forall>c\<in>set cs. c \<le> v" "\<forall>m'<m. cs ! m' < v" by blast
      have "\<forall>m'<Suc m. (c # cs) ! m' < v"
        using m by (auto simp: nth_Cons split: nat.splits)
      with m True show ?thesis by (intro disjI2 exI [of _ "Suc m"]) auto
    qed
  next
    case False
    with Cons.prems have "best_scan cs (Suc i) (Some (j, d)) = Some (k, v)" by simp
    from Cons.IH [OF this] show ?thesis
    proof
      assume "k = j \<and> v = d \<and> (\<forall>c'\<in>set cs. c' \<le> d)"
      with False show ?thesis by auto
    next
      assume "\<exists>m<length cs. k = Suc i + m \<and> v = cs ! m \<and> d < v \<and> (\<forall>c\<in>set cs. c \<le> v) \<and> (\<forall>m'<m. cs ! m' < v)"
      then obtain m where m: "m < length cs" "k = Suc i + m" "v = cs ! m" "d < v"
        "\<forall>c\<in>set cs. c \<le> v" "\<forall>m'<m. cs ! m' < v" by blast
      have "\<forall>m'<Suc m. (c # cs) ! m' < v"
        using m False by (auto simp: nth_Cons split: nat.splits)
      with m False show ?thesis by (intro disjI2 exI [of _ "Suc m"]) auto
    qed
  qed
qed

lemma best_scan_is_Some: "\<exists>k v. best_scan cs i (Some b) = Some (k, v)"
proof (induction cs arbitrary: i b)
  case Nil
  then show ?case by (cases b) simp
next
  case (Cons c cs)
  obtain j d where b: "b = (j, d)" by (cases b)
  show ?case using Cons.IH by (simp add: b)
qed

lemma best_scan_first_max:
  assumes "cs \<noteq> []"
  obtains k where "best_scan cs 0 None = Some (k, cs ! k)" "k < length cs"
    "\<And>j. j < length cs \<Longrightarrow> cs ! j \<le> cs ! k" "\<And>j. j < k \<Longrightarrow> cs ! j < cs ! k"
proof -
  obtain c cs' where cs: "cs = c # cs'" using assms by (cases cs) auto
  obtain k v where kv: "best_scan cs' 1 (Some (0, c)) = Some (k, v)"
    using best_scan_is_Some by blast
  then have s: "best_scan cs 0 None = Some (k, v)" by (simp add: cs)
  from best_scan_Some [OF kv] show ?thesis
  proof
    assume h: "k = 0 \<and> v = c \<and> (\<forall>c'\<in>set cs'. c' \<le> c)"
    then have "\<And>j. j < length cs \<Longrightarrow> cs ! j \<le> c"
      by (auto simp: cs nth_Cons split: nat.splits)
    with h s show ?thesis by (intro that [of 0]) (auto simp: cs)
  next
    assume "\<exists>m<length cs'. k = 1 + m \<and> v = cs' ! m \<and> c < v \<and> (\<forall>c\<in>set cs'. c \<le> v) \<and> (\<forall>m'<m. cs' ! m' < v)"
    then obtain m where m: "m < length cs'" "k = Suc m" "v = cs' ! m" "c < v"
      "\<forall>c\<in>set cs'. c \<le> v" "\<forall>m'<m. cs' ! m' < v" by auto
    have "\<And>j. j < length cs \<Longrightarrow> cs ! j \<le> v"
      using m by (auto simp: cs nth_Cons split: nat.splits)
    moreover have "\<And>j. j < k \<Longrightarrow> cs ! j < v"
      using m by (auto simp: cs nth_Cons split: nat.splits)
    ultimately show ?thesis using m s by (intro that [of k]) (auto simp: cs)
  qed
qed

section \<open>Fairness of the specification\<close>

definition swrr_inv :: "int list \<Rightarrow> nat \<Rightarrow> nat list \<Rightarrow> int list \<Rightarrow> bool" where
  "swrr_inv ws n ks cs \<longleftrightarrow>
     length cs = length ws \<and> length ks = n \<and> set ks \<subseteq> {..<length ws} \<and>
     (\<forall>i<length ws. cs ! i = int n * ws ! i - sum_list ws * int (count_list ks i)) \<and>
     (\<forall>i<length ws. - sum_list ws < cs ! i)"

lemma sum_list_nth: "sum_list xs = (\<Sum>i<length xs. xs ! i)" for xs :: "int list"
  by (simp add: sum_list_sum_nth atLeast0LessThan)

lemma swrr_inv_sum:
  assumes "swrr_inv ws n ks cs"
  shows "sum_list cs = 0"
proof -
  have "(\<Sum>i<length ws. int (count_list ks i)) = int n"
    using assms sum_count_set [of ks "{..<length ws}"]
    by (simp add: swrr_inv_def flip: of_nat_sum)
  moreover have "sum_list cs = (\<Sum>i<length ws. int n * ws ! i - sum_list ws * int (count_list ks i))"
    using assms by (simp add: sum_list_nth [of cs] swrr_inv_def)
  ultimately show ?thesis
    by (simp add: sum_subtractf sum_list_nth [of ws] flip: sum_distrib_left)
qed

lemma sum_list_map2_plus: "length xs = length ys \<Longrightarrow> sum_list (map2 (+) xs ys) = sum_list xs + sum_list ys"
  for xs ys :: "int list"
  by (induction xs ys rule: list_induct2) auto

lemma swrr_inv_step:
  assumes inv: "swrr_inv ws n ks cs" and pos: "0 < sum_list ws" and nn: "\<forall>w\<in>set ws. 0 \<le> w"
    and step: "swrr_step ws cs = (k, cs')"
  shows "swrr_inv ws (Suc n) (ks @ [k]) cs'"
proof -
  let ?a = "map2 (+) cs ws"
  have len: "length cs = length ws" using inv by (simp add: swrr_inv_def)
  have ne: "?a \<noteq> []" using pos len by auto
  obtain m where m: "best_scan ?a 0 None = Some (m, ?a ! m)" "m < length ?a"
    "\<And>j. j < length ?a \<Longrightarrow> ?a ! j \<le> ?a ! m"
    using best_scan_first_max [OF ne] by metis
  have k: "k = m" and cs': "cs' = ?a[m := ?a ! m - sum_list ws]"
    using step m(1) by (auto simp: swrr_step_def Let_def)
  have mlt: "m < length ws" using m(2) len by simp
  have "sum_list ?a = sum_list ws"
    using swrr_inv_sum [OF inv] len by (simp add: sum_list_map2_plus)
  moreover have "sum_list ?a \<le> 0" if "?a ! m \<le> 0"
    using m(3) that unfolding sum_list_nth by (intro sum_nonpos) fastforce
  ultimately have top: "0 < ?a ! m" using pos by fastforce
  have low: "\<forall>i<length ws. - sum_list ws < cs' ! i"
  proof (intro allI impI)
    fix i assume i: "i < length ws"
    show "- sum_list ws < cs' ! i"
    proof (cases "i = m")
      case True
      then show ?thesis using top i len by (simp add: cs')
    next
      case False
      have "0 \<le> ws ! i" using nn i by simp
      moreover have "- sum_list ws < cs ! i" using inv i unfolding swrr_inv_def by blast
      ultimately show ?thesis using False i len by (simp add: cs')
    qed
  qed
  have "\<forall>i<length ws. cs' ! i = int (Suc n) * ws ! i - sum_list ws * int (count_list (ks @ [k]) i)"
    using inv mlt by (auto simp: cs' k swrr_inv_def nth_list_update algebra_simps)
  with low show ?thesis
    using inv mlt by (simp add: swrr_inv_def cs' k)
qed

lemma swrr_run_inv:
  assumes pos: "0 < sum_list ws" and nn: "\<forall>w\<in>set ws. 0 \<le> w"
    and run: "swrr_run ws n = (ks, cs)"
  shows "swrr_inv ws n ks cs"
  using run
proof (induction n arbitrary: ks cs)
  case 0
  with pos show ?case by (auto simp: swrr_inv_def)
next
  case (Suc n)
  obtain ks0 cs0 where r: "swrr_run ws n = (ks0, cs0)" by (cases "swrr_run ws n")
  obtain k cs1 where s: "swrr_step ws cs0 = (k, cs1)" by (cases "swrr_step ws cs0")
  from Suc.prems r s have "ks = ks0 @ [k]" "cs = cs1" by simp_all
  with swrr_inv_step [OF Suc.IH [OF r] pos nn s] show ?case by simp
qed

lemma swrr_upper:
  assumes inv: "swrr_inv ws n ks cs" and i: "i < length ws"
  shows "cs ! i \<le> int (length ws - 1) * (sum_list ws - 1)"
proof -
  have len: "length cs = length ws" using inv by (simp add: swrr_inv_def)
  have "0 = (\<Sum>j<length ws. cs ! j)"
    using swrr_inv_sum [OF inv] len by (simp add: sum_list_nth [of cs])
  also have "\<dots> = cs ! i + (\<Sum>j\<in>{..<length ws} - {i}. cs ! j)"
    using i by (simp add: sum.remove)
  finally have "cs ! i = (\<Sum>j\<in>{..<length ws} - {i}. - cs ! j)"
    by (simp add: sum_negf)
  also have "\<dots> \<le> (\<Sum>j\<in>{..<length ws} - {i}. sum_list ws - 1)"
    using inv by (intro sum_mono) (auto simp: swrr_inv_def)
  also have "\<dots> = int (length ws - 1) * (sum_list ws - 1)" using i by simp
  finally show ?thesis .
qed

lemma swrr_low: "swrr_inv ws n ks cs \<Longrightarrow> i < length ws \<Longrightarrow> - sum_list ws < cs ! i"
  by (unfold swrr_inv_def) blast

lemma swrr_picks: "swrr_inv ws n ks cs \<Longrightarrow> set ks \<subseteq> {..<length ws}"
  by (unfold swrr_inv_def) blast

lemma swrr_share:
  assumes inv: "swrr_inv ws n ks cs" and i: "i < length ws"
  shows "sum_list ws * int (count_list ks i) < int n * ws ! i + sum_list ws"
proof -
  have "- sum_list ws < cs ! i" and "cs ! i = int n * ws ! i - sum_list ws * int (count_list ks i)"
    using inv i unfolding swrr_inv_def by blast+
  then show ?thesis by linarith
qed

text \<open>
  After as many calls as the weights sum to, every peer has had exactly its weight in calls
  and the current weights are back to zero.
\<close>

lemma swrr_period:
  assumes pos: "0 < sum_list ws" and nn: "\<forall>w\<in>set ws. 0 \<le> w"
    and run: "swrr_run ws (nat (sum_list ws)) = (ks, cs)"
  shows "\<forall>i<length ws. int (count_list ks i) = ws ! i" and "cs = replicate (length ws) 0"
proof -
  let ?W = "sum_list ws"
  have inv: "swrr_inv ws (nat ?W) ks cs" using swrr_run_inv [OF pos nn run] .
  have n: "int (nat ?W) = ?W" using pos by simp
  have le: "int (count_list ks i) \<le> ws ! i" if "i < length ws" for i
  proof -
    have "?W * int (count_list ks i) < ?W * (ws ! i + 1)"
      using swrr_share [OF inv that] n by (simp add: algebra_simps)
    then show ?thesis using pos by (simp add: mult_less_cancel_left_pos)
  qed
  have "(\<Sum>i<length ws. int (count_list ks i)) = ?W"
    using inv sum_count_set [of ks "{..<length ws}"] n
    by (simp add: swrr_inv_def flip: of_nat_sum)
  then have "(\<Sum>i<length ws. ws ! i - int (count_list ks i)) = 0"
    by (simp add: sum_subtractf sum_list_nth [of ws])
  then have "\<forall>i\<in>{..<length ws}. ws ! i - int (count_list ks i) = 0"
    using le by (subst (asm) sum_nonneg_eq_0_iff) auto
  then show eq: "\<forall>i<length ws. int (count_list ks i) = ws ! i" by auto
  have "\<forall>i<length ws. cs ! i = 0" using inv n eq by (simp add: swrr_inv_def)
  then show "cs = replicate (length ws) 0"
    using inv by (simp add: list_eq_iff_nth_eq swrr_inv_def)
qed

section \<open>Refinement of the specification by the code\<close>

definition i16_of :: "int \<Rightarrow> i16" where
  "i16_of c = word_of_int c"

fun node_list :: "nat \<Rightarrow> u8 list \<Rightarrow> int list \<Rightarrow> rr_node list" where
  "node_list i (w # ws) (c # cs) =
     \<lparr>rr_cw = i16_of c, rr_ew = w, rr_weight = w, rr_token = Token (of_nat i)\<rparr>
     # node_list (Suc i) ws cs"
| "node_list i _ _ = []"

definition in_i16 :: "int \<Rightarrow> bool" where
  "in_i16 c \<longleftrightarrow> - 32768 \<le> c \<and> c \<le> 32767"

definition rr_abs :: "u8 list \<Rightarrow> int list \<Rightarrow> round_robin \<Rightarrow> bool" where
  "rr_abs ws cs rr \<longleftrightarrow>
     2 \<le> length ws \<and> length ws \<le> 255 \<and> length cs = length ws \<and>
     rr = \<lparr>rr_nodes = node_list 0 ws cs, rr_total = of_nat (length ws)\<rparr>"

lemma sint_i16_of: "in_i16 c \<Longrightarrow> sint (i16_of c) = c"
  by (simp add: i16_of_def in_i16_def signed_of_int signed_take_bit_int_eq_self)

lemma i16_of_arith: "i16_of a + i16_of b = i16_of (a + b)" "i16_of a - i16_of b = i16_of (a - b)"
  by (simp_all add: i16_of_def)

lemma ucast_i16: "ucast (w :: u8) = i16_of (uint w)"
  unfolding i16_of_def by transfer (simp add: take_bit_int_eq_self)

lemma i16_of_0: "i16_of 0 = 0"
  by (simp add: i16_of_def)

lemma length_node_list [simp]: "length (node_list i ws cs) = min (length ws) (length cs)"
  by (induction i ws cs rule: node_list.induct) auto

lemma nth_node_list:
  "m < length ws \<Longrightarrow> m < length cs \<Longrightarrow> node_list i ws cs ! m =
     \<lparr>rr_cw = i16_of (cs ! m), rr_ew = ws ! m, rr_weight = ws ! m, rr_token = Token (of_nat (i + m))\<rparr>"
proof (induction i ws cs arbitrary: m rule: node_list.induct)
  case (1 i w ws c cs)
  then show ?case by (cases m) auto
qed auto

lemma node_list_update:
  "m < length ws \<Longrightarrow> m < length cs \<Longrightarrow>
     (node_list i ws cs)[m := (node_list i ws cs ! m)\<lparr>rr_cw := i16_of c\<rparr>] = node_list i ws (cs[m := c])"
  by (rule nth_equalityI) (auto simp: nth_list_update nth_node_list)

lemma rr_visit_node:
  "rr_visit \<lparr>rr_cw = i16_of c, rr_ew = w, rr_weight = w, rr_token = t\<rparr> =
     \<lparr>rr_cw = i16_of (c + uint w), rr_ew = w, rr_weight = w, rr_token = t\<rparr>"
  by (simp add: rr_visit_def ucast_i16 i16_of_arith Let_def)

lemma rr_scan_refines:
  assumes "length cs = length ws"
    and "\<forall>c\<in>set (map2 (+) cs (map uint ws)). in_i16 c"
    and "\<forall>j d. b = Some (j, d) \<longrightarrow> in_i16 d"
  shows "rr_scan (node_list i ws cs) i tw (map_option (apsnd i16_of) b) =
           (node_list i ws (map2 (+) cs (map uint ws)),
            tw + i16_of (sum_list (map uint ws)),
            map_option (apsnd i16_of) (best_scan (map2 (+) cs (map uint ws)) i b))"
  using assms
proof (induction i ws cs arbitrary: tw b rule: node_list.induct)
  case (1 i w ws c cs)
  let ?c = "c + uint w"
  define b' where "b' = (case b of Some (j, d) \<Rightarrow> if d < ?c then Some (i, ?c) else b | None \<Rightarrow> Some (i, ?c))"
  have c: "in_i16 ?c" using "1.prems"(2) by simp
  have b': "\<forall>j d. b' = Some (j, d) \<longrightarrow> in_i16 d"
    using c "1.prems"(3) by (auto simp: b'_def split: option.splits if_splits)
  have best: "rr_best i (i16_of ?c) (map_option (apsnd i16_of) b) = map_option (apsnd i16_of) b'"
    using "1.prems"(3) c by (cases b) (auto simp: rr_best_def b'_def sint_i16_of)
  have IH: "rr_scan (node_list (Suc i) ws cs) (Suc i) (tw + i16_of (uint w)) (map_option (apsnd i16_of) b') =
      (node_list (Suc i) ws (map2 (+) cs (map uint ws)),
       tw + i16_of (uint w) + i16_of (sum_list (map uint ws)),
       map_option (apsnd i16_of) (best_scan (map2 (+) cs (map uint ws)) (Suc i) b'))"
    using "1.prems" b' by (intro "1.IH") auto
  show ?case
    by (simp add: rr_visit_node ucast_i16 i16_of_arith best IH [unfolded i16_of_arith] add.assoc Let_def
        flip: b'_def)
qed (auto simp: i16_of_0)

lemma rr_next_refines:
  assumes abs: "rr_abs ws cs rr"
    and range: "\<forall>c\<in>set (map2 (+) cs (map uint ws)). in_i16 c"
    and step: "swrr_step (map uint ws) cs = (k, cs')"
  obtains rr' where "rr_next rr = (Some (Token (of_nat k)), rr')" "rr_abs ws cs' rr'"
proof -
  let ?a = "map2 (+) cs (map uint ws)"
  have len: "length cs = length ws" "2 \<le> length ws" "length ws \<le> 255"
    using abs by (simp_all add: rr_abs_def)
  have rr: "rr = \<lparr>rr_nodes = node_list 0 ws cs, rr_total = of_nat (length ws)\<rparr>"
    using abs by (simp add: rr_abs_def)
  have ne: "?a \<noteq> []" using len by auto
  obtain m where m: "best_scan ?a 0 None = Some (m, ?a ! m)" "m < length ?a"
    using best_scan_first_max [OF ne] by metis
  have k: "k = m" "cs' = ?a[m := ?a ! m - sum_list (map uint ws)]"
    using step m(1) by (auto simp: swrr_step_def Let_def)
  have scan: "rr_scan (node_list 0 ws cs) 0 0 None =
      (node_list 0 ws ?a, i16_of (sum_list (map uint ws)), Some (m, i16_of (?a ! m)))"
    using rr_scan_refines [OF len(1) range, of None 0 0] m(1) by simp
  have big: "\<not> (of_nat (length ws) :: u8) \<le> 1"
    using len by (simp add: word_le_nat_alt unat_of_nat)
  have mlt: "m < length ws" using m(2) len by simp
  have upd: "(node_list 0 ws ?a)[m := \<lparr>rr_cw = i16_of (cs ! m + uint (ws ! m) - sum_list (map uint ws)),
      rr_ew = ws ! m, rr_weight = ws ! m, rr_token = Token (of_nat m)\<rparr>] = node_list 0 ws cs'"
    using node_list_update [of m ws ?a 0 "?a ! m - sum_list (map uint ws)"] mlt len
    by (simp add: nth_node_list k(2))
  show ?thesis
  proof (rule that)
    show "rr_next rr = (Some (Token (of_nat k)), rr\<lparr>rr_nodes := node_list 0 ws cs'\<rparr>)"
      using mlt len by (simp add: rr_next_def rr scan big k(1) nth_node_list i16_of_arith upd)
    show "rr_abs ws cs' (rr\<lparr>rr_nodes := node_list 0 ws cs'\<rparr>)"
      using len by (simp add: rr_abs_def rr k(2))
  qed
qed

lemma rr_new_abs:
  assumes "2 \<le> length ws" "length ws \<le> 255"
  obtains rr where "rr_new ws = Inr rr" "rr_abs ws (replicate (length ws) 0) rr"
proof -
  have "map (\<lambda>(i, w). \<lparr>rr_cw = 0, rr_ew = w, rr_weight = w, rr_token = Token (of_nat i)\<rparr>) (enumerate 0 ws)
      = node_list 0 ws (replicate (length ws) 0)"
    by (rule nth_equalityI) (simp_all add: nth_enumerate_eq nth_node_list i16_of_0)
  with assms that show ?thesis by (simp add: rr_new_def rr_abs_def)
qed

lemma swrr_in_range:
  assumes inv: "swrr_inv (map uint ws) n ks cs" and pos: "0 < sum_list (map uint ws)"
    and bound: "int (length ws) * sum_list (map uint ws) \<le> 32767"
  shows "\<forall>c\<in>set (map2 (+) cs (map uint ws)). in_i16 c"
proof -
  let ?W = "sum_list (map uint ws)"
  have "in_i16 (cs ! i + uint (ws ! i))" if i: "i < length ws" for i
  proof -
    have n: "1 \<le> length ws" using i by simp
    have w: "uint (ws ! i) \<le> ?W"
      using member_le_sum_list [of "uint (ws ! i)" "map uint ws"] i by auto
    have W: "?W \<le> int (length ws) * ?W" using n pos by (simp add: mult_le_cancel_right1)
    have "cs ! i \<le> int (length ws - 1) * (?W - 1)" using swrr_upper [OF inv, of i] i by simp
    also have "\<dots> = int (length ws) * ?W - ?W - int (length ws) + 1"
      using n by (simp add: of_nat_diff algebra_simps)
    finally have up: "cs ! i + uint (ws ! i) \<le> 32767" using w bound n by simp
    have "- ?W < cs ! i" using swrr_low [OF inv, of i] i by simp
    then have "- 32768 \<le> cs ! i + uint (ws ! i)" using W bound uint_nonnegative [of "ws ! i"] by linarith
    with up show ?thesis by (simp add: in_i16_def)
  qed
  moreover have "length cs = length ws" using inv by (simp add: swrr_inv_def)
  ultimately show ?thesis by (auto simp: in_set_zip)
qed

lemma rr_calls_refines:
  assumes pos: "0 < sum_list (map uint ws)"
    and bound: "int (length ws) * sum_list (map uint ws) \<le> 32767"
    and abs: "rr_abs ws (replicate (length ws) 0) rr"
    and run: "swrr_run (map uint ws) n = (ks, cs)"
  shows "\<exists>rr'. rr_calls n rr = (map (\<lambda>k. Some (Token (of_nat k))) ks, rr') \<and> rr_abs ws cs rr'"
  using run
proof (induction n arbitrary: ks cs)
  case 0
  with abs show ?case by simp
next
  case (Suc n)
  obtain ks0 cs0 where r: "swrr_run (map uint ws) n = (ks0, cs0)" by (cases "swrr_run (map uint ws) n")
  obtain k cs1 where st: "swrr_step (map uint ws) cs0 = (k, cs1)" by (cases "swrr_step (map uint ws) cs0")
  from Suc.IH [OF r] obtain rr0 where rr0:
    "rr_calls n rr = (map (\<lambda>k. Some (Token (of_nat k))) ks0, rr0)" "rr_abs ws cs0 rr0" by blast
  have "swrr_inv (map uint ws) n ks0 cs0" using swrr_run_inv [OF pos _ r] by simp
  then have "\<forall>c\<in>set (map2 (+) cs0 (map uint ws)). in_i16 c"
    using swrr_in_range pos bound by blast
  then obtain rr1 where "rr_next rr0 = (Some (Token (of_nat k)), rr1)" "rr_abs ws cs1 rr1"
    using rr_next_refines [OF rr0(2) _ st] by blast
  with rr0 Suc.prems r st show ?case by auto
qed

lemma u8_of_nat_inj: "i < 256 \<Longrightarrow> j < 256 \<Longrightarrow> (of_nat i :: u8) = of_nat j \<longleftrightarrow> i = j"
  by (simp add: word_unat_eq_iff unat_of_nat)

lemma count_list_tokens:
  "set ks \<subseteq> {..<256} \<Longrightarrow> i < 256 \<Longrightarrow>
     count_list (map (\<lambda>k. Some (Token (of_nat k))) ks) (Some (Token (of_nat i))) = count_list ks i"
  by (induction ks) (auto simp: u8_of_nat_inj)

lemma sum_list_uint: "sum_list (map uint ws) = int (sum_list (map unat ws))"
  by (induction ws) simp_all

section \<open>The balancing contract\<close>

definition rr_inv :: "round_robin \<Rightarrow> bool" where
  "rr_inv rr \<longleftrightarrow> (rr_total rr \<le> 1 \<or>
     (rr_nodes rr \<noteq> [] \<and> (\<forall>p\<in>set (rr_nodes rr). unat (token_val (rr_token p)) < unat (rr_total rr))))"

lemma rr_visit_token [simp]: "rr_token (rr_visit p) = rr_token p"
  by (simp add: rr_visit_def Let_def)

lemma rr_scan_tokens: "rr_scan ps i tw b = (qs, tw', b') \<Longrightarrow> map rr_token qs = map rr_token ps"
  by (induction ps arbitrary: i tw b qs) (auto simp: Let_def split: prod.splits)

lemma rr_scan_best:
  "rr_scan ps i tw b = (qs, tw', b') \<Longrightarrow> (ps \<noteq> [] \<or> b \<noteq> None) \<Longrightarrow>
     \<exists>k c. b' = Some (k, c) \<and> (k < i + length ps \<and> i \<le> k \<or> (\<exists>d. b = Some (k, d)))"
proof (induction ps arbitrary: i tw b qs)
  case Nil
  then show ?case by (cases b') auto
next
  case (Cons p ps)
  obtain qs0 where r: "rr_scan ps (Suc i) (tw + ucast (rr_ew p)) (rr_best i (rr_cw (rr_visit p)) b) = (qs0, tw', b')"
    using Cons.prems(1) by (auto simp: Let_def split: prod.splits)
  have "rr_best i (rr_cw (rr_visit p)) b \<noteq> None" by (auto simp: rr_best_def split: option.splits)
  with Cons.IH [OF r] obtain k c where kc: "b' = Some (k, c)"
    "k < Suc i + length ps \<and> Suc i \<le> k \<or> (\<exists>d. rr_best i (rr_cw (rr_visit p)) b = Some (k, d))" by blast
  then show ?case by (auto simp: rr_best_def split: option.splits if_splits)
qed

lemma rr_next_contract:
  assumes inv: "rr_inv rr" and nx: "rr_next rr = (r, rr')"
  shows "\<exists>t. r = Some (Token t) \<and> unat t < peer_bound (rr_total rr)"
    and "rr_inv rr'" and "rr_total rr' = rr_total rr"
proof -
  have "(\<exists>t. r = Some (Token t) \<and> unat t < peer_bound (rr_total rr)) \<and> rr_inv rr' \<and> rr_total rr' = rr_total rr"
  proof (cases "rr_total rr \<le> 1")
    case True
    with inv nx show ?thesis by (auto simp: rr_next_def peer_bound_def)
  next
    case False
    obtain ns tw b where sc: "rr_scan (rr_nodes rr) 0 0 None = (ns, tw, b)"
      by (cases "rr_scan (rr_nodes rr) 0 0 None") auto
    have ne: "rr_nodes rr \<noteq> []" using inv False by (simp add: rr_inv_def)
    obtain k c where b: "b = Some (k, c)" "k < length (rr_nodes rr)"
      using rr_scan_best [OF sc] ne by auto
    have toks: "map rr_token ns = map rr_token (rr_nodes rr)" using rr_scan_tokens [OF sc] .
    then have len: "length ns = length (rr_nodes rr)" by (metis length_map)
    have ok: "\<forall>p\<in>set ns. unat (token_val (rr_token p)) < unat (rr_total rr)"
    proof -
      have "\<forall>t\<in>set (map rr_token ns). unat (token_val t) < unat (rr_total rr)"
        unfolding toks using inv False by (simp add: rr_inv_def)
      then show ?thesis by simp
    qed
    let ?q = "(ns ! k)\<lparr>rr_cw := rr_cw (ns ! k) - tw\<rparr>"
    have r: "r = Some (rr_token (ns ! k))" and rr': "rr' = rr\<lparr>rr_nodes := ns[k := ?q]\<rparr>"
      using nx False by (simp_all add: rr_next_def sc b)
    have kin: "ns ! k \<in> set ns" using b len by simp
    then have t: "unat (token_val (rr_token (ns ! k))) < unat (rr_total rr)" using ok by blast
    have "set (ns[k := ?q]) \<subseteq> insert ?q (set ns)" by (rule set_update_subset_insert)
    then have "\<forall>p\<in>set (ns[k := ?q]). unat (token_val (rr_token p)) < unat (rr_total rr)"
      using ok t by auto
    then have "rr_inv rr'" using ne len by (auto simp: rr_inv_def rr')
    moreover obtain v where "rr_token (ns ! k) = Token v" by (cases "rr_token (ns ! k)")
    ultimately show ?thesis using r t by (simp add: rr' peer_bound_def)
  qed
  then show "\<exists>t. r = Some (Token t) \<and> unat t < peer_bound (rr_total rr)"
    and "rr_inv rr'" and "rr_total rr' = rr_total rr" by simp_all
qed

interpretation rrb: balance rr_inv rr_total "\<lambda>_ :: unit. rr_next"
  by unfold_locales (use rr_next_contract in blast)+

lemma rr_new_inv: "rr_new ws = Inr rr \<Longrightarrow> rr_inv rr \<and> unat (rr_total rr) = length ws"
  by (auto simp: rr_new_def rr_inv_def unat_of_nat enumerate_eq_zip in_set_zip word_le_nat_alt
      split: if_splits)

lemma int_mult_bound: "a * b \<le> 32767 \<Longrightarrow> int a * int b \<le> 32767"
  by (simp flip: of_nat_mult)

lemma rr_new_weights:
  assumes "rr_new ws = Inr rr" "2 \<le> length ws"
  shows "map rr_ew (rr_nodes rr) = ws"
proof -
  have "map rr_ew (rr_nodes rr) = map snd (enumerate 0 ws)"
    using assms by (auto simp: rr_new_def comp_def case_prod_beta split: if_splits)
  then show ?thesis by simp
qed

lemma rr_scan_tw: "rr_scan ps i tw b = (qs, tw', b') \<Longrightarrow> tw' = tw + sum_list (map (\<lambda>p. ucast (rr_ew p)) ps)"
proof (induction ps arbitrary: i tw b qs)
  case Nil
  then show ?case by simp
next
  case (Cons p ps)
  obtain qs0 where r: "rr_scan ps (Suc i) (tw + ucast (rr_ew p)) (rr_best i (rr_cw (rr_visit p)) b) = (qs0, tw', b')"
    using Cons.prems by (auto simp: Let_def split: prod.splits)
  from Cons.IH [OF r] show ?case by (simp add: add.assoc)
qed

lemma sum_list_i16: "sum_list (map (\<lambda>w :: u8. ucast w) ws) = i16_of (sum_list (map uint ws))"
  by (induction ws) (simp_all add: ucast_i16 i16_of_arith i16_of_0)

lemma sum_list_weights_le: "sum_list (map uint (ws :: u8 list)) \<le> 255 * int (length ws)"
proof (induction ws)
  case (Cons w ws)
  have "uint w \<le> 255" using uint_lt2p [of w] by simp
  with Cons show ?case by simp
qed simp

lemma rr_period:
  assumes "2 \<le> length ws" and "length ws \<le> 255" and "0 < sum_list (map unat ws)"
    and "length ws * sum_list (map unat ws) \<le> 32767"
  shows "\<exists>rr ts. rr_new ws = Inr rr \<and> rr_calls (sum_list (map unat ws)) rr = (ts, rr) \<and>
           (\<forall>i<length ws. count_list ts (Some (Token (of_nat i))) = unat (ws ! i))"
proof -
  let ?W = "sum_list (map uint ws)"
  have W: "?W = int (sum_list (map unat ws))" by (rule sum_list_uint)
  have pos: "0 < ?W" using assms(3) W by simp
  have bound: "int (length ws) * ?W \<le> 32767" using assms(4) unfolding W by (rule int_mult_bound)
  obtain rr where rr: "rr_new ws = Inr rr" "rr_abs ws (replicate (length ws) 0) rr"
    using rr_new_abs assms(1,2) by blast
  obtain ks cs where run: "swrr_run (map uint ws) (nat ?W) = (ks, cs)"
    by (cases "swrr_run (map uint ws) (nat ?W)")
  have nn: "\<forall>w\<in>set (map uint ws). 0 \<le> w" by simp
  have period: "\<forall>i<length ws. int (count_list ks i) = uint (ws ! i)" "cs = replicate (length ws) 0"
    using swrr_period [OF pos nn run] by simp_all
  have "set ks \<subseteq> {..<length ws}" using swrr_picks [OF swrr_run_inv [OF pos nn run]] by simp
  then have ks: "set ks \<subseteq> {..<256}" using assms(2) by fastforce
  obtain rr' where c: "rr_calls (nat ?W) rr = (map (\<lambda>k. Some (Token (of_nat k))) ks, rr')" "rr_abs ws cs rr'"
    using rr_calls_refines [OF pos bound rr(2) run] by blast
  have "rr' = rr" using c(2) rr(2) period(2) by (simp add: rr_abs_def)
  moreover have "count_list (map (\<lambda>k. Some (Token (of_nat k))) ks) (Some (Token (of_nat i))) = unat (ws ! i)"
    if "i < length ws" for i
  proof -
    have "int (count_list ks i) = uint (ws ! i)" using period(1) that by blast
    then have "count_list ks i = unat (ws ! i)" by (metis nat_int unat_eq_nat_uint)
    moreover have "i < 256" using that assms(2) by simp
    ultimately show ?thesis using count_list_tokens [OF ks, of i] by simp
  qed
  moreover have "nat ?W = sum_list (map unat ws)" using W by simp
  ultimately show ?thesis using rr(1) c(1)
    by (intro exI [of _ rr] exI [of _ "map (\<lambda>k. Some (Token (of_nat k))) ks"]) simp
qed

lemma rr_calls_length: "length (fst (rr_calls k rr)) = k"
  by (induction k) (auto split: prod.splits)

text \<open>Every selection of a run is one from the state that the earlier ones have left.\<close>

lemma rr_calls_nth:
  "n < k \<Longrightarrow> fst (rr_calls k rr) ! n = fst (rr_next (snd (rr_calls n rr))) \<and> length (fst (rr_calls k rr)) = k"
proof (induction k)
  case (Suc k)
  obtain ts r1 t r2 where e: "rr_calls k rr = (ts, r1)" "rr_next r1 = (t, r2)"
    by (metis surj_pair)
  have l: "length ts = k" using rr_calls_length [of k rr] e(1) by simp
  show ?case using Suc e l by (cases "n < k") (auto simp: nth_append less_Suc_eq)
qed simp

section \<open>Properties\<close>

text \<open>
  C1: Fairness of the round robin. For any 2 to 255 weights that are not all zero and whose
  sum times their number stays below 2^15, a freshly built balancer hands out, in as many
  calls as the weights sum to, every peer's token exactly weight-many times, and is then
  back in its initial state, so the schedule repeats for ever.
\<close>
theorem rr_fair_period:
  assumes "2 \<le> length ws" and "length ws \<le> 255" and "0 < sum_list (map unat ws)"
    and "length ws * sum_list (map unat ws) \<le> 32767"
  shows "\<exists>rr ts. rr_new ws = Inr rr \<and> rr_calls (sum_list (map unat ws)) rr = (ts, rr) \<and>
           (\<forall>i<length ws. count_list ts (Some (Token (of_nat i))) = unat (ws ! i))"
  by (rule rr_period [OF assms])

theorem rr_fair_period_witness:
  "\<exists>rr ts. rr_new [5, 1, 1] = Inr rr \<and> rr_calls 7 rr = (ts, rr) \<and>
     count_list ts (Some (Token 0)) = 5 \<and> count_list ts (Some (Token 1)) = 1"
proof -
  have ws: "sum_list (map unat [5, 1, 1 :: u8]) = 7" by simp
  have h: "2 \<le> length [5, 1, 1 :: u8]" "length [5, 1, 1 :: u8] \<le> 255"
    "0 < sum_list (map unat [5, 1, 1 :: u8])"
    "length [5, 1, 1 :: u8] * sum_list (map unat [5, 1, 1 :: u8]) \<le> 32767"
    by simp_all
  obtain rr ts where r: "rr_new [5, 1, 1] = Inr rr"
      "rr_calls (sum_list (map unat [5, 1, 1 :: u8])) rr = (ts, rr)"
    and c: "\<forall>i<length [5, 1, 1 :: u8]. count_list ts (Some (Token (of_nat i))) = unat ([5, 1, 1 :: u8] ! i)"
    using rr_fair_period [OF h] by blast
  have "count_list ts (Some (Token 0)) = 5" using c [rule_format, of 0] by simp
  moreover have "count_list ts (Some (Token 1)) = 1" using c [rule_format, of 1] by simp
  ultimately show ?thesis using r unfolding ws by blast
qed

text \<open>
  C2: Proportional share at every moment. For 2 to 255 weights that are not all zero and whose sum times their number
  stays below 2^15 (the same bounds as for the fairness above: outside them the \<^verbatim>\<open>i16\<close> counters may overflow),
  after any number n of calls of a freshly built balancer no peer has been chosen one call or more above its share
  n * weight / sum; so with such weights a peer of weight 0 is never chosen.
\<close>
theorem rr_share_bound:
  assumes "2 \<le> length ws" and "length ws \<le> 255" and "0 < sum_list (map unat ws)"
    and "length ws * sum_list (map unat ws) \<le> 32767"
    and "rr_new ws = Inr rr" and "rr_calls n rr = (ts, rr')" and "i < length ws"
  shows "sum_list (map unat ws) * count_list ts (Some (Token (of_nat i)))
           < n * unat (ws ! i) + sum_list (map unat ws)
         \<and> (ws ! i = 0 \<longrightarrow> count_list ts (Some (Token (of_nat i))) = 0)"
proof -
  let ?W = "sum_list (map uint ws)" and ?c = "count_list ts (Some (Token (of_nat i)))"
  have W: "?W = int (sum_list (map unat ws))" by (rule sum_list_uint)
  have pos: "0 < ?W" using assms(3) W by simp
  have bound: "int (length ws) * ?W \<le> 32767" using assms(4) unfolding W by (rule int_mult_bound)
  have abs: "rr_abs ws (replicate (length ws) 0) rr"
    using rr_new_abs [OF assms(1,2)] assms(5) by auto
  obtain ks cs where run: "swrr_run (map uint ws) n = (ks, cs)" by (cases "swrr_run (map uint ws) n")
  have inv: "swrr_inv (map uint ws) n ks cs" using swrr_run_inv [OF pos _ run] by simp
  have ts: "ts = map (\<lambda>k. Some (Token (of_nat k))) ks"
    using rr_calls_refines [OF pos bound abs run] assms(6) by simp
  have "set ks \<subseteq> {..<256}" using swrr_picks [OF inv] assms(2) by fastforce
  then have c: "?c = count_list ks i" using count_list_tokens assms(2,7) unfolding ts by auto
  have "?W * int ?c < int n * uint (ws ! i) + ?W"
    using swrr_share [OF inv, of i] assms(7) by (simp add: c)
  then have "int (sum_list (map unat ws) * ?c) < int (n * unat (ws ! i) + sum_list (map unat ws))"
    by (simp add: W)
  then have "sum_list (map unat ws) * ?c < n * unat (ws ! i) + sum_list (map unat ws)"
    by (simp only: of_nat_less_iff)
  then show ?thesis by auto
qed

theorem rr_share_bound_witness:
  "\<exists>rr. rr_new [3, 0] = Inr rr \<and> count_list (fst (rr_calls 5 rr)) (Some (Token (of_nat 1))) = 0"
proof -
  obtain rr where "rr_new [3, 0] = Inr rr" using rr_new_abs [of "[3, 0]"] by auto
  moreover obtain ts rr' where "rr_calls 5 rr = (ts, rr')" by (cases "rr_calls 5 rr")
  ultimately show ?thesis using rr_share_bound [of "[3, 0]" rr 5 ts rr' 1] by simp
qed

text \<open>
  C8: The \<^verbatim>\<open>i16\<close> accumulator \<^verbatim>\<open>tw\<close> of the round robin holds the sum of the weights exactly when that
  sum is at most 32767; above it (up to 255 weights of 255 are accepted) the addition
  overflows, which panics in debug builds and wraps in release builds.
\<close>
theorem rr_total_weight_i16:
  assumes "2 \<le> length ws" and "rr_new ws = Inr rr" and "rr_scan (rr_nodes rr) 0 0 None = (ns, tw, b)"
  shows "sint tw = sum_list (map uint ws) \<longleftrightarrow> sum_list (map uint ws) \<le> 32767"
proof -
  let ?W = "sum_list (map uint ws)"
  have len: "length ws \<le> 255" using assms(2) by (simp add: rr_new_def split: if_splits)
  have "map (\<lambda>p. (ucast (rr_ew p) :: i16)) (rr_nodes rr) = map ucast ws"
    unfolding rr_new_weights [OF assms(2,1), symmetric] by simp
  then have tw: "tw = i16_of ?W"
    using rr_scan_tw [OF assms(3)] by (simp add: sum_list_i16)
  have nn: "0 \<le> ?W" by (simp add: sum_list_uint)
  show ?thesis
  proof
    assume "sint tw = ?W"
    moreover have "sint tw < 2 ^ 15" using sint_lt [of tw] by simp
    ultimately show "?W \<le> 32767" by simp
  next
    assume "?W \<le> 32767"
    then show "sint tw = ?W" using nn by (simp add: tw sint_i16_of in_i16_def)
  qed
qed

theorem rr_total_weight_i16_witness:
  "\<exists>rr. rr_new (replicate 129 255) = Inr rr \<and>
        sint (fst (snd (rr_scan (rr_nodes rr) 0 0 None))) \<noteq> sum_list (map uint (replicate 129 (255 :: u8)))"
proof -
  obtain rr where rr: "rr_new (replicate 129 255) = Inr rr"
    using rr_new_abs [of "replicate 129 255"] by auto
  obtain ns tw b where sc: "rr_scan (rr_nodes rr) 0 0 None = (ns, tw, b)"
    by (cases "rr_scan (rr_nodes rr) 0 0 None")
  have "sum_list (map uint (replicate 129 (255 :: u8))) = 32895"
    by (simp add: sum_list_replicate)
  with rr_total_weight_i16 [OF _ rr sc] rr sc show ?thesis by auto
qed

end
