(* ===== verification/Balancer.thy ===== *)
theory Balancer
  imports Ip_Hash Round_Robin
begin

text \<open>
  The combined balancer of \<^verbatim>\<open>hoorayhug_lb/src/balancer.rs\<close>: the strategies and their names, the
  dispatch of construction and selection, and the configuration syntax
  \<^verbatim>\<open>$strategy: $weight1, $weight2, ...\<close>. \<open>srt\<close> is the unstable sort of the IP-hash ring and
  \<open>addr\<close> the address of the octet buffer of a lookup (see \<open>Ip_Hash\<close>).
\<close>

section \<open>Strategies\<close>

datatype strategy = StrategyOff | StrategyIpHash | StrategyRoundRobin

definition strategy_from :: "string \<Rightarrow> strategy checked" where
  "strategy_from s =
     (if s = ''off'' then Inr StrategyOff
      else if s = ''iphash'' then Inr StrategyIpHash
      else if s = ''roundrobin'' then Inr StrategyRoundRobin
      else Inl (Panic (''unknown strategy: '' @ s)))"

fun strategy_show :: "strategy \<Rightarrow> string" where
  "strategy_show StrategyOff = ''off''"
| "strategy_show StrategyIpHash = ''iphash''"
| "strategy_show StrategyRoundRobin = ''roundrobin''"

lemma strategy_from_show [simp]: "strategy_from (strategy_show s) = Inr s"
  by (cases s) (simp_all add: strategy_from_def)

lemma strategy_show_chars: "c \<in> set (strategy_show s) \<Longrightarrow> \<not> is_ws c \<and> c \<noteq> CHR '':''"
  by (cases s) (auto simp: is_ws_def)

section \<open>The balancer\<close>

datatype balancer = BalOff | BalIpHash ip_hash | BalRoundRobin round_robin

definition balancer_default :: balancer where [simp]:
  "balancer_default = BalOff"

definition balancer_new :: "(ip_node list \<Rightarrow> ip_node list) \<Rightarrow> strategy \<Rightarrow> u8 list \<Rightarrow> balancer checked" where
  "balancer_new srt st weights =
     (case st of
        StrategyOff \<Rightarrow> Inr BalOff
      | StrategyIpHash \<Rightarrow> bind_sum (iphash_new srt weights) (Inr \<circ> BalIpHash)
      | StrategyRoundRobin \<Rightarrow> bind_sum (rr_new weights) (Inr \<circ> BalRoundRobin))"

fun balancer_strategy :: "balancer \<Rightarrow> strategy" where
  "balancer_strategy BalOff = StrategyOff"
| "balancer_strategy (BalIpHash _) = StrategyIpHash"
| "balancer_strategy (BalRoundRobin _) = StrategyRoundRobin"

fun balancer_total :: "balancer \<Rightarrow> u8" where
  "balancer_total BalOff = 0"
| "balancer_total (BalIpHash ih) = ih_total ih"
| "balancer_total (BalRoundRobin rr) = rr_total rr"

text \<open>The context of a selection: the address of the octet buffer and the client's IP.\<close>

fun balancer_next :: "nat \<times> ip_addr \<Rightarrow> balancer \<Rightarrow> token option \<times> balancer" where
  "balancer_next ctx BalOff = (Some (Token 0), BalOff)"
| "balancer_next ctx (BalIpHash ih) = (iphash_next (fst ctx) (snd ctx) ih, BalIpHash ih)"
| "balancer_next ctx (BalRoundRobin rr) = (let (t, rr') = rr_next rr in (t, BalRoundRobin rr'))"

definition parse_weights :: "string \<Rightarrow> u8 list" where
  "parse_weights s =
     map of_nat (List.map_filter (\<lambda>p. parse_uint 256 (trim p)) (split_on CHR '','' (trim s)))"

definition parse_from_str :: "(ip_node list \<Rightarrow> ip_node list) \<Rightarrow> string \<Rightarrow> balancer checked" where
  "parse_from_str srt s =
     (case split_once CHR '':'' s of
        None \<Rightarrow> Inl (Panic ''called Option::unwrap() on a None value'')
      | Some (st, ws) \<Rightarrow>
          bind_sum (strategy_from (trim st)) (\<lambda>st. balancer_new srt st (parse_weights ws)))"

fun balancer_inv :: "balancer \<Rightarrow> bool" where
  "balancer_inv BalOff \<longleftrightarrow> True"
| "balancer_inv (BalIpHash ih) \<longleftrightarrow> iphash_inv ih"
| "balancer_inv (BalRoundRobin rr) \<longleftrightarrow> rr_inv rr"

lemma balancer_next_contract:
  assumes "balancer_inv b" and "balancer_next ctx b = (r, b')"
  shows "(\<exists>t. r = Some (Token t) \<and> unat t < peer_bound (balancer_total b)) \<and>
         balancer_inv b' \<and> balancer_total b' = balancer_total b"
proof (cases b)
  case BalOff
  with assms show ?thesis by auto
next
  case (BalIpHash ih)
  with assms show ?thesis using iphash_next_contract [of ih "fst ctx" "snd ctx"] by auto
next
  case (BalRoundRobin rr)
  obtain t rr' where n: "rr_next rr = (t, rr')" by (cases "rr_next rr")
  with BalRoundRobin assms show ?thesis using rr_next_contract [OF _ n] by auto
qed

interpretation bal: balance balancer_inv balancer_total balancer_next
  using balancer_next_contract by unfold_locales blast+

lemma balancer_new_inv:
  assumes "unstable_sort srt" and "balancer_new srt st ws = Inr b"
  shows "balancer_inv b \<and> balancer_strategy b = st \<and> unat (balancer_total b) = (if st = StrategyOff then 0 else length ws)"
  using assms iphash_new_inv [OF assms(1)] iphash_new_total rr_new_inv
  by (auto simp: balancer_new_def bind_sum_Inr_iff split: strategy.splits)

section \<open>The weight syntax\<close>

definition weight_pieces :: "string list \<Rightarrow> nat list" where
  "weight_pieces ps = List.map_filter (\<lambda>p. parse_uint 256 (trim p)) ps"

lemma weight_pieces_simps [simp]:
  "weight_pieces [] = []"
  "weight_pieces (p # ps) = (case parse_uint 256 (trim p) of None \<Rightarrow> weight_pieces ps | Some n \<Rightarrow> n # weight_pieces ps)"
  "weight_pieces (ps @ qs) = weight_pieces ps @ weight_pieces qs"
proof -
  show "weight_pieces (ps @ qs) = weight_pieces ps @ weight_pieces qs"
    by (induction ps) (simp_all add: weight_pieces_def map_filter_simps split: option.splits)
qed (simp_all add: weight_pieces_def map_filter_simps split: option.split)

lemma trim_snoc_ws: "is_ws x \<Longrightarrow> trim (p @ [x]) = trim p"
proof (cases "\<exists>y\<in>set p. \<not> is_ws y")
  case True
  assume "is_ws x"
  with True show ?thesis by (auto simp: trim_def dropWhile_append1)
next
  case False
  assume x: "is_ws x"
  have d: "dropWhile is_ws p = []" using False by simp
  have "dropWhile is_ws (p @ [x]) = []" using False x by auto
  with d show ?thesis by (simp only: trim_def)
qed

lemma split_on_snoc:
  "split_on c (s @ [x]) =
     (if x = c then split_on c s @ [[]] else butlast (split_on c s) @ [last (split_on c s) @ [x]])"
  by (induction s) (auto split: list.splits)

lemma weight_pieces_Cons_ws: "is_ws x \<Longrightarrow> weight_pieces (split_on CHR '','' (x # s)) = weight_pieces (split_on CHR '','' s)"
  by (cases "split_on CHR '','' s") (auto simp: is_ws_def)

lemma weight_pieces_snoc_ws:
  assumes "is_ws x"
  shows "weight_pieces (split_on CHR '','' (s @ [x])) = weight_pieces (split_on CHR '','' s)"
proof -
  let ?ps = "split_on CHR '','' s"
  have "x \<noteq> CHR '',''" using assms by (auto simp: is_ws_def)
  then have "weight_pieces (split_on CHR '','' (s @ [x])) = weight_pieces (butlast ?ps) @ weight_pieces [last ?ps @ [x]]"
    by (simp only: split_on_snoc weight_pieces_simps(3) if_False)
  also have "weight_pieces [last ?ps @ [x]] = weight_pieces [last ?ps]"
    using trim_snoc_ws [OF assms] by simp
  also have "weight_pieces (butlast ?ps) @ weight_pieces [last ?ps] = weight_pieces ?ps"
    unfolding weight_pieces_simps(3) [symmetric] by simp
  finally show ?thesis .
qed

lemma weight_pieces_dropWhile:
  "weight_pieces (split_on CHR '','' (dropWhile is_ws s)) = weight_pieces (split_on CHR '','' s)"
  by (induction s) (simp_all add: weight_pieces_Cons_ws del: split_on.simps)

lemma weight_pieces_trim: "weight_pieces (split_on CHR '','' (trim s)) = weight_pieces (split_on CHR '','' s)"
proof -
  have "weight_pieces (split_on CHR '','' (rev (dropWhile is_ws r))) = weight_pieces (split_on CHR '','' (rev r))" for r
    by (induction r) (simp_all add: weight_pieces_snoc_ws del: split_on.simps)
  from this [of "rev (dropWhile is_ws s)"] show ?thesis
    by (simp add: trim_def weight_pieces_dropWhile)
qed

definition show_weights :: "u8 list \<Rightarrow> string" where
  "show_weights ws = concat (map (\<lambda>w. show_nat (unat w) @ '', '') ws)"

lemma weight_pieces_show: "weight_pieces (split_on CHR '','' (show_weights ws)) = map unat ws"
proof (induction ws)
  case Nil
  then show ?case by (simp add: show_weights_def parse_uint_def trim_def)
next
  case (Cons w ws)
  have nc: "CHR '','' \<notin> set (show_nat (unat w))" by (rule show_nat_no_nondigit) (simp add: is_digit_def)
  have w: "unat w < 256" using unsigned_less [of w] by simp
  have "show_weights (w # ws) = show_nat (unat w) @ CHR '','' # CHR '' '' # show_weights ws"
    by (simp add: show_weights_def)
  then have "split_on CHR '','' (show_weights (w # ws)) = show_nat (unat w) # split_on CHR '','' (CHR '' '' # show_weights ws)"
    using split_on_append_sep [OF nc] by simp
  moreover have "is_ws CHR '' ''" by (simp add: is_ws_def)
  ultimately show ?case
    using Cons w by (simp add: weight_pieces_Cons_ws parse_show_nat del: split_on.simps)
qed

lemma parse_weights_show: "parse_weights (CHR '' '' # show_weights ws) = ws"
proof -
  have "is_ws CHR '' ''" by (simp add: is_ws_def)
  then have "weight_pieces (split_on CHR '','' (trim (CHR '' '' # show_weights ws))) = map unat ws"
    by (simp only: weight_pieces_trim weight_pieces_Cons_ws weight_pieces_show)
  then show ?thesis by (simp add: parse_weights_def comp_def flip: weight_pieces_def)
qed

section \<open>Properties\<close>

text \<open>
  C5: Parsing a printed balancer description gives back the strategy and the weights: for every
  strategy and weight list, the string the unit test builds parses to exactly the balancer
  that the constructor builds from them.
\<close>
theorem parse_from_str_show:
  "parse_from_str srt (strategy_show st @ '': '' @ show_weights ws) = balancer_new srt st ws"
proof -
  have nc: "CHR '':'' \<notin> set (strategy_show st)" using strategy_show_chars [of _ st] by blast
  have t: "trim (strategy_show st) = strategy_show st"
    using strategy_show_chars [of _ st] by (intro trim_id) blast
  have "strategy_show st @ '': '' @ show_weights ws = strategy_show st @ CHR '':'' # CHR '' '' # show_weights ws"
    by simp
  then show ?thesis
    by (simp only: parse_from_str_def split_once_append [OF nc] option.case prod.case t
        strategy_from_show bind_sum_simps parse_weights_show)
qed

text \<open>
  C4: A balancer that was built never fails to name a peer: over any sequence of connections,
  every selection returns a token below the number of weights (token 0 when there are none),
  for all three strategies and whatever the round robin's arithmetic does.
\<close>
theorem balancer_tokens_in_range:
  assumes "unstable_sort srt" and "balancer_new srt st ws = Inr b"
    and "bal.calls ctxs b = (rs, b')" and "r \<in> set rs"
  shows "\<exists>t. r = Some (Token t) \<and> unat t < max 1 (length ws)"
proof -
  have b: "balancer_inv b" "unat (balancer_total b) \<le> length ws"
    using balancer_new_inv [OF assms(1,2)] by simp_all
  obtain t where "r = Some (Token t)" "unat t < peer_bound (balancer_total b)"
    using bal.calls_tokens [OF b(1) assms(3,4)] by blast
  with b(2) show ?thesis by (auto simp: peer_bound_def)
qed

theorem balancer_tokens_in_range_witness:
  "\<exists>b t. balancer_new (sort_key in_hash) StrategyRoundRobin [200, 100] = Inr b \<and>
     fst (bal.calls [(0, IpV4 1)] b) = [Some (Token t)] \<and> unat t < 2"
proof -
  have "\<exists>b. balancer_new (sort_key in_hash) StrategyRoundRobin [200, 100] = Inr b"
    by (simp add: balancer_new_def rr_new_def)
  then obtain b where b: "balancer_new (sort_key in_hash) StrategyRoundRobin [200, 100] = Inr b" by blast
  obtain r b' where c: "bal.calls [(0, IpV4 1)] b = ([r], b')"
    by (simp add: case_prod_beta)
  have "\<exists>t. r = Some (Token t) \<and> unat t < max 1 (length [200, 100 :: u8])"
    by (rule balancer_tokens_in_range [OF stable_sort.unstable_sort_axioms b c]) simp
  with b c show ?thesis by auto
qed

end
