(* ===== verification/Endpoint.thy ===== *)
theory Endpoint
  imports Net_Addr Proxy Balancer
begin

text \<open>
  The description of a relay, \<^verbatim>\<open>hoorayhug_core/src/endpoint.rs\<close>, and its printed form. The acceptor and
  connector of the transport come from the crate kaminari: of them there are the variants that the code matches on, with
  opaque contents; their printing is a parameter.
\<close>

typedecl plain_accept
typedecl ws_accept
typedecl tls_accept
typedecl wss_accept
typedecl plain_connect
typedecl ws_connect
typedecl tls_connect
typedecl wss_connect

datatype mix_accept = PlainAc plain_accept | WsAc ws_accept | TlsAc tls_accept | WssAc wss_accept
datatype mix_connect = PlainCc plain_connect | WsCc ws_connect | TlsCc tls_connect | WssCc wss_connect

record connect_opts =
  co_send_mptcp :: bool
  co_connect_timeout :: nat
  co_associate_timeout :: nat
  co_tcp_keepalive :: nat
  co_tcp_keepalive_probe :: nat
  co_bind_address :: "sock_addr option"
  co_bind_interface :: "string option"
  co_obfs :: string
  co_proxy_opts :: proxy_opts
  co_transport :: "(mix_accept \<times> mix_connect) option"
  co_balancer :: balancer

record bind_opts =
  bo_ipv6_only :: bool
  bo_accept_mptcp :: bool
  bo_bind_interface :: "string option"

record endpoint =
  ep_laddr :: sock_addr
  ep_raddr :: remote_addr
  ep_bind_opts :: bind_opts
  ep_conn_opts :: connect_opts
  ep_extra_raddrs :: "remote_addr list"

definition show_bind_opts :: "bind_opts \<Rightarrow> string" where
  "show_bind_opts o1 =
     (case bo_bind_interface o1 of Some iface \<Rightarrow> ''listen-iface='' @ iface @ '', '' | None \<Rightarrow> '''')
     @ ''ipv6-only='' @ show_bool (bo_ipv6_only o1) @ '', ''
     @ ''accept-mptcp='' @ show_bool (bo_accept_mptcp o1)"

definition show_connect_opts ::
  "(mix_accept \<Rightarrow> string) \<Rightarrow> (mix_connect \<Rightarrow> string) \<Rightarrow> connect_opts \<Rightarrow> string" where
  "show_connect_opts show_ac show_cc o1 =
     (case co_bind_interface o1 of Some iface \<Rightarrow> ''send-iface='' @ iface @ '', '' | None \<Rightarrow> '''')
     @ (case co_bind_address o1 of Some a \<Rightarrow> ''send-through='' @ show_sock a @ '', '' | None \<Rightarrow> '''')
     @ (if co_obfs o1 \<noteq> [] then ''obfs='' @ co_obfs o1 @ '', '' else '''')
     @ ''send-mptcp='' @ show_bool (co_send_mptcp o1) @ ''; ''
     @ (let p = co_proxy_opts o1 in
        ''send-proxy='' @ show_bool (send_proxy p) @ '', send-proxy-version='' @ show_nat (send_proxy_version p)
        @ '', accept-proxy='' @ show_bool (accept_proxy p)
        @ '', accept-proxy-timeout='' @ show_nat (accept_proxy_timeout p) @ ''s; '')
     @ ''tcp-keepalive='' @ show_nat (co_tcp_keepalive o1) @ ''s['' @ show_nat (co_tcp_keepalive_probe o1)
     @ ''] connect-timeout='' @ show_nat (co_connect_timeout o1)
     @ ''s, associate-timeout='' @ show_nat (co_associate_timeout o1) @ ''s; ''
     @ (case co_transport o1 of
          Some (ac, cc) \<Rightarrow> ''transport='' @ show_ac ac @ ''||'' @ show_cc cc @ ''; ''
        | None \<Rightarrow> '''')
     @ ''balance='' @ strategy_show (balancer_strategy (co_balancer o1))"

definition show_endpoint ::
  "(mix_accept \<Rightarrow> string) \<Rightarrow> (mix_connect \<Rightarrow> string) \<Rightarrow> endpoint \<Rightarrow> string" where
  "show_endpoint show_ac show_cc e =
     show_sock (ep_laddr e) @ '' -> ['' @ show_remote (ep_raddr e)
     @ concat (map (\<lambda>r. ''|'' @ show_remote r) (ep_extra_raddrs e))
     @ '']; options: '' @ show_bind_opts (ep_bind_opts e)
     @ ''; '' @ show_connect_opts show_ac show_cc (ep_conn_opts e)"

end
