(* ===== verification/Dns.thy ===== *)
theory Dns
  imports Net_Addr
begin

text \<open>
  The global resolver of \<^verbatim>\<open>hoorayhug_core/src/dns/mod.rs\<close>. The resolver crate is a parameter: its
  configuration types \<open>'c\<close> and \<open>'o\<close>, the system's default configuration, and \<open>lookup\<close>, what a resolver
  with a given configuration answers for a name. The state is the once-cell \<^verbatim>\<open>DNS_CONF\<close> and the lazy
  static \<^verbatim>\<open>DNS\<close>.
\<close>

record ('c, 'o) dns_conf =
  dns_config :: 'c
  dns_opts :: 'o

record ('c, 'o) dns_state =
  ds_conf :: "('c, 'o) dns_conf option"
  ds_resolver :: "('c, 'o) dns_conf option"

definition dns_start :: "('c, 'o) dns_state" where
  "dns_start = \<lparr>ds_conf = None, ds_resolver = None\<rparr>"

text \<open>
  The default configuration is the system's, or when that cannot be read the crate's own.
\<close>

definition dns_conf_default :: "'e + 'c \<times> 'o \<Rightarrow> 'c \<times> 'o \<Rightarrow> ('c, 'o) dns_conf" where
  "dns_conf_default system_conf defaults =
     (let (conf, opts) = (case system_conf of Inr c \<Rightarrow> c | Inl _ \<Rightarrow> defaults)
      in \<lparr>dns_config = conf, dns_opts = opts\<rparr>)"

definition force_init :: "('c, 'o) dns_state \<Rightarrow> ('c, 'o) dns_state checked" where
  "force_init s =
     (case ds_resolver s of
        Some _ \<Rightarrow> Inr s
      | None \<Rightarrow>
          (case ds_conf s of
             None \<Rightarrow> Inl (Panic ''DNS_CONF.take().unwrap()'')
           | Some c \<Rightarrow> Inr (s\<lparr>ds_conf := None, ds_resolver := Some c\<rparr>)))"

definition build_lazy ::
  "('c, 'o) dns_conf \<Rightarrow> 'c option \<Rightarrow> 'o option \<Rightarrow> ('c, 'o) dns_state \<Rightarrow> ('c, 'o) dns_state checked" where
  "build_lazy sys conf opts s =
     (let dns_conf = sys;
          dns_conf = (case conf of Some c \<Rightarrow> dns_conf\<lparr>dns_config := c\<rparr> | None \<Rightarrow> dns_conf);
          dns_conf = (case opts of Some x \<Rightarrow> dns_conf\<lparr>dns_opts := x\<rparr> | None \<Rightarrow> dns_conf)
      in case ds_conf s of
           Some _ \<Rightarrow> Inl (Panic ''DNS_CONF.set().unwrap()'')
         | None \<Rightarrow> Inr (s\<lparr>ds_conf := Some dns_conf\<rparr>))"

definition dns_build ::
  "('c, 'o) dns_conf \<Rightarrow> 'c option \<Rightarrow> 'o option \<Rightarrow> ('c, 'o) dns_state \<Rightarrow> ('c, 'o) dns_state checked" where
  "dns_build sys conf opts s = bind_sum (build_lazy sys conf opts s) force_init"

text \<open>Using the lazy static forces it.\<close>

definition resolve_ip ::
  "(('c, 'o) dns_conf \<Rightarrow> string \<Rightarrow> string + ip_addr list) \<Rightarrow> string \<Rightarrow> ('c, 'o) dns_state
     \<Rightarrow> (ip_addr list io_result \<times> ('c, 'o) dns_state) checked" where
  "resolve_ip lookup name s =
     bind_sum (force_init s) (\<lambda>s'.
       case ds_resolver s' of
         None \<Rightarrow> Inl (Panic ''unreachable'')
       | Some c \<Rightarrow> Inr (case lookup c name of Inl e \<Rightarrow> Inl (OtherError e) | Inr ips \<Rightarrow> Inr ips, s'))"

datatype lookup_remote_addr = NoLookup sock_addr | DoLookup "ip_addr list" u16

definition resolve_addr ::
  "(('c, 'o) dns_conf \<Rightarrow> string \<Rightarrow> string + ip_addr list) \<Rightarrow> remote_addr \<Rightarrow> ('c, 'o) dns_state
     \<Rightarrow> (lookup_remote_addr io_result \<times> ('c, 'o) dns_state) checked" where
  "resolve_addr lookup addr s =
     (case addr of
        RemoteSock a \<Rightarrow> Inr (Inr (NoLookup a), s)
      | DomainName name port \<Rightarrow>
          bind_sum (resolve_ip lookup name s) (\<lambda>(r, s').
            Inr (case r of Inl e \<Rightarrow> Inl e | Inr ips \<Rightarrow> Inr (DoLookup ips port), s')))"

text \<open>The iterator: its state and one step.\<close>

datatype lookup_iter = IterNoLookup "sock_addr option" | IterDoLookup "ip_addr list" u16

fun iter_of :: "lookup_remote_addr \<Rightarrow> lookup_iter" where
  "iter_of (NoLookup a) = IterNoLookup (Some a)"
| "iter_of (DoLookup ips port) = IterDoLookup ips port"

fun iter_next :: "lookup_iter \<Rightarrow> sock_addr option \<times> lookup_iter" where
  "iter_next (IterNoLookup (Some a)) = (Some a, IterNoLookup None)"
| "iter_next (IterNoLookup None) = (None, IterNoLookup None)"
| "iter_next (IterDoLookup (ip # ips) port) = (Some (sock_new ip port), IterDoLookup ips port)"
| "iter_next (IterDoLookup [] port) = (None, IterDoLookup [] port)"

text \<open>Running the iterator to its end, as a \<^verbatim>\<open>for\<close> loop does.\<close>

fun iter_size :: "lookup_iter \<Rightarrow> nat" where
  "iter_size (IterNoLookup (Some a)) = 1"
| "iter_size (IterNoLookup None) = 0"
| "iter_size (IterDoLookup ips port) = length ips"

lemma iter_next_size: "iter_next it = (Some a, it') \<Longrightarrow> iter_size it' < iter_size it"
  by (cases it rule: iter_next.cases) auto

function iter_collect :: "lookup_iter \<Rightarrow> sock_addr list" where
  "iter_collect it = (case iter_next it of (None, it') \<Rightarrow> [] | (Some a, it') \<Rightarrow> a # iter_collect it')"
  by pat_completeness auto
termination by (relation "measure iter_size") (auto intro: iter_next_size [OF sym])

declare iter_collect.simps [simp del]

lemma iter_collect_NoLookup: "iter_collect (IterNoLookup x) = (case x of Some a \<Rightarrow> [a] | None \<Rightarrow> [])"
  by (cases x) (simp_all add: iter_collect.simps)

lemma iter_collect_DoLookup: "iter_collect (IterDoLookup ips port) = map (\<lambda>ip. sock_new ip port) ips"
  by (induction ips) (simp_all add: iter_collect.simps)

section \<open>Properties\<close>

text \<open>The addresses that the loop over a lookup's answer goes through.\<close>

definition addrs_tried ::
  "(('c, 'o) dns_conf \<Rightarrow> string \<Rightarrow> string + ip_addr list) \<Rightarrow> remote_addr \<Rightarrow> ('c, 'o) dns_state
     \<Rightarrow> (sock_addr list io_result \<times> ('c, 'o) dns_state) checked" where
  "addrs_tried lookup addr s =
     bind_sum (resolve_addr lookup addr s) (\<lambda>(r, s').
       Inr (case r of Inl e \<Rightarrow> Inl e | Inr l \<Rightarrow> Inr (iter_collect (iter_of l)), s'))"

lemma addrs_tried_sock: "addrs_tried lookup (RemoteSock a) t = Inr (Inr [a], t)"
  by (simp add: addrs_tried_def resolve_addr_def iter_collect_NoLookup)

lemma addrs_tried_name:
  assumes "force_init t = Inr t'" "ds_resolver t' = Some c"
  shows "addrs_tried lookup (DomainName name port) t =
    Inr (case lookup c name of Inl e \<Rightarrow> Inl (OtherError e) | Inr ips \<Rightarrow> Inr (map (\<lambda>ip. sock_new ip port) ips), t')"
  using assms by (simp add: addrs_tried_def resolve_addr_def resolve_ip_def iter_collect_DoLookup split: sum.split)

text \<open>
  C33: The life of the global resolver, and the addresses that are tried. The first \<open>build_lazy\<close> works, and the
  resolver is made from its configuration, by \<open>build\<close> or by the first name that is looked up (a second \<open>build\<close> before that panics).
  From then on a domain name gives, in every state, one address per answer of that resolver, in its order and
  with the name's port, or else its error: a second \<open>build\<close> works, but has no effect on the answers, and a third one panics,
  as nobody has taken the second's configuration. A socket address gives itself, in any state, without the resolver.
\<close>
theorem resolve_first_build:
  "\<exists>s0 s1 s2. build_lazy sys conf opts dns_start = Inr s0 \<and> dns_build sys conf opts dns_start = Inr s1 \<and>
     dns_build sys' conf' opts' s0 = Inl (Panic ''DNS_CONF.set().unwrap()'') \<and>
     dns_build sys' conf' opts' s1 = Inr s2 \<and>
     dns_build sys'' conf'' opts'' s2 = Inl (Panic ''DNS_CONF.set().unwrap()'') \<and>
     (let answer = (case lookup \<lparr>dns_config = (case conf of Some c \<Rightarrow> c | None \<Rightarrow> dns_config sys),
                                 dns_opts = (case opts of Some x \<Rightarrow> x | None \<Rightarrow> dns_opts sys)\<rparr> name of
                      Inr ips \<Rightarrow> Inr (map (\<lambda>ip. sock_new ip port) ips) | Inl e \<Rightarrow> Inl (OtherError e))
      in addrs_tried lookup (DomainName name port) s0 = Inr (answer, s1) \<and>
         addrs_tried lookup (DomainName name port) s1 = Inr (answer, s1) \<and>
         addrs_tried lookup (DomainName name port) s2 = Inr (answer, s2)) \<and>
     addrs_tried lookup (RemoteSock a) t = Inr (Inr [a], t)"
proof -
  let ?c = "\<lparr>dns_config = (case conf of Some c \<Rightarrow> c | None \<Rightarrow> dns_config sys),
      dns_opts = (case opts of Some x \<Rightarrow> x | None \<Rightarrow> dns_opts sys)\<rparr>"
  let ?c' = "\<lparr>dns_config = (case conf' of Some c \<Rightarrow> c | None \<Rightarrow> dns_config sys'),
      dns_opts = (case opts' of Some x \<Rightarrow> x | None \<Rightarrow> dns_opts sys')\<rparr>"
  let ?s0 = "\<lparr>ds_conf = Some ?c, ds_resolver = None\<rparr>"
  let ?s1 = "\<lparr>ds_conf = None, ds_resolver = Some ?c\<rparr>"
  let ?s2 = "\<lparr>ds_conf = Some ?c', ds_resolver = Some ?c\<rparr>"
  have b0: "build_lazy sys conf opts dns_start = Inr ?s0"
    by (simp add: build_lazy_def dns_start_def split: option.split)
  have f: "force_init ?s0 = Inr ?s1" "force_init ?s1 = Inr ?s1" "force_init ?s2 = Inr ?s2" by (simp_all add: force_init_def)
  have b1: "dns_build sys conf opts dns_start = Inr ?s1" by (simp add: dns_build_def b0 f)
  have "build_lazy sys' conf' opts' ?s1 = Inr ?s2" by (simp add: build_lazy_def split: option.split)
  then have b2: "dns_build sys' conf' opts' ?s1 = Inr ?s2" by (simp add: dns_build_def f)
  have b3: "dns_build sys' conf' opts' ?s0 = Inl (Panic ''DNS_CONF.set().unwrap()'')"
    "dns_build sys'' conf'' opts'' ?s2 = Inl (Panic ''DNS_CONF.set().unwrap()'')"
    by (simp_all add: dns_build_def build_lazy_def)
  show ?thesis
    by (rule exI [of _ ?s0], rule exI [of _ ?s1], rule exI [of _ ?s2])
       (simp add: b0 b1 b2 b3 f addrs_tried_sock addrs_tried_name Let_def split: sum.split)
qed

text \<open>Two builds with different configurations: the first one answers.\<close>

theorem resolve_first_build_example:
  "\<exists>s1 s2. dns_build \<lparr>dns_config = 0 :: nat, dns_opts = ()\<rparr> (Some 1) None dns_start = Inr s1 \<and>
     dns_build \<lparr>dns_config = 0, dns_opts = ()\<rparr> (Some 2) None s1 = Inr s2 \<and>
     addrs_tried (\<lambda>c _. if dns_config c = 1 then Inr [IpV4 5] else Inl ''none'') (DomainName ''h'' 80) s2
       = Inr (Inr [SockV4 5 80], s2)"
  by (simp add: dns_build_def build_lazy_def force_init_def dns_start_def addrs_tried_def resolve_addr_def resolve_ip_def
      iter_collect_DoLookup)

end
