(* ===== verification/Copy_Buffer.thy ===== *)
theory Copy_Buffer
  imports Stream_IO "HOL-Library.Sublist"
begin

text \<open>
  The copying loop of \<^verbatim>\<open>hoorayhug_io/src/buf.rs\<close>: the state \<^verbatim>\<open>CopyBuffer\<close>, the loop \<^verbatim>\<open>poll_copy\<close>
  over the operations of the \<^verbatim>\<open>AsyncIOBuf\<close> trait, and the trait's contract as the locale
  \<open>async_io_buf\<close>. The loop has fuel: running out of it is the outcome \<open>None\<close>. With an honest writer
  \<open>rd_bytes r + length (wr_evs w) + 2\<close> is enough (\<open>poll_copy_returns\<close>); with a writer that reports more
  than it was given no fuel is (\<open>poll_copy_spins\<close>).
\<close>

section \<open>The code\<close>

record 'b copy_buffer =
  cb_read_done :: bool
  cb_need_flush :: bool
  cb_pos :: nat
  cb_cap :: nat
  cb_amt :: nat
  cb_buf :: 'b

definition copy_buffer_new :: "'b \<Rightarrow> 'b copy_buffer" where
  "copy_buffer_new b =
     \<lparr>cb_read_done = False, cb_need_flush = False, cb_pos = 0, cb_cap = 0, cb_amt = 0, cb_buf = b\<rparr>"

type_synonym 'b buf_op = "'b copy_buffer \<Rightarrow> stream \<Rightarrow> nat io_result poll \<times> 'b copy_buffer \<times> stream"

text \<open>
  The outcome of one phase of the loop: leave \<open>poll_copy\<close> with a result, or go on.
\<close>

datatype 'a phase = Leave 'a | GoOn

definition read_phase ::
  "'b buf_op \<Rightarrow> 'b copy_buffer \<Rightarrow> stream \<Rightarrow> stream
     \<Rightarrow> nat io_result poll phase \<times> 'b copy_buffer \<times> stream \<times> stream" where
  "read_phase rd cb r w =
     (if cb_pos cb = cb_cap cb \<and> \<not> cb_read_done cb
      then case rd cb r of
             (Ready (Inr n), cb', r') \<Rightarrow>
               (GoOn, if n = 0 then cb'\<lparr>cb_read_done := True\<rparr> else cb'\<lparr>cb_pos := 0, cb_cap := n\<rparr>, r', w)
           | (Ready (Inl e), cb', r') \<Rightarrow> (Leave (Ready (Inl e)), cb', r', w)
           | (Pending, cb', r') \<Rightarrow>
               if cb_need_flush cb'
               then case poll_flush w of
                      (Pending, w') \<Rightarrow> (Leave Pending, cb', r', w')
                    | (Ready (Inl e), w') \<Rightarrow> (Leave (Ready (Inl e)), cb', r', w')
                    | (Ready (Inr _), w') \<Rightarrow> (Leave Pending, cb'\<lparr>cb_need_flush := False\<rparr>, r', w')
               else (Leave Pending, cb', r', w)
      else (GoOn, cb, r, w))"

fun write_loop ::
  "nat \<Rightarrow> 'b buf_op \<Rightarrow> 'b copy_buffer \<Rightarrow> stream
     \<Rightarrow> (nat io_result poll phase \<times> 'b copy_buffer \<times> stream) option" where
  "write_loop 0 wr cb w = None"
| "write_loop (Suc fuel) wr cb w =
     (if cb_pos cb < cb_cap cb
      then case wr cb w of
             (Pending, cb', w') \<Rightarrow> Some (Leave Pending, cb', w')
           | (Ready (Inl e), cb', w') \<Rightarrow> Some (Leave (Ready (Inl e)), cb', w')
           | (Ready (Inr i), cb', w') \<Rightarrow>
               if i = 0 then Some (Leave (Ready (Inl WriteZero)), cb', w')
               else write_loop fuel wr
                      (cb'\<lparr>cb_pos := cb_pos cb' + i, cb_amt := cb_amt cb' + i, cb_need_flush := True\<rparr>) w'
      else Some (GoOn, cb, w))"

definition finish_phase ::
  "'b copy_buffer \<Rightarrow> stream \<Rightarrow> nat io_result poll phase \<times> stream" where
  "finish_phase cb w =
     (if cb_pos cb = cb_cap cb \<and> cb_read_done cb
      then case poll_flush w of
             (Pending, w') \<Rightarrow> (Leave Pending, w')
           | (Ready (Inl e), w') \<Rightarrow> (Leave (Ready (Inl e)), w')
           | (Ready (Inr _), w') \<Rightarrow> (Leave (Ready (Inr (cb_amt cb))), w')
      else (GoOn, w))"

fun poll_copy ::
  "nat \<Rightarrow> 'b buf_op \<Rightarrow> 'b buf_op \<Rightarrow> 'b copy_buffer \<Rightarrow> stream \<Rightarrow> stream
     \<Rightarrow> (nat io_result poll \<times> 'b copy_buffer \<times> stream \<times> stream) option" where
  "poll_copy 0 rd wr cb r w = None"
| "poll_copy (Suc fuel) rd wr cb r w =
     (case read_phase rd cb r w of
        (Leave p, cb1, r1, w1) \<Rightarrow> Some (p, cb1, r1, w1)
      | (GoOn, cb1, r1, w1) \<Rightarrow>
          (case write_loop fuel wr cb1 w1 of
             None \<Rightarrow> None
           | Some (Leave p, cb2, w2) \<Rightarrow> Some (p, cb2, r1, w2)
           | Some (GoOn, cb2, w2) \<Rightarrow>
               (case finish_phase cb2 w2 of
                  (Leave p, w3) \<Rightarrow> Some (p, cb2, r1, w3)
                | (GoOn, w3) \<Rightarrow> poll_copy fuel rd wr cb2 r1 w3)))"

section \<open>The contract of a buffer\<close>

text \<open>
  \<open>content p c b\<close> is what a buffer \<open>b\<close> with position \<open>p\<close> and capacity \<open>c\<close> still has to write, \<open>enc\<close>
  what reading does to each byte, \<open>bwf\<close> the buffer's own invariant.
\<close>

locale async_io_buf =
  fixes rd wr :: "'b buf_op"
    and content :: "nat \<Rightarrow> nat \<Rightarrow> 'b \<Rightarrow> bytes"
    and bwf :: "nat \<Rightarrow> nat \<Rightarrow> 'b \<Rightarrow> bool"
    and enc :: "u8 \<Rightarrow> u8"
  assumes content_length: "bwf q c b \<Longrightarrow> q \<le> c \<and> length (content q c b) = c - q"
    and rd_frame: "rd cb r = (p, cb', r') \<Longrightarrow> rd_frame r r' \<and> cb' = cb\<lparr>cb_buf := cb_buf cb'\<rparr>"
    and rd_stop: "bwf (cb_pos cb) (cb_cap cb) (cb_buf cb) \<Longrightarrow> cb_pos cb = cb_cap cb \<Longrightarrow> rd cb r = (p, cb', r') \<Longrightarrow>
        (\<And>n. p \<noteq> Ready (Inr n)) \<Longrightarrow> rcvd r' = rcvd r \<and> bwf (cb_pos cb) (cb_cap cb) (cb_buf cb')"
    and rd_data: "bwf (cb_pos cb) (cb_cap cb) (cb_buf cb) \<Longrightarrow> cb_pos cb = cb_cap cb \<Longrightarrow>
        rd cb r = (Ready (Inr n), cb', r') \<Longrightarrow>
        \<exists>bs. rcvd r' = rcvd r @ bs \<and> length bs = n \<and> rd_bytes r = n + rd_bytes r' \<and>
          (n = 0 \<longrightarrow> bwf (cb_pos cb) (cb_cap cb) (cb_buf cb')) \<and>
          (n \<noteq> 0 \<longrightarrow> bwf 0 n (cb_buf cb') \<and> content 0 n (cb_buf cb') = map enc bs)"
    and wr_frame: "wr cb w = (p, cb', w') \<Longrightarrow> wr_frame w w' \<and> cb' = cb\<lparr>cb_buf := cb_buf cb'\<rparr>"
    and wr_stop: "bwf (cb_pos cb) (cb_cap cb) (cb_buf cb) \<Longrightarrow> honest w \<Longrightarrow> wr cb w = (p, cb', w') \<Longrightarrow>
        (\<And>i. p \<noteq> Ready (Inr i)) \<Longrightarrow>
        sent w' = sent w \<and> bwf (cb_pos cb) (cb_cap cb) (cb_buf cb') \<and>
        content (cb_pos cb) (cb_cap cb) (cb_buf cb') = content (cb_pos cb) (cb_cap cb) (cb_buf cb)"
    and wr_data: "bwf (cb_pos cb) (cb_cap cb) (cb_buf cb) \<Longrightarrow> honest w \<Longrightarrow> wr cb w = (Ready (Inr i), cb', w') \<Longrightarrow>
        length (wr_evs w') < length (wr_evs w) \<and>
        sent w' = sent w @ take i (content (cb_pos cb) (cb_cap cb) (cb_buf cb)) \<and>
        i \<le> length (content (cb_pos cb) (cb_cap cb) (cb_buf cb)) \<and>
        bwf (cb_pos cb + i) (cb_cap cb) (cb_buf cb') \<and>
        content (cb_pos cb + i) (cb_cap cb) (cb_buf cb') = drop i (content (cb_pos cb) (cb_cap cb) (cb_buf cb))"
begin

text \<open>
  The bytes that were read, transformed, are the bytes that were written followed by the
  buffer's content: nothing lost, repeated or reordered. \<open>P\<close> is what was written to the stream
  before the copy began and \<open>R\<close> what was read from the other before it.
\<close>

definition cont :: "'b copy_buffer \<Rightarrow> bytes" where
  "cont cb = content (cb_pos cb) (cb_cap cb) (cb_buf cb)"

definition wf :: "'b copy_buffer \<Rightarrow> bool" where
  "wf cb = bwf (cb_pos cb) (cb_cap cb) (cb_buf cb)"

definition copy_inv :: "bytes \<Rightarrow> bytes \<Rightarrow> 'b copy_buffer \<Rightarrow> stream \<Rightarrow> stream \<Rightarrow> bool" where
  "copy_inv R P cb r w \<longleftrightarrow> wf cb \<and> honest w \<and> prefix R (rcvd r) \<and>
     sent w @ cont cb = P @ map enc (drop (length R) (rcvd r)) \<and> length (sent w) = length P + cb_amt cb"

lemma cont_Nil: "wf cb \<Longrightarrow> cont cb = [] \<longleftrightarrow> cb_pos cb = cb_cap cb"
  unfolding cont_def wf_def length_0_conv [symmetric]
  using content_length [of "cb_pos cb" "cb_cap cb" "cb_buf cb"] by linarith

lemma wf_le: "wf cb \<Longrightarrow> cb_pos cb \<le> cb_cap cb"
  unfolding wf_def using content_length by blast

lemma rd_flags:
  assumes "rd cb r = (p, cb', r')"
  obtains b where "cb' = cb\<lparr>cb_buf := b\<rparr>"
  using rd_frame [OF assms] by blast

lemma wr_flags:
  assumes "wr cb w = (p, cb', w')"
  obtains b where "cb' = cb\<lparr>cb_buf := b\<rparr>"
  using wr_frame [OF assms] by blast

lemma copy_inv_same:
  assumes "copy_inv R P cb r w" "cont cb' = cont cb" "wf cb'" "cb_amt cb' = cb_amt cb" "rcvd r' = rcvd r"
    "sent w' = sent w" "honest w'"
  shows "copy_inv R P cb' r' w'"
  using assms(1) unfolding copy_inv_def assms(2,4,5,6) using assms(3,7) by blast

lemma copy_inv_flags:
  "copy_inv R P (cb\<lparr>cb_need_flush := y\<rparr>) r w = copy_inv R P cb r w"
  by (simp add: copy_inv_def cont_def wf_def)

lemma read_phase_inv:
  assumes inv: "copy_inv R P cb r w" and ph: "read_phase rd cb r w = (ph, cb', r', w')"
  shows "copy_inv R P cb' r' w' \<and> rd_frame r r' \<and> wr_frame w w' \<and> (\<forall>n. ph \<noteq> Leave (Ready (Inr n))) \<and>
    (ph = GoOn \<longrightarrow> wr_evs w' = wr_evs w \<and>
       (cb_read_done cb' \<and> rd_bytes r' \<le> rd_bytes r \<or> \<not> cb_read_done cb' \<and> rd_bytes r' < rd_bytes r \<or>
        cb_pos cb' < cb_cap cb' \<and> rd_bytes r' = rd_bytes r))"
proof (cases "cb_pos cb = cb_cap cb \<and> \<not> cb_read_done cb")
  case False
  with ph have "ph = GoOn" "cb' = cb" "r' = r" "w' = w" by (auto simp: read_phase_def split: if_splits)
  then show ?thesis using False inv wf_le [of cb] by (auto simp: copy_inv_def)
next
  case True
  have wf: "wf cb" using inv by (simp add: copy_inv_def)
  note b = wf [unfolded wf_def] and eq = True [THEN conjunct1]
  obtain p cb1 r1 where rd: "rd cb r = (p, cb1, r1)" by (cases "rd cb r")
  have frame: "rd_frame r r1" using rd_frame [OF rd] by simp
  obtain x where cb1: "cb1 = cb\<lparr>cb_buf := x\<rparr>" using rd_flags [OF rd] .
  have stop: "copy_inv R P cb1 r1 w" if "\<And>n. p \<noteq> Ready (Inr n)"
  proof -
    note st = rd_stop [OF b eq rd that]
    have wf1: "wf cb1" using st by (simp add: wf_def cb1)
    have "cont cb1 = cont cb" using cont_Nil [OF wf] cont_Nil [OF wf1] eq by (simp add: cb1)
    with wf1 st inv show ?thesis by (intro copy_inv_same [OF inv]) (simp_all add: cb1 copy_inv_def)
  qed
  have flush: "copy_inv R P cb1 r1 w2 \<and> wr_frame w w2" if "copy_inv R P cb1 r1 w" "poll_flush w = (q, w2)" for q w2
    using poll_flush_wr_frame [OF that(2)] that(1) by (simp add: copy_inv_def wr_frame_def)
  show ?thesis
  proof (cases p)
    case Pending
    then have s: "copy_inv R P cb1 r1 w" by (intro stop) simp
    obtain q w2 where q: "poll_flush w = (q, w2)" by (cases "poll_flush w")
    show ?thesis using ph True rd Pending frame s flush [OF s q] q
      by (auto simp: read_phase_def copy_inv_flags split: if_splits poll.splits sum.splits)
  next
    case (Ready res)
    show ?thesis
    proof (cases res)
      case (Inl e)
      with Ready have "copy_inv R P cb1 r1 w" by (intro stop) simp
      then show ?thesis using ph True rd Ready Inl frame by (auto simp: read_phase_def)
    next
      case (Inr n)
      obtain bs where bs: "rcvd r1 = rcvd r @ bs" "length bs = n" "rd_bytes r = n + rd_bytes r1"
        "n = 0 \<longrightarrow> bwf (cb_pos cb) (cb_cap cb) (cb_buf cb1)"
        "n \<noteq> 0 \<longrightarrow> bwf 0 n (cb_buf cb1) \<and> content 0 n (cb_buf cb1) = map enc bs"
        using rd_data [OF b eq] rd Ready Inr by blast
      have out: "ph = GoOn" "r' = r1" "w' = w"
        "cb' = (if n = 0 then cb1\<lparr>cb_read_done := True\<rparr> else cb1\<lparr>cb_pos := 0, cb_cap := n\<rparr>)"
        using ph True rd Ready Inr by (auto simp: read_phase_def)
      have wf': "wf cb'" using bs(4,5) by (simp add: wf_def out(4) cb1)
      have nil: "cont cb = []" using cont_Nil [OF wf] eq by simp
      have "cont cb' = map enc bs"
      proof (cases "n = 0")
        case True
        then show ?thesis using cont_Nil [OF wf'] bs(2) eq by (simp add: out(4) cb1)
      next
        case False
        then show ?thesis using bs(5) by (simp add: cont_def out(4) cb1)
      qed
      moreover have "sent w = P @ map enc (drop (length R) (rcvd r))" "cb_amt cb' = cb_amt cb" "prefix R (rcvd r)"
        "length (sent w) = length P + cb_amt cb" "honest w" "length R \<le> length (rcvd r)"
        using inv nil prefix_length_le unfolding copy_inv_def by (auto simp: out(4) cb1 simp del: length_append)
      ultimately have "copy_inv R P cb' r' w'"
        using wf' bs(1) unfolding copy_inv_def out(2,3) by simp
      then show ?thesis using frame bs(3) out by auto
    qed
  qed
qed

lemma write_step:
  assumes inv: "copy_inv R P cb r w" and wr: "wr cb w = (Ready (Inr i), cb1, w1)"
  shows "copy_inv R P (cb1\<lparr>cb_pos := cb_pos cb1 + i, cb_amt := cb_amt cb1 + i, cb_need_flush := True\<rparr>) r w1 \<and>
    length (wr_evs w1) < length (wr_evs w)"
proof -
  obtain x where cb1: "cb1 = cb\<lparr>cb_buf := x\<rparr>" using wr_flags [OF wr] .
  have b: "bwf (cb_pos cb) (cb_cap cb) (cb_buf cb)" and h: "honest w"
    using inv by (simp_all add: copy_inv_def wf_def)
  note d = wr_data [OF b h wr]
  have "sent w1 @ drop i (cont cb) = sent w @ cont cb" "length (sent w1) = length (sent w) + i"
    using d by (simp_all add: cont_def)
  moreover have "honest w1" using wr_frame [OF wr] h by (simp add: wr_frame_def)
  ultimately show ?thesis
    using d inv by (simp add: copy_inv_def cont_def wf_def cb1)
qed

lemma write_stop:
  assumes inv: "copy_inv R P cb r w" and wr: "wr cb w = (p, cb1, w1)" and p: "\<And>i. p \<noteq> Ready (Inr i)"
  shows "copy_inv R P cb1 r w1"
proof -
  obtain x where cb1: "cb1 = cb\<lparr>cb_buf := x\<rparr>" using wr_flags [OF wr] .
  have b: "bwf (cb_pos cb) (cb_cap cb) (cb_buf cb)" and h: "honest w"
    using inv by (simp_all add: copy_inv_def wf_def)
  note st = wr_stop [OF b h wr p]
  show ?thesis
    using st wr_frame [OF wr] h
    by (intro copy_inv_same [OF inv]) (simp_all add: cont_def wf_def cb1 wr_frame_def)
qed

lemma write_loop_inv:
  assumes "copy_inv R P cb r w" "write_loop fuel wr cb w = Some (ph, cb', w')"
  shows "copy_inv R P cb' r w' \<and> wr_frame w w' \<and> (\<forall>n. ph \<noteq> Leave (Ready (Inr n))) \<and>
    cb_read_done cb' = cb_read_done cb \<and>
    (ph = GoOn \<longrightarrow> cb_pos cb' = cb_cap cb' \<and> length (wr_evs w') \<le> length (wr_evs w) \<and>
      (cb_pos cb < cb_cap cb \<longrightarrow> length (wr_evs w') < length (wr_evs w)))"
  using assms
proof (induction fuel arbitrary: cb w)
  case 0
  then show ?case by simp
next
  case (Suc fuel)
  show ?case
  proof (cases "cb_pos cb < cb_cap cb")
    case False
    then show ?thesis using Suc.prems wf_le [of cb] by (auto simp: copy_inv_def)
  next
    case True
    obtain p cb1 w1 where wr: "wr cb w = (p, cb1, w1)" by (cases "wr cb w")
    obtain x where cb1: "cb1 = cb\<lparr>cb_buf := x\<rparr>" using wr_flags [OF wr] .
    have frame: "wr_frame w w1" using wr_frame [OF wr] by simp
    show ?thesis
    proof (cases p)
      case Pending
      then show ?thesis using write_stop [OF Suc.prems(1) wr] Suc.prems(2) True wr frame by (auto simp: cb1)
    next
      case (Ready res)
      show ?thesis
      proof (cases res)
        case (Inl e)
        then show ?thesis using write_stop [OF Suc.prems(1) wr] Ready Suc.prems(2) True wr frame by (auto simp: cb1)
      next
        case (Inr i)
        let ?c = "cb1\<lparr>cb_pos := cb_pos cb1 + i, cb_amt := cb_amt cb1 + i, cb_need_flush := True\<rparr>"
        have st: "copy_inv R P ?c r w1" "length (wr_evs w1) < length (wr_evs w)"
          using write_step [OF Suc.prems(1)] wr Ready Inr by simp_all
        show ?thesis
        proof (cases "i = 0")
          case z: True
          have "?c\<lparr>cb_need_flush := cb_need_flush cb\<rparr> = cb1" by (simp add: z cb1)
          then have "copy_inv R P cb1 r w1" using st(1) copy_inv_flags by metis
          then show ?thesis using z Ready Inr Suc.prems(2) True wr frame by (auto simp: cb1)
        next
          case False
          then have "write_loop fuel wr ?c w1 = Some (ph, cb', w')"
            using Ready Inr Suc.prems(2) True wr by simp
          from Suc.IH [OF st(1) this] st(2) frame show ?thesis
            by (auto simp: cb1 intro: wr_frame_trans)
        qed
      qed
    qed
  qed
qed

end

context async_io_buf
begin

lemma finish_inv:
  assumes "copy_inv R P cb r w" "finish_phase cb w = (ph, w')"
  shows "copy_inv R P cb r w' \<and> wr_frame w w' \<and>
    (\<forall>n. ph = Leave (Ready (Inr n)) \<longrightarrow>
       cb_read_done cb \<and> cont cb = [] \<and> n = cb_amt cb \<and> flushed w' = length (sent w')) \<and>
    (ph = GoOn \<longrightarrow> w' = w \<and> \<not> (cb_pos cb = cb_cap cb \<and> cb_read_done cb))"
proof (cases "cb_pos cb = cb_cap cb \<and> cb_read_done cb")
  case False
  then show ?thesis using assms by (auto simp: finish_phase_def split: if_splits)
next
  case True
  obtain q w2 where q: "poll_flush w = (q, w2)" by (cases "poll_flush w")
  have nil: "cont cb = []" using True assms(1) cont_Nil by (simp add: copy_inv_def)
  have w2: "copy_inv R P cb r w2" "wr_frame w w2"
    using poll_flush_wr_frame [OF q] assms(1) by (simp_all add: copy_inv_def wr_frame_def)
  have fl: "q = Ready (Inr u) \<Longrightarrow> flushed w2 = length (sent w2)" for u
    using q by (auto elim!: poll_flush_cases)
  show ?thesis using assms(2) True w2 nil q fl
    by (auto simp: finish_phase_def split: poll.splits sum.splits)
qed

text \<open>The three phases together: what one call of \<open>poll_copy\<close> keeps and what its result means.\<close>

lemma poll_copy_inv:
  assumes "copy_inv R P cb r w" "poll_copy fuel rd wr cb r w = Some (p, cb', r', w')"
  shows "copy_inv R P cb' r' w' \<and> rd_frame r r' \<and> wr_frame w w' \<and>
    (\<forall>n. p = Ready (Inr n) \<longrightarrow>
       cb_read_done cb' \<and> cont cb' = [] \<and> n = cb_amt cb' \<and> flushed w' = length (sent w'))"
  using assms
proof (induction fuel arbitrary: cb r w)
  case 0
  then show ?case by simp
next
  case (Suc fuel)
  obtain ph1 cb1 r1 w1 where 1: "read_phase rd cb r w = (ph1, cb1, r1, w1)" by (cases "read_phase rd cb r w")
  note i1 = read_phase_inv [OF Suc.prems(1) 1]
  show ?case
  proof (cases ph1)
    case (Leave q)
    then show ?thesis using 1 i1 Suc.prems(2) by auto
  next
    case GoOn
    obtain ph2 cb2 w2 where 2: "write_loop fuel wr cb1 w1 = Some (ph2, cb2, w2)"
      using Suc.prems(2) 1 GoOn by (cases "write_loop fuel wr cb1 w1") auto
    have i2: "copy_inv R P cb2 r1 w2" "wr_frame w1 w2" "ph2 \<noteq> Leave (Ready (Inr n))" for n
      using write_loop_inv [OF _ 2] i1 by blast+
    have f2: "rd_frame r r1" "wr_frame w w2" using i1 i2(2) wr_frame_trans by blast+
    show ?thesis
    proof (cases ph2)
      case (Leave q)
      then show ?thesis using 1 GoOn 2 i2 f2 Suc.prems(2) by auto
    next
      case GoOn2: GoOn
      obtain ph3 w3 where 3: "finish_phase cb2 w2 = (ph3, w3)" by (cases "finish_phase cb2 w2")
      note i3 = finish_inv [OF i2(1) 3]
      have f3: "wr_frame w w3" using i3 f2(2) wr_frame_trans by blast
      show ?thesis
      proof (cases ph3)
        case (Leave q)
        then show ?thesis using 1 GoOn 2 GoOn2 3 i3 f2(1) f3 Suc.prems(2) by auto
      next
        case GoOn3: GoOn
        then have "poll_copy fuel rd wr cb2 r1 w3 = Some (p, cb', r', w')"
          using 1 GoOn 2 GoOn2 3 Suc.prems(2) by simp
        with Suc.IH [of cb2 r1 w3] i3 f2(1) f3 rd_frame_trans wr_frame_trans show ?thesis by blast
      qed
    qed
  qed
qed

end

section \<open>The loop ends\<close>

context async_io_buf
begin

lemma write_loop_returns:
  assumes "copy_inv R P cb r w" "length (wr_evs w) < fuel"
  shows "write_loop fuel wr cb w \<noteq> None"
  using assms
proof (induction fuel arbitrary: cb w)
  case 0
  then show ?case by simp
next
  case (Suc fuel)
  obtain p cb1 w1 where wr: "wr cb w = (p, cb1, w1)" by (cases "wr cb w")
  show ?case
  proof (cases "cb_pos cb < cb_cap cb \<and> (\<exists>i. p = Ready (Inr i) \<and> i \<noteq> 0)")
    case False
    then show ?thesis using wr by (auto split: poll.splits sum.splits)
  next
    case True
    then obtain i where i: "p = Ready (Inr i)" "i \<noteq> 0" "cb_pos cb < cb_cap cb" by blast
    have st: "copy_inv R P (cb1\<lparr>cb_pos := cb_pos cb1 + i, cb_amt := cb_amt cb1 + i, cb_need_flush := True\<rparr>) r w1"
      "length (wr_evs w1) < fuel"
      using write_step [OF Suc.prems(1)] wr i(1) Suc.prems(2) by (auto dest: less_le_trans)
    show ?thesis using Suc.IH [OF st] wr i by simp
  qed
qed

lemma poll_copy_returns:
  assumes "copy_inv R P cb r w" "rd_bytes r + length (wr_evs w) + 1 < fuel"
  shows "poll_copy fuel rd wr cb r w \<noteq> None"
  using assms
proof (induction fuel arbitrary: cb r w)
  case 0
  then show ?case by simp
next
  case (Suc fuel)
  obtain ph1 cb1 r1 w1 where 1: "read_phase rd cb r w = (ph1, cb1, r1, w1)" by (cases "read_phase rd cb r w")
  note i1 = read_phase_inv [OF Suc.prems(1) 1]
  show ?case
  proof (cases ph1)
    case (Leave q)
    then show ?thesis using 1 by simp
  next
    case GoOn
    have inv1: "copy_inv R P cb1 r1 w1" and ev: "wr_evs w1 = wr_evs w" using i1 GoOn by auto
    obtain ph2 cb2 w2 where 2: "write_loop fuel wr cb1 w1 = Some (ph2, cb2, w2)"
      using write_loop_returns [OF inv1, of fuel] Suc.prems(2) ev by fastforce
    note i2 = write_loop_inv [OF inv1 2]
    show ?thesis
    proof (cases "ph2 = GoOn \<and> fst (finish_phase cb2 w2) = GoOn")
      case False
      then show ?thesis using 1 GoOn 2
        by (cases ph2) (auto split: prod.splits phase.splits)
    next
      case True
      then obtain w3 where 3: "ph2 = GoOn" "finish_phase cb2 w2 = (GoOn, w3)" by (metis prod.collapse)
      have inv2: "copy_inv R P cb2 r1 w2" using i2 by blast
      note i3 = finish_inv [OF inv2 3(2)]
      have w3: "w3 = w2" and nd: "\<not> cb_read_done cb1" using i3 i2 3(1) by auto
      have le: "length (wr_evs w2) \<le> length (wr_evs w1)"
        and lt: "cb_pos cb1 < cb_cap cb1 \<Longrightarrow> length (wr_evs w2) < length (wr_evs w1)"
        using i2 3(1) by blast+
      have "rd_bytes r1 + length (wr_evs w2) < rd_bytes r + length (wr_evs w)"
        using i1 GoOn nd le lt ev by fastforce
      with Suc.prems(2) have "rd_bytes r1 + length (wr_evs w3) + 1 < fuel" by (simp add: w3)
      moreover have "copy_inv R P cb2 r1 w3" using i3 by blast
      ultimately have "poll_copy fuel rd wr cb2 r1 w3 \<noteq> None" by (intro Suc.IH)
      then show ?thesis using 1 GoOn 2 3 by simp
    qed
  qed
qed

end

text \<open>
  The comment in the source on a writer that reports more than it was given: once \<open>pos\<close> is past
  \<open>cap\<close> the loop never leaves.
\<close>

lemma write_loop_stuck:
  "cb_cap cb \<le> cb_pos cb \<Longrightarrow> write_loop fuel wr cb w = (if fuel = 0 then None else Some (GoOn, cb, w))"
  by (cases fuel) auto

lemma poll_copy_stuck: "cb_cap cb < cb_pos cb \<Longrightarrow> poll_copy fuel rd wr cb r w = None"
proof (induction fuel)
  case (Suc fuel)
  then have "read_phase rd cb r w = (GoOn, cb, r, w)" "finish_phase cb w = (GoOn, w)"
    by (simp_all add: read_phase_def finish_phase_def)
  then show ?case using Suc by (simp add: write_loop_stuck)
qed simp

lemma poll_copy_overclaim:
  assumes "cb_pos cb = cb_cap cb" "\<not> cb_read_done cb" "rd cb r = (Ready (Inr n), cb1, r1)" "n \<noteq> 0"
    and "wr (cb1\<lparr>cb_pos := 0, cb_cap := n\<rparr>) w = (Ready (Inr i), cb2, w1)" "n < i" "cb_pos cb2 = 0" "cb_cap cb2 = n"
  shows "poll_copy fuel rd wr cb r w = None"
proof -
  let ?c = "cb1\<lparr>cb_pos := 0, cb_cap := n\<rparr>" and ?d = "cb2\<lparr>cb_pos := i, cb_amt := cb_amt cb2 + i, cb_need_flush := True\<rparr>"
  have rp: "read_phase rd cb r w = (GoOn, ?c, r1, w)" using assms(1-4) by (simp add: read_phase_def)
  have "cb_cap ?d < cb_pos ?d" using assms(6,8) by simp
  note st = poll_copy_stuck [OF this] and ws = write_loop_stuck [OF less_imp_le [OF this]]
  have wl: "write_loop f wr ?c w = (if f \<le> 1 then None else Some (GoOn, ?d, w1))" for f
  proof (cases f)
    case (Suc g)
    then show ?thesis using assms(4-8) ws by simp
  qed simp
  have fp: "finish_phase ?d w1 = (GoOn, w1)" using assms(6,8) by (simp add: finish_phase_def)
  show ?thesis
    by (cases fuel) (simp_all add: rp wl fp st)
qed

section \<open>Copying over many polls\<close>

text \<open>
  The task is polled, waits, and is polled again when the environment has something new: between
  two polls the scripts of the streams change, what was received and sent does not.
\<close>

definition same_io :: "stream \<Rightarrow> stream \<Rightarrow> bool" where
  "same_io s s' \<longleftrightarrow> rcvd s' = rcvd s \<and> sent s' = sent s \<and> flushed s' = flushed s \<and> shut s' = shut s"

inductive copying ::
  "'b buf_op \<Rightarrow> 'b buf_op \<Rightarrow> 'b copy_buffer \<times> stream \<times> stream \<Rightarrow> 'b copy_buffer \<times> stream \<times> stream \<Rightarrow> bool"
  for rd wr s where
  fresh: "copying rd wr s s"
| poll: "copying rd wr s (cb, r, w) \<Longrightarrow> poll_copy fuel rd wr cb r w = Some (p, cb', r', w') \<Longrightarrow>
         copying rd wr s (cb', r', w')"
| wake: "copying rd wr s (cb, r, w) \<Longrightarrow> same_io r r' \<Longrightarrow> same_io w w' \<Longrightarrow> honest w' \<Longrightarrow>
         copying rd wr s (cb, r', w')"

context async_io_buf
begin

lemma fresh_inv:
  assumes "bwf 0 0 b" "honest w"
  shows "copy_inv (rcvd r) (sent w) (copy_buffer_new b) r w"
  using assms content_length [OF assms(1)] by (simp add: copy_inv_def copy_buffer_new_def cont_def wf_def)

lemma wake_inv: "copy_inv R P cb r w \<Longrightarrow> same_io r r' \<Longrightarrow> same_io w w' \<Longrightarrow> honest w' \<Longrightarrow> copy_inv R P cb r' w'"
  by (simp add: copy_inv_def same_io_def)

lemma copying_inv:
  assumes "copying rd wr (cb, r, w) (cb', r', w')" "copy_inv R P cb r w"
  shows "copy_inv R P cb' r' w'"
proof -
  have "copying rd wr (cb, r, w) s \<Longrightarrow> (case s of (cb', r', w') \<Rightarrow> copy_inv R P cb' r' w')" for s
  proof (induction rule: copying.induct)
    case fresh
    then show ?case using assms(2) by simp
  next
    case (poll cb r w fuel p cb' r' w')
    then show ?case using poll_copy_inv by fastforce
  next
    case (wake cb r w r' w')
    then show ?case using wake_inv by simp
  qed
  with assms(1) show ?thesis by fastforce
qed

text \<open>The statement for the provider: every state a fresh buffer reaches, and every result.\<close>

lemma copying_exact:
  assumes "copying rd wr (copy_buffer_new b, r, w) (cb', r', w')" "bwf 0 0 b" "honest w"
  shows "sent w' @ content (cb_pos cb') (cb_cap cb') (cb_buf cb') =
      sent w @ map enc (drop (length (rcvd r)) (rcvd r')) \<and>
    length (sent w') = length (sent w) + cb_amt cb'"
  using copying_inv [OF assms(1) fresh_inv [OF assms(2,3)]] unfolding copy_inv_def cont_def by blast

lemma copying_result:
  assumes "copying rd wr (copy_buffer_new b, r, w) (cb1, r1, w1)" "bwf 0 0 b" "honest w"
    "poll_copy fuel rd wr cb1 r1 w1 = Some (Ready (Inr n), cb', r', w')"
  shows "sent w' = sent w @ map enc (drop (length (rcvd r)) (rcvd r')) \<and>
    n = length (rcvd r') - length (rcvd r) \<and> flushed w' = length (sent w')"
proof -
  have i1: "copy_inv (rcvd r) (sent w) cb1 r1 w1"
    by (rule copying_inv [OF assms(1) fresh_inv [OF assms(2,3)]])
  have i: "copy_inv (rcvd r) (sent w) cb' r' w'" and nil: "cont cb' = []" "n = cb_amt cb'"
    "flushed w' = length (sent w')"
    using poll_copy_inv [OF i1 assms(4)] by blast+
  have "sent w' = sent w @ map enc (drop (length (rcvd r)) (rcvd r'))" "length (sent w') = length (sent w) + cb_amt cb'"
    using i nil(1) unfolding copy_inv_def by auto
  then show ?thesis using nil(2,3) by (auto dest: arg_cong [where f = length])
qed

lemma copying_returns:
  assumes "copying rd wr (copy_buffer_new b, r, w) (cb1, r1, w1)" "bwf 0 0 b" "honest w"
  shows "poll_copy (rd_bytes r1 + length (wr_evs w1) + 2) rd wr cb1 r1 w1 \<noteq> None"
  by (rule poll_copy_returns [OF copying_inv [OF assms(1) fresh_inv [OF assms(2,3)]]]) simp

end

end
