(* ===== verification/Mem_Copy.thy ===== *)
theory Mem_Copy
  imports Copy_Buffer
begin

text \<open>
  The buffered copy of \<^verbatim>\<open>hoorayhug_io/src/mem_copy.rs\<close>: a boxed slice as the buffer of
  \<open>Copy_Buffer\<close>. In the obfuscating modes (1 client, 2 server) each read is cut to a random length
  taken from the clock and each byte is XORed with \<open>0x5A\<close>. The clock is a parameter \<open>clk\<close>, the
  nanoseconds it shows when a stream in a given state is read: consecutive reads that do anything
  see different stream states, so a theorem for every \<open>clk\<close> is one for all clock readings.
\<close>

definition DF_BUF_SIZE :: nat where
  "DF_BUF_SIZE = 0x2000"

definition get_obfs_mode :: "u8 option \<Rightarrow> u8" where
  "get_obfs_mode local_mode = (case local_mode of Some m \<Rightarrow> m | None \<Rightarrow> 0)"

definition target_len :: "u8 \<Rightarrow> nat \<Rightarrow> nat \<Rightarrow> nat" where
  "target_len mode nanos max_cap =
     (if 128 < max_cap \<and> mode \<noteq> 0
      then let min_bytes = max_cap * 7 div 100;
               max_bytes = max_cap * 92 div 100;
               range = max_bytes - min_bytes + 1;
               t = min_bytes + nanos mod range
           in if t = 0 then 1 else t
      else max_cap)"

definition obfs_byte :: "u8 \<Rightarrow> u8 \<Rightarrow> u8" where
  "obfs_byte mode b = (if mode \<noteq> 0 then b XOR 0x5A else b)"

definition mem_poll_read_buf :: "u8 \<Rightarrow> (stream \<Rightarrow> nat) \<Rightarrow> bytes buf_op" where
  "mem_poll_read_buf mode clk cb r =
     (case poll_read (target_len mode (clk r) (length (cb_buf cb))) r of
        (Ready (Inr bs), r') \<Rightarrow>
          (Ready (Inr (length bs)),
           cb\<lparr>cb_buf := map (obfs_byte mode) bs @ drop (length bs) (cb_buf cb)\<rparr>, r')
      | (Ready (Inl e), r') \<Rightarrow> (Ready (Inl e), cb, r')
      | (Pending, r') \<Rightarrow> (Pending, cb, r'))"

definition mem_poll_write_buf :: "bytes buf_op" where
  "mem_poll_write_buf cb w =
     (case poll_write (take (cb_cap cb - cb_pos cb) (drop (cb_pos cb) (cb_buf cb))) w of
        (p, w') \<Rightarrow> (p, cb, w'))"

definition mem_copy_buffer :: "nat \<Rightarrow> bytes copy_buffer" where
  "mem_copy_buffer n = copy_buffer_new (replicate n 0)"

section \<open>Chunks\<close>

lemma target_len_le: "target_len mode nanos max_cap \<le> max_cap"
proof (cases "128 < max_cap \<and> mode \<noteq> 0")
  case True
  let ?lo = "max_cap * 7 div 100" and ?hi = "max_cap * 92 div 100"
  have le: "?lo \<le> ?hi" "?hi \<le> max_cap" by (simp_all add: div_le_mono)
  have "nanos mod (?hi - ?lo + 1) < ?hi - ?lo + 1" by (rule mod_less_divisor) simp
  then have "?lo + nanos mod (?hi - ?lo + 1) \<le> ?hi" using le(1) by linarith
  then show ?thesis using True le by (auto simp: target_len_def Let_def)
qed (auto simp: target_len_def)

text \<open>The interval of the chunk lengths, and that every length of it occurs.\<close>

lemma target_len_range:
  assumes "128 < n" "mode \<noteq> 0"
  shows "target_len mode nanos n \<in> {n * 7 div 100 .. n * 92 div 100}"
proof -
  let ?lo = "n * 7 div 100" and ?hi = "n * 92 div 100"
  have le: "?lo \<le> ?hi" and lo: "0 < ?lo" using assms(1) by (simp_all add: div_le_mono div_greater_zero_iff)
  have "nanos mod (?hi - ?lo + 1) < ?hi - ?lo + 1" by (rule mod_less_divisor) simp
  then have "?lo + nanos mod (?hi - ?lo + 1) \<le> ?hi" using le by linarith
  then show ?thesis using assms lo by (simp add: target_len_def Let_def)
qed

lemma target_len_onto:
  assumes "128 < n" "mode \<noteq> 0" "t \<in> {n * 7 div 100 .. n * 92 div 100}"
  shows "target_len mode (t - n * 7 div 100) n = t"
proof -
  have lo: "0 < n * 7 div 100" using assms(1) by (simp add: div_greater_zero_iff)
  have lt: "t - n * 7 div 100 < n * 92 div 100 - n * 7 div 100 + 1" using assms(3) by auto
  show ?thesis unfolding target_len_def Let_def mod_less [OF lt] using assms lo by auto
qed

section \<open>The interface\<close>

definition mem_content :: "nat \<Rightarrow> nat \<Rightarrow> bytes \<Rightarrow> bytes" where
  "mem_content p c b = take (c - p) (drop p b)"

definition mem_bwf :: "nat \<Rightarrow> nat \<Rightarrow> bytes \<Rightarrow> bool" where
  "mem_bwf p c b \<longleftrightarrow> p \<le> c \<and> c \<le> length b"

lemma mem_read_cases:
  assumes "mem_poll_read_buf mode clk cb r = (p, cb', r')"
  obtains (stop) "\<forall>n. p \<noteq> Ready (Inr n)" "cb' = cb" "rcvd r' = rcvd r"
  | (data) bs where "p = Ready (Inr (length bs))" "rcvd r' = rcvd r @ bs" "rd_bytes r = length bs + rd_bytes r'"
      "length bs \<le> length (cb_buf cb)"
      "cb' = cb\<lparr>cb_buf := map (obfs_byte mode) bs @ drop (length bs) (cb_buf cb)\<rparr>"
proof -
  obtain q s where q: "poll_read (target_len mode (clk r) (length (cb_buf cb))) r = (q, s)"
    by (cases "poll_read (target_len mode (clk r) (length (cb_buf cb))) r")
  show thesis
    using q
  proof (cases rule: poll_read_cases)
    case (data bs)
    then show ?thesis using assms q that(2) [of bs] target_len_le [of mode "clk r" "length (cb_buf cb)"]
      by (simp add: mem_poll_read_buf_def)
  qed (use assms q that(1) in \<open>auto simp: mem_poll_read_buf_def\<close>)
qed

lemma mem_read_frame: "mem_poll_read_buf mode clk cb r = (p, cb', r') \<Longrightarrow> rd_frame r r'"
  unfolding rd_frame_def mem_poll_read_buf_def
  by (auto split: prod.splits poll.splits sum.splits dest: poll_read_frame)

interpretation mem: async_io_buf "mem_poll_read_buf mode clk" mem_poll_write_buf mem_content mem_bwf "obfs_byte mode"
  for mode clk
proof (unfold_locales, goal_cases)
  case (1 q c b)
  then show ?case by (auto simp: mem_content_def mem_bwf_def)
next
  case (2 cb r p cb' r')
  then show ?case using mem_read_frame by (auto elim!: mem_read_cases)
next
  case (3 cb p cb' r' r)
  then show ?case by (auto elim!: mem_read_cases)
next
  case (4 cb r n cb' r')
  from 4(3) show ?case
  proof (cases rule: mem_read_cases)
    case (data bs)
    then show ?thesis using 4 by (intro exI [of _ bs]) (auto simp: mem_bwf_def mem_content_def)
  qed simp
next
  case (5 cb w p cb' w')
  then show ?case
    by (auto simp: mem_poll_write_buf_def wr_frame_def dest: poll_write_frame poll_write_honest split: prod.splits)
next
  case (6 cb w p cb' w')
  then show ?case
    by (auto simp: mem_poll_write_buf_def elim!: poll_write_cases split: prod.splits)
next
  case (7 cb w i cb' w')
  from 7(3) have "poll_write (mem_content (cb_pos cb) (cb_cap cb) (cb_buf cb)) w = (Ready (Inr i), w')" "cb' = cb"
    by (auto simp: mem_poll_write_buf_def mem_content_def split: prod.splits)
  with 7(1,2) show ?case
    by (auto simp: mem_content_def mem_bwf_def drop_take elim!: poll_write_cases) (simp add: add.commute)
qed

section \<open>Properties\<close>

lemma mem_bwf_fresh: "mem_bwf 0 0 b"
  by (simp add: mem_bwf_def)

text \<open>
  C11: The buffered copy neither loses, repeats nor reorders a byte: from a fresh buffer, after any
  number of polls with any behaviour of the two streams in between, what was written so far followed
  by what the buffer still holds is what was read, XORed in the obfuscating modes; and when a poll
  finishes, everything read has been written and flushed and the result is the number of bytes.
\<close>
theorem mem_copy_exact:
  assumes "copying (mem_poll_read_buf mode clk) mem_poll_write_buf (mem_copy_buffer n, r, w) (cb, r1, w1)"
    and "honest w"
  shows "sent w1 @ mem_content (cb_pos cb) (cb_cap cb) (cb_buf cb)
      = sent w @ map (obfs_byte mode) (drop (length (rcvd r)) (rcvd r1)) \<and>
    (\<forall>fuel amt cb' r' w'.
       poll_copy fuel (mem_poll_read_buf mode clk) mem_poll_write_buf cb r1 w1 = Some (Ready (Inr amt), cb', r', w') \<longrightarrow>
       sent w' = sent w @ map (obfs_byte mode) (drop (length (rcvd r)) (rcvd r')) \<and>
       amt = length (rcvd r') - length (rcvd r) \<and> flushed w' = length (sent w'))"
  using mem.copying_exact [OF assms(1) [unfolded mem_copy_buffer_def] mem_bwf_fresh assms(2)]
    mem.copying_result [OF assms(1) [unfolded mem_copy_buffer_def] mem_bwf_fresh assms(2)]
  by blast

definition demo_stream :: stream where
  "demo_stream = \<lparr>rd_evs = [RdData [1, 2, 3], RdData []], wr_evs = [WrAccept 2, WrPending, WrAccept 9],
     fl_evs = [FlOk], sd_evs = [FlOk], rcvd = [], sent = [], flushed = 0, shut = False\<rparr>"

lemma mem_copy_demo_run:
  "case poll_copy 9 (mem_poll_read_buf 1 (\<lambda>_. 7)) mem_poll_write_buf (mem_copy_buffer 4) demo_stream demo_stream of
     None \<Rightarrow> False
   | Some (p, cb, r, w) \<Rightarrow> p = Pending \<and> sent w = [0x5B, 0x58] \<and> rcvd r = [1, 2, 3]"
  by code_simp

lemma mem_copy_demo:
  "\<exists>cb r w. poll_copy 9 (mem_poll_read_buf 1 (\<lambda>_. 7)) mem_poll_write_buf (mem_copy_buffer 4) demo_stream demo_stream
       = Some (Pending, cb, r, w) \<and> sent w = [0x5B, 0x58] \<and> rcvd r = [1, 2, 3]"
  using mem_copy_demo_run by (auto split: option.splits)

theorem mem_copy_exact_witness:
  "\<exists>cb r w. poll_copy 9 (mem_poll_read_buf 1 (\<lambda>_. 7)) mem_poll_write_buf (mem_copy_buffer 4) demo_stream demo_stream
       = Some (Pending, cb, r, w) \<and>
     [0x5B, 0x58] @ mem_content (cb_pos cb) (cb_cap cb) (cb_buf cb) = map (obfs_byte 1) [1, 2, 3]"
proof -
  obtain cb r w where d: "poll_copy 9 (mem_poll_read_buf 1 (\<lambda>_. 7)) mem_poll_write_buf (mem_copy_buffer 4) demo_stream demo_stream
       = Some (Pending, cb, r, w)" "sent w = [0x5B, 0x58]" "rcvd r = [1, 2, 3]"
    using mem_copy_demo by blast
  have "honest demo_stream" by (simp add: honest_def demo_stream_def)
  then have "sent w @ mem_content (cb_pos cb) (cb_cap cb) (cb_buf cb)
      = sent demo_stream @ map (obfs_byte 1) (drop (length (rcvd demo_stream)) (rcvd r))"
    using mem_copy_exact [OF copying.poll [OF copying.fresh d(1)]] by blast
  then show ?thesis using d by (simp add: demo_stream_def)
qed

text \<open>
  C12: The copying loop always returns when the writer is honest: one poll of a copy in any state it
  reaches leaves the loop after at most as many rounds as the read script has bytes and the write
  script has events (plus two); and, as the comment in the code says, a writer that claims more
  than it was given makes the loop spin for ever.
\<close>
theorem mem_copy_returns:
  assumes "copying (mem_poll_read_buf mode clk) mem_poll_write_buf (mem_copy_buffer n, r, w) (cb, r1, w1)"
    and "honest w"
  shows "poll_copy (rd_bytes r1 + length (wr_evs w1) + 2) (mem_poll_read_buf mode clk) mem_poll_write_buf cb r1 w1 \<noteq> None \<and>
    (\<forall>fuel. poll_copy fuel (mem_poll_read_buf 0 (\<lambda>_. 0)) mem_poll_write_buf (mem_copy_buffer 4)
       (demo_stream\<lparr>rd_evs := [RdData [1]]\<rparr>) (demo_stream\<lparr>wr_evs := [WrClaim 2]\<rparr>) = None)"
proof -
  have "poll_copy fuel (mem_poll_read_buf 0 (\<lambda>_. 0)) mem_poll_write_buf (mem_copy_buffer 4)
       (demo_stream\<lparr>rd_evs := [RdData [1]]\<rparr>) (demo_stream\<lparr>wr_evs := [WrClaim 2]\<rparr>) = None" for fuel
    by (rule poll_copy_overclaim [where n = 1 and i = 2])
      (simp_all add: mem_poll_read_buf_def mem_poll_write_buf_def mem_copy_buffer_def copy_buffer_new_def
        poll_read_def poll_write_def demo_stream_def target_len_def)+
  then show ?thesis
    using mem.copying_returns [OF assms(1) [unfolded mem_copy_buffer_def] mem_bwf_fresh assms(2)] by blast
qed

theorem mem_copy_returns_witness:
  "poll_copy 8 (mem_poll_read_buf 1 (\<lambda>_. 7)) mem_poll_write_buf (mem_copy_buffer 4) demo_stream demo_stream \<noteq> None"
proof -
  have "honest demo_stream" by (simp add: honest_def demo_stream_def)
  moreover have "rd_bytes demo_stream + length (wr_evs demo_stream) + 2 = 8"
    by (simp add: rd_bytes_def demo_stream_def)
  ultimately show ?thesis using mem_copy_returns [OF copying.fresh] by metis
qed

text \<open>
  With the default buffer of 8 KiB an obfuscated read asks for between 573 and 7536 bytes, as the
  comments in the code say, and every length in between occurs for some reading of the clock
  below one second; without obfuscation it asks for the whole buffer.
\<close>
theorem obfs_chunk_range:
  assumes "mode \<noteq> 0"
  shows "(t \<in> {573..7536}) = (\<exists>nanos < 1000000000. target_len mode nanos DF_BUF_SIZE = t) \<and>
    target_len 0 nanos DF_BUF_SIZE = 0x2000"
proof -
  have b: "DF_BUF_SIZE * 7 div 100 = 573" "DF_BUF_SIZE * 92 div 100 = 7536" "128 < DF_BUF_SIZE"
    by (simp_all add: DF_BUF_SIZE_def)
  have "\<exists>nanos < 1000000000. target_len mode nanos DF_BUF_SIZE = t" if "t \<in> {573..7536}"
    using target_len_onto [OF b(3) assms] that by (intro exI [of _ "t - 573"]) (auto simp: b)
  then show ?thesis
    using target_len_range [OF b(3) assms, unfolded b] by (fastforce simp: target_len_def DF_BUF_SIZE_def)
qed

theorem obfs_chunk_range_witness: "\<exists>nanos < 1000000000. target_len 2 nanos DF_BUF_SIZE = 573"
  using obfs_chunk_range [of 2 573] by simp

end
