(* ===== verification/Zero_Copy.thy ===== *)
theory Zero_Copy
  imports Copy_Buffer
begin

text \<open>
  The kernel-side copy of \<^verbatim>\<open>hoorayhug_io/src/linux\<close>: the readiness loops \<^verbatim>\<open>poll_read_raw\<close> and
  \<^verbatim>\<open>poll_write_raw\<close> and the splice through a pipe. In a script, \<open>RdPending\<close> is a socket that is not
  ready, \<open>RdErr WouldBlock\<close> one that looked ready and answered \<^verbatim>\<open>EAGAIN\<close>; the loops try again
  after the latter.
\<close>

section \<open>Pipes\<close>

definition DF_PIPE_SIZE :: nat where
  "DF_PIPE_SIZE = 16 * 0x1000"

text \<open>
  A pipe: its descriptors, and what the kernel keeps for it, a capacity and the queue of bytes.
\<close>

record pipe =
  pp_rd :: int
  pp_wr :: int
  pp_cap :: nat
  pp_data :: bytes

text \<open>
  What the kernel answers to \<^verbatim>\<open>Pipe::new\<close>: an error of \<^verbatim>\<open>pipe2\<close>, or two descriptors and the capacity
  that \<^verbatim>\<open>F_SETPIPE_SZ\<close> gives, if it grants one (its error is ignored). \<open>fds\<close> are the descriptors in
  use: \<open>pipe_new\<close> opens two, \<open>pipe_drop\<close> closes them.
\<close>

datatype pipe_answer = PipeErr io_error | PipeFds int int "nat option"

definition pipe_new :: "nat \<Rightarrow> pipe_answer \<Rightarrow> int set \<Rightarrow> pipe io_result \<times> int set" where
  "pipe_new pipe_size ans fds =
     (case ans of
        PipeErr e \<Rightarrow> (Inl e, fds)
      | PipeFds rd wr granted \<Rightarrow>
          (let cap = (if pipe_size \<noteq> DF_PIPE_SIZE then (case granted of Some c \<Rightarrow> c | None \<Rightarrow> DF_PIPE_SIZE) else DF_PIPE_SIZE)
           in (Inr \<lparr>pp_rd = rd, pp_wr = wr, pp_cap = cap, pp_data = []\<rparr>, insert rd (insert wr fds))))"

definition pipe_drop :: "pipe \<Rightarrow> int set \<Rightarrow> int set" where
  "pipe_drop p fds = fds - {pp_rd p, pp_wr p}"

lemma pipe_new_empty: "pipe_new pipe_size ans fds = (Inr p, fds') \<Longrightarrow> pp_data p = []"
  by (auto simp: pipe_new_def Let_def split: pipe_answer.splits)

text \<open>The descriptors of an answer, which the kernel promises are not in use.\<close>

fun answer_fds :: "pipe_answer \<Rightarrow> int set" where
  "answer_fds (PipeErr e) = {}"
| "answer_fds (PipeFds rd wr granted) = {rd, wr}"

lemma pipe_new_fds: "snd (pipe_new pipe_size ans fds) = answer_fds ans \<union> fds"
  by (cases ans) (auto simp: pipe_new_def Let_def)

lemma pipe_new_drop:
  assumes "pipe_new pipe_size ans fds = (Inr p, fds')"
  shows "pipe_drop p fds0 = fds0 - answer_fds ans"
  using assms by (cases ans) (auto simp: pipe_new_def pipe_drop_def Let_def)

section \<open>The raw loops\<close>

function poll_read_raw :: "nat \<Rightarrow> stream \<Rightarrow> bytes io_result poll \<times> stream" where
  "poll_read_raw n s =
     (case poll_read n s of
        (Pending, s') \<Rightarrow> (Pending, s')
      | (Ready (Inr bs), s') \<Rightarrow> (Ready (Inr bs), s')
      | (Ready (Inl e), s') \<Rightarrow> if e = WouldBlock then poll_read_raw n s' else (Ready (Inl e), s'))"
  by pat_completeness auto
termination
  by (relation "measure (\<lambda>(n, s). length (rd_evs s))")
    (auto simp: poll_read_def split: list.splits rd_ev.splits)

declare poll_read_raw.simps [simp del]

function poll_write_raw :: "bytes \<Rightarrow> stream \<Rightarrow> nat io_result poll \<times> stream" where
  "poll_write_raw bs s =
     (case poll_write bs s of
        (Pending, s') \<Rightarrow> (Pending, s')
      | (Ready (Inr n), s') \<Rightarrow> (Ready (Inr n), s')
      | (Ready (Inl e), s') \<Rightarrow> if e = WouldBlock then poll_write_raw bs s' else (Ready (Inl e), s'))"
  by pat_completeness auto
termination
  by (relation "measure (\<lambda>(bs, s). length (wr_evs s))")
    (auto simp: poll_write_def split: list.splits wr_ev.splits)

declare poll_write_raw.simps [simp del]

text \<open>
  \<^verbatim>\<open>splice_n\<close> from the socket into the pipe moves at most what the pipe has room for, from the
  pipe to the socket at most what it holds.
\<close>

definition zc_poll_read_buf :: "pipe buf_op" where
  "zc_poll_read_buf cb r =
     (let p = cb_buf cb in
      if pp_cap p \<le> length (pp_data p) then (Pending, cb, r)
      else case poll_read_raw (pp_cap p - length (pp_data p)) r of
             (Pending, r') \<Rightarrow> (Pending, cb, r')
           | (Ready (Inl e), r') \<Rightarrow> (Ready (Inl e), cb, r')
           | (Ready (Inr bs), r') \<Rightarrow> (Ready (Inr (length bs)), cb\<lparr>cb_buf := p\<lparr>pp_data := pp_data p @ bs\<rparr>\<rparr>, r'))"

definition zc_poll_write_buf :: "pipe buf_op" where
  "zc_poll_write_buf cb w =
     (let p = cb_buf cb in
      case poll_write_raw (take (cb_cap cb - cb_pos cb) (pp_data p)) w of
        (Pending, w') \<Rightarrow> (Pending, cb, w')
      | (Ready (Inl e), w') \<Rightarrow> (Ready (Inl e), cb, w')
      | (Ready (Inr n), w') \<Rightarrow> (Ready (Inr n), cb\<lparr>cb_buf := p\<lparr>pp_data := drop n (pp_data p)\<rparr>\<rparr>, w'))"

section \<open>What the loops do\<close>

lemma poll_read_raw_spec:
  "poll_read_raw n s = (p, s') \<Longrightarrow> rd_frame s s' \<and> p \<noteq> Ready (Inl WouldBlock) \<and>
     (case p of Ready (Inr bs) \<Rightarrow> rcvd s' = rcvd s @ bs \<and> length bs \<le> n \<and> rd_bytes s = length bs + rd_bytes s'
      | _ \<Rightarrow> rcvd s' = rcvd s)"
proof (induction n s arbitrary: p s' rule: poll_read_raw.induct)
  case (1 n s)
  obtain q t where q: "poll_read n s = (q, t)" by (cases "poll_read n s")
  have fr: "rd_frame s t" using poll_read_frame [OF q] by (simp add: rd_frame_def)
  show ?case
    using q
  proof (cases rule: poll_read_cases)
    case (err e)
    show ?thesis
    proof (cases "e = WouldBlock")
      case True
      then have eq: "poll_read_raw n t = (p, s')"
        using "1.prems" q err by (subst (asm) poll_read_raw.simps) simp
      have b: "rd_bytes s = rd_bytes t"
        using q err by (auto simp: poll_read_def rd_bytes_def split: list.splits rd_ev.splits)
      from "1.IH" [OF q [symmetric] err(1) refl True eq] fr err(2) b show ?thesis
        by (auto split: poll.splits sum.splits intro: rd_frame_trans)
    next
      case False
      then show ?thesis using "1.prems" q err fr by (subst (asm) poll_read_raw.simps) auto
    qed
  qed (use "1.prems" q fr in \<open>(subst (asm) poll_read_raw.simps; auto)+\<close>)
qed

lemma poll_write_raw_spec:
  "poll_write_raw bs s = (p, s') \<Longrightarrow> honest s \<Longrightarrow> wr_frame s s' \<and> p \<noteq> Ready (Inl WouldBlock) \<and>
     (case p of Ready (Inr i) \<Rightarrow> i \<le> length bs \<and> sent s' = sent s @ take i bs \<and> length (wr_evs s') < length (wr_evs s)
      | _ \<Rightarrow> sent s' = sent s)"
proof (induction bs s arbitrary: p s' rule: poll_write_raw.induct)
  case (1 bs s)
  obtain q t where q: "poll_write bs s = (q, t)" by (cases "poll_write bs s")
  have h: "honest t" by (rule poll_write_honest [OF q "1.prems"(2)])
  have fr: "wr_frame s t" using poll_write_frame [OF q] h by (simp add: wr_frame_def)
  show ?case
    using q "1.prems"(2)
  proof (cases rule: poll_write_cases)
    case (err e)
    show ?thesis
    proof (cases "e = WouldBlock")
      case True
      then have eq: "poll_write_raw bs t = (p, s')"
        using "1.prems" q err by (subst (asm) poll_write_raw.simps) simp
      have b: "length (wr_evs t) \<le> length (wr_evs s)"
        using q err by (auto simp: poll_write_def split: list.splits wr_ev.splits)
      from "1.IH" [OF q [symmetric] err(1) refl True eq h] fr err(2) b show ?thesis
        by (auto split: poll.splits sum.splits intro: wr_frame_trans)
    next
      case False
      then show ?thesis using "1.prems" q err fr by (subst (asm) poll_write_raw.simps) auto
    qed
  qed (use "1.prems" q fr in \<open>(subst (asm) poll_write_raw.simps; auto)+\<close>)
qed

section \<open>The interface\<close>

definition pipe_bwf :: "nat \<Rightarrow> nat \<Rightarrow> pipe \<Rightarrow> bool" where
  "pipe_bwf q c p \<longleftrightarrow> q \<le> c \<and> length (pp_data p) = c - q"

definition pipe_content :: "nat \<Rightarrow> nat \<Rightarrow> pipe \<Rightarrow> bytes" where
  "pipe_content q c p = pp_data p"

lemma pipe_bwf_fresh: "pp_data p = [] \<Longrightarrow> pipe_bwf 0 0 p"
  by (simp add: pipe_bwf_def)

lemma zc_read_cases:
  assumes "zc_poll_read_buf cb r = (p, cb', r')"
  obtains (stop) "\<forall>n. p \<noteq> Ready (Inr n)" "cb' = cb" "rcvd r' = rcvd r" "rd_frame r r'"
  | (data) bs where "p = Ready (Inr (length bs))" "rcvd r' = rcvd r @ bs" "rd_bytes r = length bs + rd_bytes r'"
      "length (pp_data (cb_buf cb)) + length bs \<le> pp_cap (cb_buf cb)"
      "cb' = cb\<lparr>cb_buf := (cb_buf cb)\<lparr>pp_data := pp_data (cb_buf cb) @ bs\<rparr>\<rparr>" "rd_frame r r'"
proof (cases "pp_cap (cb_buf cb) \<le> length (pp_data (cb_buf cb))")
  case True
  then show thesis using assms that(1) by (auto simp: zc_poll_read_buf_def Let_def)
next
  case False
  obtain q s where q: "poll_read_raw (pp_cap (cb_buf cb) - length (pp_data (cb_buf cb))) r = (q, s)"
    by (cases "poll_read_raw (pp_cap (cb_buf cb) - length (pp_data (cb_buf cb))) r")
  note spec = poll_read_raw_spec [OF q]
  show thesis
  proof (cases "\<exists>bs. q = Ready (Inr bs)")
    case True
    then obtain bs where "q = Ready (Inr bs)" by blast
    then show thesis using assms q False spec by (intro that(2) [of bs]) (auto simp: zc_poll_read_buf_def Let_def)
  next
    case other: False
    then show thesis using assms q False spec
      by (intro that(1); cases q) (auto simp: zc_poll_read_buf_def Let_def split: sum.splits)
  qed
qed

lemma zc_write_cases:
  assumes "zc_poll_write_buf cb w = (p, cb', w')" "honest w"
  obtains (stop) "\<forall>n. p \<noteq> Ready (Inr n)" "cb' = cb" "sent w' = sent w" "wr_frame w w'"
  | (wrote) i where "p = Ready (Inr i)" "i \<le> cb_cap cb - cb_pos cb" "i \<le> length (pp_data (cb_buf cb))"
      "sent w' = sent w @ take i (pp_data (cb_buf cb))" "length (wr_evs w') < length (wr_evs w)"
      "cb' = cb\<lparr>cb_buf := (cb_buf cb)\<lparr>pp_data := drop i (pp_data (cb_buf cb))\<rparr>\<rparr>" "wr_frame w w'"
proof -
  obtain q s where q: "poll_write_raw (take (cb_cap cb - cb_pos cb) (pp_data (cb_buf cb))) w = (q, s)"
    by (cases "poll_write_raw (take (cb_cap cb - cb_pos cb) (pp_data (cb_buf cb))) w")
  note spec = poll_write_raw_spec [OF q assms(2)]
  show thesis
  proof (cases "\<exists>i. q = Ready (Inr i)")
    case True
    then obtain i where i: "q = Ready (Inr i)" by blast
    with spec have "i \<le> cb_cap cb - cb_pos cb" "i \<le> length (pp_data (cb_buf cb))" by simp_all
    then show thesis using i assms(1) q spec by (intro that(2) [of i]) (auto simp: zc_poll_write_buf_def Let_def min_absorb1)
  next
    case other: False
    then show thesis using assms q spec
      by (intro that(1); cases q) (auto simp: zc_poll_write_buf_def Let_def split: sum.splits)
  qed
qed

lemma zc_read_any: "zc_poll_read_buf cb r = (p, cb', r') \<Longrightarrow> rd_frame r r' \<and> cb' = cb\<lparr>cb_buf := cb_buf cb'\<rparr>"
  by (erule zc_read_cases) auto

lemma zc_write_any:
  assumes "zc_poll_write_buf cb w = (p, cb', w')"
  shows "wr_frame w w' \<and> cb' = cb\<lparr>cb_buf := cb_buf cb'\<rparr>"
proof -
  have raw: "poll_write_raw bs s = (q, s') \<Longrightarrow> wr_frame s s'" for bs s q s'
  proof (induction bs s arbitrary: q s' rule: poll_write_raw.induct)
    case (1 bs s)
    obtain p t where t: "poll_write bs s = (p, t)" by (cases "poll_write bs s")
    have "wr_frame s t" using poll_write_frame [OF t] poll_write_honest [OF t] by (simp add: wr_frame_def)
    then show ?case using "1.prems" "1.IH" [OF t [symmetric]] t
      by (subst (asm) poll_write_raw.simps)
        (auto split: poll.splits sum.splits if_splits intro: wr_frame_trans)
  qed
  show ?thesis using assms
    by (auto simp: zc_poll_write_buf_def Let_def split: prod.splits poll.splits sum.splits dest: raw)
qed

interpretation zc: async_io_buf zc_poll_read_buf zc_poll_write_buf pipe_content pipe_bwf "\<lambda>b. b"
proof (unfold_locales, goal_cases)
  case (1 q c b)
  then show ?case by (simp add: pipe_bwf_def pipe_content_def)
next
  case (2 cb r p cb' r')
  then show ?case by (rule zc_read_any)
next
  case (3 cb r p cb' r')
  then show ?case by (auto elim!: zc_read_cases)
next
  case (4 cb r m cb' r')
  from 4(3) show ?case
  proof (cases rule: zc_read_cases)
    case (data bs)
    then show ?thesis using 4 by (intro exI [of _ bs]) (auto simp: pipe_bwf_def pipe_content_def)
  qed simp
next
  case (5 cb w p cb' w')
  then show ?case by (rule zc_write_any)
next
  case (6 cb w p cb' w')
  from 6(3,2) show ?case by (rule zc_write_cases) (use 6 in auto)
next
  case (7 cb w i cb' w')
  from 7(3,2) show ?case
    by (rule zc_write_cases) (use 7(1) in \<open>auto simp: pipe_bwf_def pipe_content_def\<close>)
qed

section \<open>Properties\<close>

text \<open>
  C15: The zero-copy path moves the bytes unchanged: from a fresh pipe, after any number of polls with
  any readiness, \<open>EAGAIN\<close> and errors in between, what was written followed by what is in the pipe is
  what was read; a finished poll has written and flushed all of it and reports its length, and
  each poll returns.
\<close>
theorem zero_copy_exact:
  assumes "pipe_new pipe_size ans fds = (Inr p, fds')"
    and "copying zc_poll_read_buf zc_poll_write_buf (copy_buffer_new p, r, w) (cb, r1, w1)"
    and "honest w"
  shows "sent w1 @ pp_data (cb_buf cb) = sent w @ drop (length (rcvd r)) (rcvd r1) \<and>
    poll_copy (rd_bytes r1 + length (wr_evs w1) + 2) zc_poll_read_buf zc_poll_write_buf cb r1 w1 \<noteq> None \<and>
    (\<forall>fuel amt cb' r' w'.
       poll_copy fuel zc_poll_read_buf zc_poll_write_buf cb r1 w1 = Some (Ready (Inr amt), cb', r', w') \<longrightarrow>
       sent w' = sent w @ drop (length (rcvd r)) (rcvd r') \<and>
       amt = length (rcvd r') - length (rcvd r) \<and> flushed w' = length (sent w'))"
proof -
  note b = pipe_bwf_fresh [OF pipe_new_empty [OF assms(1)]]
  show ?thesis
    using zc.copying_exact [OF assms(2) b assms(3)] zc.copying_result [OF assms(2) b assms(3)]
      zc.copying_returns [OF assms(2) b assms(3)]
    by (simp add: pipe_content_def)
qed

definition splice_stream :: stream where
  "splice_stream = \<lparr>rd_evs = [RdErr WouldBlock, RdData [1, 2, 3], RdData []],
     wr_evs = [WrErr WouldBlock, WrAccept 2, WrAccept 9],
     fl_evs = [FlOk], sd_evs = [FlOk], rcvd = [], sent = [], flushed = 0, shut = False\<rparr>"

definition splice_pipe :: pipe where
  "splice_pipe = \<lparr>pp_rd = 3, pp_wr = 4, pp_cap = 16, pp_data = []\<rparr>"

lemma zero_copy_run:
  "case poll_copy 9 zc_poll_read_buf zc_poll_write_buf (copy_buffer_new splice_pipe) splice_stream splice_stream of
     None \<Rightarrow> False
   | Some (p, cb, r, w) \<Rightarrow> p = Ready (Inr 3) \<and> rcvd r = [1, 2, 3]"
  by code_simp

theorem zero_copy_exact_witness:
  "\<exists>cb r w. poll_copy 9 zc_poll_read_buf zc_poll_write_buf (copy_buffer_new splice_pipe) splice_stream splice_stream
       = Some (Ready (Inr 3), cb, r, w) \<and> sent w = [1, 2, 3] \<and> flushed w = 3"
proof -
  obtain cb r w where d: "poll_copy 9 zc_poll_read_buf zc_poll_write_buf (copy_buffer_new splice_pipe) splice_stream
       splice_stream = Some (Ready (Inr 3), cb, r, w)" "rcvd r = [1, 2, 3]"
    using zero_copy_run by (auto split: option.splits)
  have p: "pipe_new 16 (PipeFds 3 4 (Some 16)) {} = (Inr splice_pipe, {3, 4})"
    by (simp add: pipe_new_def splice_pipe_def DF_PIPE_SIZE_def)
  have "honest splice_stream" by (simp add: honest_def splice_stream_def)
  then have "sent w = sent splice_stream @ drop (length (rcvd splice_stream)) (rcvd r) \<and> flushed w = length (sent w)"
    using zero_copy_exact [OF p copying.fresh] d(1) by blast
  then show ?thesis using d by (simp add: splice_stream_def)
qed

end
