(* ===== verification/Obfs.thy ===== *)
theory Obfs
  imports Stream_IO
begin

text \<open>
  The obfuscation prefix of \<^verbatim>\<open>hoorayhug_io/src/bidi_copy.rs\<close>: the generator \<^verbatim>\<open>SimpleRng\<close>,
  \<^verbatim>\<open>generate_dynamic_obfs\<close> of the client and \<^verbatim>\<open>consume_dynamic_obfs\<close> of the server. The
  header has five bytes; two or three of them are ASCII digits, which give the length of the
  garbage that follows. The seed (the clock) is a parameter. The three seconds a refused probe waits are
  not modelled. The unwraps of the code are branches that panic; both functions are shown not to reach them.
\<close>

section \<open>The generator\<close>

definition next_range :: "u32 \<Rightarrow> u32 \<Rightarrow> u64 \<Rightarrow> u32 \<times> u64" where
  "next_range lo hi st =
     (let st' = st * 6364136223846793005 + 1;
          val = (ucast (drop_bit 32 st') :: u32)
      in (lo + val mod (hi - lo + 1), st'))"

definition rng_digits :: "u64 \<Rightarrow> bytes \<times> u64" where
  "rng_digits st =
     (let (two, st1) = next_range 0 1 st in
      if two = 0
      then let (d1, st2) = next_range 1 9 st1; (d2, st3) = next_range 0 9 st2
           in ([ucast d1 + 48, ucast d2 + 48], st3)
      else let (d1, st2) = next_range 0 9 st1;
               (d2, st3) = (if (ucast d1 :: u8) = 0 then next_range 1 9 st2 else next_range 0 9 st2);
               (d3, st4) = next_range 0 9 st3
           in ([ucast d1 + 48, ucast d2 + 48, ucast d3 + 48], st4))"

definition swap_at :: "nat \<Rightarrow> nat \<Rightarrow> 'a list \<Rightarrow> 'a list" where
  "swap_at i j xs = xs[i := xs ! j, j := xs ! i]"

fun shuffle :: "nat list \<Rightarrow> nat list \<Rightarrow> u64 \<Rightarrow> nat list \<times> u64" where
  "shuffle [] ix st = (ix, st)"
| "shuffle (i # is) ix st =
     (let (j, st') = next_range (of_nat i) 4 st in shuffle is (swap_at i (unat j) ix) st')"

definition digit_indices :: "nat \<Rightarrow> u64 \<Rightarrow> nat list \<times> u64" where
  "digit_indices k st = (let (ix, st') = shuffle [0, 1, 2, 3] [0, 1, 2, 3, 4] st in (sort (take k ix), st'))"

fun fill_header :: "nat list \<Rightarrow> nat list \<Rightarrow> bytes \<Rightarrow> u64 \<Rightarrow> (bytes \<times> u64) checked" where
  "fill_header [] ix ds st = Inr ([], st)"
| "fill_header (i # is) ix ds st =
     (if i \<in> set ix
      then case ds of
             [] \<Rightarrow> Inl (Panic ''digit_iter.next().unwrap()'')
           | d # ds' \<Rightarrow> bind_sum (fill_header is ix ds' st) (\<lambda>(bs, st'). Inr (d # bs, st'))
      else let (v, st1) = next_range 0 245 st;
               val = (ucast v :: u8);
               b = (if val < 48 then val else val + 10)
           in bind_sum (fill_header is ix ds st1) (\<lambda>(bs, st'). Inr (b # bs, st')))"

definition is_ascii_digit :: "u8 \<Rightarrow> bool" where
  "is_ascii_digit b \<longleftrightarrow> 48 \<le> b \<and> b \<le> 57"

definition digit_bytes :: "bytes \<Rightarrow> bytes" where
  "digit_bytes bs = filter is_ascii_digit bs"

definition byte_str :: "bytes \<Rightarrow> string" where
  "byte_str bs = map (\<lambda>b. char_of (unat b)) bs"

definition parse_len :: "bytes \<Rightarrow> nat option" where
  "parse_len ds = parse_uint (2 ^ 64) (byte_str ds)"

definition xor_key :: "bytes \<Rightarrow> bytes \<Rightarrow> bytes" where
  "xor_key key bs =
     (if key = [] then bs else map (\<lambda>i. bs ! i XOR key ! (i mod length key)) [0..<length bs])"

fun rng_bytes :: "nat \<Rightarrow> u64 \<Rightarrow> bytes" where
  "rng_bytes 0 st = []"
| "rng_bytes (Suc n) st = (let (v, st') = next_range 0 255 st in ucast v # rng_bytes n st')"

definition generate_dynamic_obfs :: "bytes \<Rightarrow> u64 \<Rightarrow> bytes checked" where
  "generate_dynamic_obfs key seed =
     (let (digits, st1) = rng_digits seed;
          (ix, st2) = digit_indices (length digits) st1
      in bind_sum (fill_header [0, 1, 2, 3, 4] ix digits st2) (\<lambda>(header, st3).
         case parse_len (digit_bytes header) of
           None \<Rightarrow> Inl (Panic ''l_str.parse().unwrap()'')
         | Some garbage_len \<Rightarrow> Inr (xor_key key header @ rng_bytes garbage_len st3)))"

section \<open>The consumer\<close>

definition is_probe :: "bytes \<Rightarrow> bool" where
  "is_probe ds =
     (let len = length ds in
      if len \<noteq> 2 \<and> len \<noteq> 3 then True
      else if len = 2 \<and> ds ! 0 = 48 then True
      else len = 3 \<and> ds ! 0 = 48 \<and> ds ! 1 = 48)"

definition consume_dynamic_obfs :: "bytes \<Rightarrow> stream \<Rightarrow> (unit io_result poll \<times> stream) checked" where
  "consume_dynamic_obfs key s =
     (case read_exact 5 s of
        (Pending, s') \<Rightarrow> Inr (Pending, s')
      | (Ready (Inl e), s') \<Rightarrow> Inr (Ready (Inl e), s')
      | (Ready (Inr header), s') \<Rightarrow>
          (let digits = digit_bytes (xor_key key header) in
           if is_probe digits then Inr (Ready (Inl InvalidData), s')
           else case parse_len digits of
                  None \<Rightarrow> Inl (Panic ''length_str.parse().unwrap()'')
                | Some l \<Rightarrow>
                    if 999 < l then Inr (Ready (Inl InvalidData), s')
                    else (case read_exact l s' of
                            (Pending, s'') \<Rightarrow> Inr (Pending, s'')
                          | (Ready (Inl e), s'') \<Rightarrow> Inr (Ready (Inl e), s'')
                          | (Ready (Inr _), s'') \<Rightarrow> Inr (Ready (Inr ()), s''))))"

definition obfs_key :: bytes where
  "obfs_key = str_bytes ''hoorayhug_obfs_key_2024''"

section \<open>Ranges\<close>

lemma next_range_bounds:
  assumes "next_range a b st = (v, st')" "a \<le> b" "unat b - unat a < 2 ^ 32 - 1"
  shows "a \<le> v \<and> v \<le> b"
proof -
  let ?m = "b - a + 1" and ?x = "(ucast (drop_bit 32 st') :: u32)"
  have st': "v = a + ?x mod ?m" using assms(1) by (auto simp: next_range_def Let_def)
  have m: "unat ?m = unat b - unat a + 1"
    using assms(2,3) by (simp add: unat_word_ariths unat_sub word_le_nat_alt)
  have "unat (?x mod ?m) \<le> unat b - unat a"
    using m by (simp add: unat_mod flip: less_Suc_eq_le)
  moreover have "unat a \<le> unat b" using assms(2) by (simp add: word_le_nat_alt)
  moreover have "unat b < 2 ^ 32" using unsigned_less [of b] by simp
  ultimately have "unat v = unat a + unat (?x mod ?m)" and "unat v \<le> unat b"
    unfolding st' by (simp_all add: unat_word_ariths)
  then show ?thesis by (simp add: word_le_nat_alt)
qed

section \<open>Digits\<close>

definition valid_digits :: "bytes \<Rightarrow> bool" where
  "valid_digits ds \<longleftrightarrow> list_all is_ascii_digit ds \<and> \<not> is_probe ds"

lemma u32_le_9:
  assumes "(d :: u32) \<le> 9"
  shows "d \<in> {0, 1, 2, 3, 4, 5, 6, 7, 8, 9}"
proof -
  have "unat d \<le> 9" using assms by (simp add: word_le_nat_alt)
  then have "unat d \<in> {0, 1, 2, 3, 4, 5, 6, 7, 8, 9}" by auto
  then have "of_nat (unat d) \<in> (of_nat ` {0, 1, 2, 3, 4, 5, 6, 7, 8, 9} :: u32 set)" by blast
  then show ?thesis by simp
qed

lemma digit_byte:
  assumes "d \<le> 9"
  shows "is_ascii_digit (ucast (d :: u32) + 48)" and "(ucast d + 48 = (48 :: u8)) = (d = 0)"
    and "((ucast d :: u8) = 0) = (d = 0)"
  using u32_le_9 [OF assms] by (auto simp: is_ascii_digit_def)

lemma is_ascii_digit_48 [simp]: "is_ascii_digit 48"
  by (simp add: is_ascii_digit_def)

lemma next_range_digit: "next_range 0 9 st = (v, st') \<Longrightarrow> v \<le> 9"
  and next_range_digit1: "next_range 1 9 st = (v, st') \<Longrightarrow> v \<le> 9 \<and> v \<noteq> 0"
  by (drule next_range_bounds; force)+

lemma rng_digits_valid: "rng_digits st = (ds, st') \<Longrightarrow> valid_digits ds"
  by (auto simp: rng_digits_def valid_digits_def is_probe_def Let_def digit_byte is_ascii_digit_48
      dest!: next_range_digit next_range_digit1 split: prod.splits if_splits)

lemma valid_digits_length: "valid_digits ds \<Longrightarrow> length ds = 2 \<or> length ds = 3"
  by (auto simp: valid_digits_def is_probe_def Let_def split: if_splits)

lemma byte_char: "(of_char (char_of (unat (b :: u8))) :: nat) = unat b"
  using unsigned_less [of b, where ?'a = nat] by (simp add: take_bit_eq_mod)

lemma digit_byte_char:
  assumes "is_ascii_digit b"
  shows "is_digit (char_of (unat b))" "digit_val (char_of (unat b)) = unat b - 48" "unat b - 48 \<le> 9" "48 \<le> unat b"
  using assms by (auto simp: is_ascii_digit_def is_digit_def digit_val_def byte_char word_le_nat_alt)

lemma unat_neq_48: "(b :: u8) \<noteq> 48 \<Longrightarrow> unat b \<noteq> 48"
  using word_unat_eq_iff [of b 48] by simp

lemma parse_len_valid:
  assumes "valid_digits ds"
  shows "\<exists>l. parse_len ds = Some l \<and> 10 \<le> l \<and> l \<le> 999"
proof -
  have dig: "list_all is_digit (byte_str ds)"
    using assms digit_byte_char(1) by (auto simp: valid_digits_def byte_str_def list_all_iff)
  have ne: "ds \<noteq> []" using valid_digits_length [OF assms] by auto
  have val: "10 \<le> digits_val (byte_str ds) \<and> digits_val (byte_str ds) \<le> 999"
    using valid_digits_length [OF assms]
  proof
    assume "length ds = 2"
    then obtain x y where ds: "ds = [x, y]" by (auto simp: numeral_2_eq_2 length_Suc_conv)
    have d: "is_ascii_digit x" "is_ascii_digit y" "x \<noteq> 48"
      using assms by (auto simp: ds valid_digits_def is_probe_def)
    have "unat x \<noteq> 48" using d(3) by (rule unat_neq_48)
    then show ?thesis using digit_byte_char [OF d(1)] digit_byte_char [OF d(2)]
      by (simp add: ds byte_str_def digits_val_def, arith)
  next
    assume "length ds = 3"
    then obtain x y z where ds: "ds = [x, y, z]" by (auto simp: numeral_3_eq_3 length_Suc_conv)
    have d: "is_ascii_digit x" "is_ascii_digit y" "is_ascii_digit z" "\<not> (x = 48 \<and> y = 48)"
      using assms by (auto simp: ds valid_digits_def is_probe_def)
    have "\<not> (unat x = 48 \<and> unat y = 48)" using d(4) unat_neq_48 by blast
    then show ?thesis using digit_byte_char [OF d(1)] digit_byte_char [OF d(2)] digit_byte_char [OF d(3)]
      by (auto simp: ds byte_str_def digits_val_def)
  qed
  have "parse_len ds = Some (digits_val (byte_str ds))"
    unfolding parse_len_def using dig val ne by (intro parse_uint_digits) (simp_all add: byte_str_def)
  with val show ?thesis by blast
qed

text \<open>Few digits cannot overflow; the equation spares the evaluation of \<open>2 ^ 64\<close> in unary.\<close>

lemma parse_len_code [code]:
  "parse_len ds =
     (if length ds \<le> 3 \<and> ds \<noteq> [] \<and> list_all is_digit (byte_str ds) then Some (digits_val (byte_str ds))
      else parse_uint (2 ^ 64) (byte_str ds))"
proof (cases "length ds \<le> 3 \<and> ds \<noteq> [] \<and> list_all is_digit (byte_str ds)")
  case True
  then have "digits_val (byte_str ds) < 10 ^ length ds"
    using digits_val_less [of "byte_str ds"] by (simp add: byte_str_def)
  also have "\<dots> \<le> 10 ^ 3" using True by (intro power_increasing) simp_all
  also have "\<dots> < (2 ^ 64 :: nat)" by simp
  finally show ?thesis using True parse_uint_digits [of "byte_str ds" "2 ^ 64"]
    by (simp add: parse_len_def byte_str_def)
next
  case False
  then show ?thesis unfolding parse_len_def by (simp only: if_False)
qed

section \<open>The header\<close>

lemma mset_shuffle:
  assumes "shuffle is ix st = (ix', st')" "\<forall>i \<in> set is. i \<le> 4" "length ix = 5"
  shows "mset ix' = mset ix"
  using assms
proof (induction "is" arbitrary: ix st)
  case (Cons i "is")
  obtain j s where j: "next_range (of_nat i) 4 st = (j, s)" by (cases "next_range (of_nat i) 4 st")
  have i: "i \<le> 4" using Cons.prems(2) by simp
  have "(of_nat i :: u32) \<le> 4" using i by (simp add: word_le_nat_alt unat_of_nat)
  from next_range_bounds [OF j this] i have "unat j \<le> 4"
    by (simp add: word_le_nat_alt unat_of_nat)
  then have "mset (swap_at i (unat j) ix) = mset ix"
    using mset_swap [of "unat j" ix i] i Cons.prems(3) by (simp add: swap_at_def)
  moreover have "length (swap_at i (unat j) ix) = 5" using Cons.prems(3) by (simp add: swap_at_def)
  ultimately show ?case using Cons.IH [of "swap_at i (unat j) ix" s] Cons.prems j by simp
qed simp

lemma digit_indices_count:
  assumes "digit_indices k st = (ix, st')" "k \<le> 5"
  shows "length (filter (\<lambda>i. i \<in> set ix) [0, 1, 2, 3, 4]) = k"
proof -
  obtain xs where xs: "shuffle [0, 1, 2, 3] [0, 1, 2, 3, 4] st = (xs, st')" "ix = sort (take k xs)"
    using assms(1) by (auto simp: digit_indices_def split: prod.splits)
  have m: "mset xs = mset [0, 1, 2, 3, 4]" by (rule mset_shuffle [OF xs(1)]) auto
  then have d: "distinct xs" "set xs = {0, 1, 2, 3, 4}" "length xs = 5"
    using mset_eq_imp_distinct_iff [OF m] mset_eq_setD [OF m] mset_eq_length [OF m] by auto
  have sub: "set ix \<subseteq> {0, 1, 2, 3, 4}" using d(2) set_take_subset [of k xs] by (simp add: xs(2))
  have "length (filter (\<lambda>i. i \<in> set ix) [0, 1, 2, 3, 4]) = card (set (filter (\<lambda>i. i \<in> set ix) [0, 1, 2, 3, 4 :: nat]))"
    by (rule distinct_card [symmetric]) (rule distinct_filter, simp)
  also have "set (filter (\<lambda>i. i \<in> set ix) [0, 1, 2, 3, 4]) = set ix" using sub by (auto simp only: set_filter) auto
  also have "card (set ix) = k"
    using d(1,3) assms(2) by (simp add: xs(2) distinct_card)
  finally show ?thesis .
qed

lemma filler_byte:
  assumes "(v :: u32) \<le> 245"
  shows "\<not> is_ascii_digit (if (ucast v :: u8) < 48 then ucast v else ucast v + 10)"
proof -
  have v: "unat v \<le> 245" using assms by (simp add: word_le_nat_alt)
  then have u: "unat (ucast v :: u8) = unat v" by (simp add: unsigned_ucast_eq take_bit_eq_mod)
  show ?thesis
  proof (cases "unat v < 48")
    case True
    then show ?thesis by (simp add: is_ascii_digit_def word_le_nat_alt word_less_nat_alt u)
  next
    case False
    have "unat (ucast v + 10 :: u8) = unat v + 10"
      using v u by (subst unat_add_lem [THEN iffD1]) simp_all
    with False show ?thesis by (simp add: is_ascii_digit_def word_le_nat_alt word_less_nat_alt u)
  qed
qed

lemma fill_header_spec:
  assumes "length (filter (\<lambda>i. i \<in> set ix) is) = length ds" "list_all is_ascii_digit ds"
  shows "\<exists>bs st'. fill_header is ix ds st = Inr (bs, st') \<and> length bs = length is \<and> digit_bytes bs = ds"
  using assms
proof (induction "is" arbitrary: ds st)
  case Nil
  then show ?case by (simp add: digit_bytes_def)
next
  case (Cons i "is")
  show ?case
  proof (cases "i \<in> set ix")
    case True
    with Cons.prems obtain d ds' where ds: "ds = d # ds'" by (cases ds) auto
    then obtain bs st' where bs: "fill_header is ix ds' st = Inr (bs, st')" "length bs = length is" "digit_bytes bs = ds'"
      using Cons.IH [of ds' st] Cons.prems True by auto
    with True ds Cons.prems(2) show ?thesis by (simp add: digit_bytes_def)
  next
    case False
    obtain v s where v: "next_range 0 245 st = (v, s)" by (cases "next_range 0 245 st")
    have "v \<le> 245" using next_range_bounds [OF v] by simp
    note nd = filler_byte [OF this]
    obtain bs st' where bs: "fill_header is ix ds s = Inr (bs, st')" "length bs = length is" "digit_bytes bs = ds"
      using Cons.IH [of ds s] Cons.prems False by auto
    with False v nd show ?thesis by (simp add: digit_bytes_def Let_def)
  qed
qed

lemma length_xor_key [simp]: "length (xor_key key bs) = length bs"
  by (simp add: xor_key_def)

lemma xor_key_involution [simp]: "xor_key key (xor_key key bs) = bs"
  by (auto simp: xor_key_def xor.assoc intro!: nth_equalityI)

lemma length_rng_bytes [simp]: "length (rng_bytes n st) = n"
  by (induction n arbitrary: st) (simp_all add: case_prod_beta)

lemma generate_spec:
  obtains hdr l g where "generate_dynamic_obfs key seed = Inr (xor_key key hdr @ g)"
    "length hdr = 5" "valid_digits (digit_bytes hdr)" "parse_len (digit_bytes hdr) = Some l" "length g = l"
    "10 \<le> l" "l \<le> 999"
proof -
  obtain ds st1 where ds: "rng_digits seed = (ds, st1)" by (cases "rng_digits seed")
  note val = rng_digits_valid [OF ds]
  obtain ix st2 where ix: "digit_indices (length ds) st1 = (ix, st2)" by (cases "digit_indices (length ds) st1")
  have "length ds \<le> 5" using valid_digits_length [OF val] by auto
  from fill_header_spec [OF digit_indices_count [OF ix this]] val
  obtain hdr st3 where h: "fill_header [0, 1, 2, 3, 4] ix ds st2 = Inr (hdr, st3)" "length hdr = 5" "digit_bytes hdr = ds"
    unfolding valid_digits_def by force
  obtain l where l: "parse_len ds = Some l" "10 \<le> l" "l \<le> 999" using parse_len_valid [OF val] by blast
  have "generate_dynamic_obfs key seed = Inr (xor_key key hdr @ rng_bytes l st3)"
    using ds ix h l(1) by (simp add: generate_dynamic_obfs_def)
  then show thesis by (rule that) (use h val l in simp_all)
qed

section \<open>The consumer's behaviour\<close>

lemma digit_bytes_all: "list_all is_ascii_digit (digit_bytes bs)"
  by (simp add: digit_bytes_def list_all_iff)

lemma not_probe_len:
  assumes "\<not> is_probe (digit_bytes bs)"
  obtains l where "parse_len (digit_bytes bs) = Some l" "10 \<le> l" "l \<le> 999"
  using assms parse_len_valid [of "digit_bytes bs"] digit_bytes_all by (auto simp: valid_digits_def)

lemma consume_no_panic: "\<exists>p s'. consume_dynamic_obfs key s = Inr (p, s')"
proof -
  obtain p t where r: "read_exact 5 s = (p, t)" by (cases "read_exact 5 s")
  show ?thesis
  proof (cases "\<exists>hdr. p = Ready (Inr hdr) \<and> \<not> is_probe (digit_bytes (xor_key key hdr))")
    case True
    then obtain hdr where h: "p = Ready (Inr hdr)" "\<not> is_probe (digit_bytes (xor_key key hdr))" by blast
    obtain l where "parse_len (digit_bytes (xor_key key hdr)) = Some l" "l \<le> 999"
      using not_probe_len [OF h(2)] .
    then show ?thesis using r h
      by (cases "read_exact l t") (auto simp: consume_dynamic_obfs_def split: poll.splits sum.splits)
  next
    case False
    then show ?thesis using r by (auto simp: consume_dynamic_obfs_def Let_def split: poll.splits sum.splits)
  qed
qed

lemma consume_rd_frame:
  assumes "consume_dynamic_obfs key s = Inr (p, s')"
  shows "rd_frame s s'"
proof -
  obtain q t where r: "read_exact 5 s = (q, t)" by (cases "read_exact 5 s")
  note f = read_exact_rd_frame [OF r]
  have "s' = t \<or> (\<exists>l u. read_exact l t = (u, s'))"
    using assms r
    by (auto simp: consume_dynamic_obfs_def Let_def split: poll.splits sum.splits if_splits option.splits prod.splits)
  then show ?thesis using f read_exact_rd_frame rd_frame_trans by blast
qed

lemma consume_rcvd:
  assumes "consume_dynamic_obfs key s = Inr (p, s')"
  shows "\<exists>bs. rcvd s' = rcvd s @ bs"
proof -
  obtain q t where r: "read_exact 5 s = (q, t)" by (cases "read_exact 5 s")
  obtain bs where t: "rcvd t = rcvd s @ bs" using read_exact_rcvd [OF r] by blast
  have "s' = t \<or> (\<exists>l u. read_exact l t = (u, s'))"
    using assms r
    by (auto simp: consume_dynamic_obfs_def Let_def split: poll.splits sum.splits if_splits option.splits prod.splits)
  then obtain cs where "rcvd s' = rcvd t @ cs" using read_exact_rcvd by fastforce
  with t show ?thesis by simp
qed

text \<open>What an accepting consumer has read.\<close>

lemma consume_Ready:
  assumes "consume_dynamic_obfs key s = Inr (Ready (Inr ()), s')"
  obtains hdr g where "rcvd s' = rcvd s @ hdr @ g" "length hdr = 5"
    "parse_len (digit_bytes (xor_key key hdr)) = Some (length g)"
proof -
  obtain hdr t where r: "read_exact 5 s = (Ready (Inr hdr), t)"
    using assms by (cases "read_exact 5 s") (auto simp: consume_dynamic_obfs_def split: poll.splits sum.splits)
  obtain l where l: "parse_len (digit_bytes (xor_key key hdr)) = Some l"
    using assms r by (auto simp: consume_dynamic_obfs_def Let_def split: if_splits option.splits)
  obtain g where g: "read_exact l t = (Ready (Inr g), s')"
    using assms r l by (cases "read_exact l t")
      (auto simp: consume_dynamic_obfs_def Let_def split: if_splits poll.splits sum.splits)
  show thesis
    using read_exact_Ready [OF r] read_exact_Ready [OF g] l by (intro that [of hdr g]) auto
qed

lemma consume_probe:
  assumes "clean s" "5 \<le> length (incoming s)" "is_probe (digit_bytes (xor_key key (take 5 (incoming s))))"
  shows "\<exists>s'. consume_dynamic_obfs key s = Inr (Ready (Inl InvalidData), s') \<and>
    rcvd s' = rcvd s @ take 5 (incoming s) \<and> incoming s' = drop 5 (incoming s)"
proof -
  obtain t where t: "read_exact 5 s = (Ready (Inr (take 5 (incoming s))), t)" "incoming t = drop 5 (incoming s)"
    using read_exact_clean [OF assms(1,2)] by blast
  have "rcvd t = rcvd s @ take 5 (incoming s)" using read_exact_Ready [OF t(1)] by blast
  with t assms(3) show ?thesis by (simp add: consume_dynamic_obfs_def)
qed

lemma consume_accept:
  assumes "clean s" "\<not> is_probe (digit_bytes (xor_key key (take 5 (incoming s))))"
    "parse_len (digit_bytes (xor_key key (take 5 (incoming s)))) = Some l" "5 + l \<le> length (incoming s)"
  shows "\<exists>s'. consume_dynamic_obfs key s = Inr (Ready (Inr ()), s') \<and> clean s' \<and>
    rcvd s' = rcvd s @ take (5 + l) (incoming s) \<and> incoming s' = drop (5 + l) (incoming s)"
proof -
  have "5 \<le> length (incoming s)" using assms(4) by simp
  from read_exact_clean [OF assms(1) this]
  obtain t where t: "read_exact 5 s = (Ready (Inr (take 5 (incoming s))), t)" "clean t" "incoming t = drop 5 (incoming s)"
    by blast
  have l: "l \<le> 999" using not_probe_len [OF assms(2)] assms(3) by force
  have "l \<le> length (incoming t)" using assms(4) t(3) by simp
  from read_exact_clean [OF t(2) this]
  obtain u where u: "read_exact l t = (Ready (Inr (take l (incoming t))), u)" "clean u" "incoming u = drop l (incoming t)"
    by blast
  have "rcvd t = rcvd s @ take 5 (incoming s)" "rcvd u = rcvd t @ take l (incoming t)"
    using read_exact_Ready [OF t(1)] read_exact_Ready [OF u(1)] by blast+
  moreover have "take (5 + l) (incoming s) = take 5 (incoming s) @ take l (drop 5 (incoming s))" by (rule take_add)
  ultimately show ?thesis using t u assms(2,3) l
    by (simp add: consume_dynamic_obfs_def add.commute)
qed

section \<open>Properties\<close>

text \<open>
  C13: What the client sends the server accepts: for every clock seed and key the generator returns a
  prefix of 15 to 1004 bytes without panicking, and the consumer with the same key, on a stream that
  delivers the prefix and anything after it in any chunks, takes exactly the prefix and leaves
  the rest to the relay.
\<close>
theorem obfs_roundtrip:
  "\<exists>p. generate_dynamic_obfs key seed = Inr p \<and> 15 \<le> length p \<and> length p \<le> 1004 \<and>
     (\<forall>s rest. clean s \<longrightarrow> incoming s = p @ rest \<longrightarrow>
       (\<exists>s'. consume_dynamic_obfs key s = Inr (Ready (Inr ()), s') \<and> clean s' \<and> incoming s' = rest \<and>
             rcvd s' = rcvd s @ p))"
proof -
  obtain hdr l g where g: "generate_dynamic_obfs key seed = Inr (xor_key key hdr @ g)"
    "length hdr = 5" "valid_digits (digit_bytes hdr)" "parse_len (digit_bytes hdr) = Some l" "length g = l"
    "10 \<le> l" "l \<le> 999"
    by (rule generate_spec)
  have "\<exists>s'. consume_dynamic_obfs key s = Inr (Ready (Inr ()), s') \<and> clean s' \<and> incoming s' = rest \<and>
      rcvd s' = rcvd s @ xor_key key hdr @ g"
    if "clean s" "incoming s = (xor_key key hdr @ g) @ rest" for s rest
  proof -
    have h: "xor_key key (take 5 (incoming s)) = hdr" using g(2) that(2) by simp
    show ?thesis
      using consume_accept [OF that(1), of key l] g that(2) unfolding h by (auto simp: valid_digits_def)
  qed
  then show ?thesis using g(1,2,5,6,7) by (intro exI [of _ "xor_key key hdr @ g"]) auto
qed

definition obfs_demo :: "bytes \<Rightarrow> stream" where
  "obfs_demo p = \<lparr>rd_evs = [RdData p, RdPending, RdData [7]], wr_evs = [], fl_evs = [], sd_evs = [],
     rcvd = [], sent = [], flushed = 0, shut = False\<rparr>"

theorem obfs_roundtrip_witness:
  "\<exists>p s'. generate_dynamic_obfs obfs_key 1 = Inr p \<and>
     consume_dynamic_obfs obfs_key (obfs_demo p) = Inr (Ready (Inr ()), s') \<and> incoming s' = [7]"
proof -
  obtain p where p: "generate_dynamic_obfs obfs_key 1 = Inr p" "15 \<le> length p"
    and c: "\<And>s rest. clean s \<Longrightarrow> incoming s = p @ rest \<Longrightarrow>
      \<exists>s'. consume_dynamic_obfs obfs_key s = Inr (Ready (Inr ()), s') \<and> clean s' \<and> incoming s' = rest \<and>
           rcvd s' = rcvd s @ p"
    using obfs_roundtrip [of obfs_key 1] by blast
  have "clean (obfs_demo p)" "incoming (obfs_demo p) = p @ [7]"
    using p(2) by (auto simp: clean_def incoming_def obfs_demo_def)
  from c [OF this] p(1) show ?thesis by blast
qed

text \<open>
  C14: Which clients the server takes: with at least 1004 bytes to come, the consumer accepts exactly when
  the decoded header holds two digits not starting with 0, or three not starting with 00; a
  refused probe costs five bytes and the error is InvalidData. It never panics, on any stream.
\<close>
theorem obfs_probe_refused:
  assumes "clean s" "1004 \<le> length (incoming s)"
  shows "(\<exists>s'. consume_dynamic_obfs key s = Inr (Ready (Inr ()), s')) =
      (let ds = digit_bytes (xor_key key (take 5 (incoming s)))
       in length ds = 2 \<and> ds ! 0 \<noteq> 48 \<or> length ds = 3 \<and> (ds ! 0 \<noteq> 48 \<or> ds ! 1 \<noteq> 48)) \<and>
    ((\<exists>s'. consume_dynamic_obfs key s = Inr (Ready (Inr ()), s')) \<or>
     (\<exists>s'. consume_dynamic_obfs key s = Inr (Ready (Inl InvalidData), s') \<and>
        rcvd s' = rcvd s @ take 5 (incoming s))) \<and>
    (\<exists>p s'. consume_dynamic_obfs key t = Inr (p, s'))"
proof -
  let ?ds = "digit_bytes (xor_key key (take 5 (incoming s)))"
  have acc: "(\<exists>s'. consume_dynamic_obfs key s = Inr (Ready (Inr ()), s'))" if n: "\<not> is_probe ?ds"
  proof -
    obtain l where "parse_len ?ds = Some l" "l \<le> 999" using not_probe_len [OF n] .
    with consume_accept [OF assms(1) n] assms(2) show ?thesis by fastforce
  qed
  have ref: "\<exists>s'. consume_dynamic_obfs key s = Inr (Ready (Inl InvalidData), s') \<and>
      rcvd s' = rcvd s @ take 5 (incoming s)" if "is_probe ?ds"
    using consume_probe [OF assms(1) _ that] assms(2) by fastforce
  have "is_probe ?ds = (\<not> (length ?ds = 2 \<and> ?ds ! 0 \<noteq> 48 \<or> length ?ds = 3 \<and> (?ds ! 0 \<noteq> 48 \<or> ?ds ! 1 \<noteq> 48)))"
    by (auto simp: is_probe_def Let_def)
  then show ?thesis using acc ref consume_no_panic [of key t] by (cases "is_probe ?ds") fastforce+
qed

theorem obfs_probe_refused_witness:
  "\<not> (\<exists>s'. consume_dynamic_obfs [] (obfs_demo (replicate 1004 48)) = Inr (Ready (Inr ()), s'))"
proof -
  have c: "clean (obfs_demo (replicate 1004 48))"
    and i: "incoming (obfs_demo (replicate 1004 48)) = replicate 1004 48 @ [7]"
    by (simp_all add: clean_def incoming_def obfs_demo_def)
  have "1004 \<le> length (incoming (obfs_demo (replicate 1004 48)))" by (simp add: i)
  from obfs_probe_refused [OF c this, of "[]"] show ?thesis
    by (simp add: i xor_key_def digit_bytes_def Let_def)
qed

end
