(* ===== verification/Bidi_Copy.thy ===== *)
theory Bidi_Copy
  imports Mem_Copy Zero_Copy Obfs
begin

text \<open>
  The bidirectional copy of \<^verbatim>\<open>hoorayhug_io/src/bidi_copy.rs\<close> and its use in
  \<^verbatim>\<open>hoorayhug_core/src/tcp/plain.rs\<close>: the states of one direction, the future \<^verbatim>\<open>BidiCopy\<close> with
  both variants of the \<^verbatim>\<open>brutal-shutdown\<close> feature, the start of \<^verbatim>\<open>bidi_copy_buf\<close> with the
  obfuscation prefix, and \<^verbatim>\<open>run_relay\<close>, which tries the zero-copy path first. The two streams are
  \<open>a\<close> (the accepted side) and \<open>b\<close> (the remote side); each direction reads one and writes the other.
\<close>

section \<open>One direction\<close>

datatype 'b transfer_state = Running "'b copy_buffer" | ShuttingDown nat | Done nat

fun rank :: "'b transfer_state \<Rightarrow> nat" where
  "rank (Running cb) = 2"
| "rank (ShuttingDown c) = 1"
| "rank (Done c) = 0"

function transfer ::
  "nat \<Rightarrow> 'b buf_op \<Rightarrow> 'b buf_op \<Rightarrow> 'b transfer_state \<Rightarrow> stream \<Rightarrow> stream
     \<Rightarrow> (nat io_result poll \<times> 'b transfer_state \<times> stream \<times> stream) option" where
  "transfer fuel rd wr (Running cb) r w =
     (case poll_copy fuel rd wr cb r w of
        None \<Rightarrow> None
      | Some (Pending, cb', r', w') \<Rightarrow> Some (Pending, Running cb', r', w')
      | Some (Ready (Inl e), cb', r', w') \<Rightarrow> Some (Ready (Inl e), Running cb', r', w')
      | Some (Ready (Inr amount), cb', r', w') \<Rightarrow> transfer fuel rd wr (ShuttingDown amount) r' w')"
| "transfer fuel rd wr (ShuttingDown amount) r w =
     (case poll_shutdown w of
        (Pending, w') \<Rightarrow> Some (Pending, ShuttingDown amount, r, w')
      | (Ready (Inl e), w') \<Rightarrow> Some (Ready (Inl e), ShuttingDown amount, r, w')
      | (Ready (Inr _), w') \<Rightarrow> transfer fuel rd wr (Done amount) r w')"
| "transfer fuel rd wr (Done amount) r w = Some (Ready (Inr amount), Done amount, r, w)"
  by pat_completeness auto
termination by (relation "measure (\<lambda>(fuel, rd, wr, st, r, w). rank st)") auto

section \<open>Both directions\<close>

record 'b bidi =
  bc_a :: stream
  bc_b :: stream
  a_to_b :: "'b transfer_state"
  b_to_a :: "'b transfer_state"

definition bidi_result :: "bool \<Rightarrow> nat poll \<Rightarrow> nat poll \<Rightarrow> (nat \<times> nat) poll" where
  "bidi_result brutal_shutdown p q =
     (if \<not> brutal_shutdown
      then (case p of
              Pending \<Rightarrow> Pending
            | Ready x \<Rightarrow> (case q of Pending \<Rightarrow> Pending | Ready y \<Rightarrow> Ready (x, y)))
      else (case (p, q) of
              (Ready x, Ready y) \<Rightarrow> Ready (x, y)
            | (Pending, Ready y) \<Rightarrow> Ready (0, y)
            | (Ready x, Pending) \<Rightarrow> Ready (x, 0)
            | (Pending, Pending) \<Rightarrow> Pending))"

text \<open>The question mark on \<^verbatim>\<open>Poll<Result<T>>\<close>: an error returns, the rest is a poll of the value.\<close>

fun ask :: "'a io_result poll \<Rightarrow> io_error + 'a poll" where
  "ask Pending = Inr Pending"
| "ask (Ready (Inl e)) = Inl e"
| "ask (Ready (Inr x)) = Inr (Ready x)"

definition bidi_poll ::
  "nat \<Rightarrow> bool \<Rightarrow> 'b buf_op \<Rightarrow> 'b buf_op \<Rightarrow> 'b bidi \<Rightarrow> ((nat \<times> nat) io_result poll \<times> 'b bidi) option" where
  "bidi_poll fuel brutal_shutdown rd wr s =
     (case transfer fuel rd wr (a_to_b s) (bc_a s) (bc_b s) of
        None \<Rightarrow> None
      | Some (p, st1, a1, b1) \<Rightarrow>
          let s1 = s\<lparr>a_to_b := st1, bc_a := a1, bc_b := b1\<rparr> in
          case ask p of
            Inl e \<Rightarrow> Some (Ready (Inl e), s1)
          | Inr x \<Rightarrow>
              (case transfer fuel rd wr (b_to_a s1) (bc_b s1) (bc_a s1) of
                 None \<Rightarrow> None
               | Some (q, st2, b2, a2) \<Rightarrow>
                   let s2 = s1\<lparr>b_to_a := st2, bc_a := a2, bc_b := b2\<rparr> in
                   case ask q of
                     Inl e \<Rightarrow> Some (Ready (Inl e), s2)
                   | Inr y \<Rightarrow>
                       (case bidi_result brutal_shutdown x y of
                          Pending \<Rightarrow> Some (Pending, s2)
                        | Ready v \<Rightarrow> Some (Ready (Inr v), s2))))"

text \<open>
  \<^verbatim>\<open>bidi_copy_buf\<close> up to the point where the future \<^verbatim>\<open>BidiCopy\<close> exists. The prefix is written to
  \<open>b\<close> in mode 1 and read from \<open>a\<close> in mode 2.
\<close>

definition bidi_new :: "'b copy_buffer \<Rightarrow> 'b copy_buffer \<Rightarrow> stream \<Rightarrow> stream \<Rightarrow> 'b bidi" where
  "bidi_new buf1 buf2 a b = \<lparr>bc_a = a, bc_b = b, a_to_b = Running buf1, b_to_a = Running buf2\<rparr>"

definition bidi_start ::
  "u8 \<Rightarrow> u64 \<Rightarrow> 'b copy_buffer \<Rightarrow> 'b copy_buffer \<Rightarrow> stream \<Rightarrow> stream
     \<Rightarrow> (unit io_result poll \<times> 'b bidi) checked" where
  "bidi_start mode seed buf1 buf2 a b =
     (if mode = 1
      then bind_sum (generate_dynamic_obfs obfs_key seed) (\<lambda>prefix.
             case write_all prefix b of (p, b') \<Rightarrow> Inr (p, bidi_new buf1 buf2 a b'))
      else if mode = 2
      then bind_sum (consume_dynamic_obfs obfs_key a) (\<lambda>(p, a'). Inr (p, bidi_new buf1 buf2 a' b))
      else Inr (Ready (Inr ()), bidi_new buf1 buf2 a b))"

text \<open>
  Awaiting the future: poll until it is ready, at most \<open>n\<close> times (the scripts are finite: a
  future that still waits after that many polls waits for ever).
\<close>

fun bidi_await ::
  "nat \<Rightarrow> nat \<Rightarrow> bool \<Rightarrow> 'b buf_op \<Rightarrow> 'b buf_op \<Rightarrow> 'b bidi \<Rightarrow> ((nat \<times> nat) io_result \<times> 'b bidi) option" where
  "bidi_await 0 fuel brutal rd wr s = None"
| "bidi_await (Suc n) fuel brutal rd wr s =
     (case bidi_poll fuel brutal rd wr s of
        None \<Rightarrow> None
      | Some (Ready res, s') \<Rightarrow> Some (res, s')
      | Some (Pending, s') \<Rightarrow> bidi_await n fuel brutal rd wr s')"

definition bidi_copy_buf ::
  "nat \<Rightarrow> nat \<Rightarrow> bool \<Rightarrow> u8 \<Rightarrow> u64 \<Rightarrow> 'b buf_op \<Rightarrow> 'b buf_op \<Rightarrow> 'b copy_buffer \<Rightarrow> 'b copy_buffer \<Rightarrow> stream \<Rightarrow> stream
     \<Rightarrow> ((nat \<times> nat) io_result \<times> stream \<times> stream) option checked" where
  "bidi_copy_buf n fuel brutal mode seed rd wr buf1 buf2 a b =
     bind_sum (bidi_start mode seed buf1 buf2 a b) (\<lambda>(p, s). Inr
       (case p of
          Pending \<Rightarrow> None
        | Ready (Inl e) \<Rightarrow> Some (Inl e, bc_a s, bc_b s)
        | Ready (Inr _) \<Rightarrow>
            (case bidi_await n fuel brutal rd wr s of
               None \<Rightarrow> None
             | Some (res, s') \<Rightarrow> Some (res, bc_a s', bc_b s'))))"

definition bidi_copy ::
  "nat \<Rightarrow> nat \<Rightarrow> bool \<Rightarrow> u8 \<Rightarrow> u64 \<Rightarrow> (stream \<Rightarrow> nat) \<Rightarrow> nat \<Rightarrow> stream \<Rightarrow> stream
     \<Rightarrow> ((nat \<times> nat) io_result \<times> stream \<times> stream) option checked" where
  "bidi_copy n fuel brutal mode seed clk buf_size a b =
     bidi_copy_buf n fuel brutal mode seed (mem_poll_read_buf mode clk) mem_poll_write_buf
       (mem_copy_buffer buf_size) (mem_copy_buffer buf_size) a b"

text \<open>
  The two pipes, whose descriptors are closed when the call returns, early or not. While the result is \<open>None\<close>,
  a future that still waits, they are open.
\<close>

type_synonym relay_io = "(nat \<times> nat) io_result \<times> stream \<times> stream"

definition bidi_zero_copy ::
  "nat \<Rightarrow> nat \<Rightarrow> bool \<Rightarrow> u8 \<Rightarrow> u64 \<Rightarrow> nat \<Rightarrow> pipe_answer \<times> pipe_answer \<Rightarrow> int set \<Rightarrow> stream \<Rightarrow> stream
     \<Rightarrow> (relay_io option \<times> int set) checked" where
  "bidi_zero_copy n fuel brutal mode seed pipe_size answers fds a b =
     (case pipe_new pipe_size (fst answers) fds of
        (Inl e, fds1) \<Rightarrow> Inr (Some (Inl e, a, b), fds1)
      | (Inr p1, fds1) \<Rightarrow>
          (case pipe_new pipe_size (snd answers) fds1 of
             (Inl e, fds2) \<Rightarrow> Inr (Some (Inl e, a, b), pipe_drop p1 fds2)
           | (Inr p2, fds2) \<Rightarrow>
               bind_sum (bidi_copy_buf n fuel brutal mode seed zc_poll_read_buf zc_poll_write_buf
                   (copy_buffer_new p1) (copy_buffer_new p2) a b) (\<lambda>res. Inr
                 (res, case res of None \<Rightarrow> fds2 | Some _ \<Rightarrow> pipe_drop p1 (pipe_drop p2 fds2)))))"

text \<open>\<^verbatim>\<open>tcp/plain.rs\<close> on Linux: the buffered copy is the fallback after \<^verbatim>\<open>InvalidInput\<close>.\<close>

definition run_relay ::
  "nat \<Rightarrow> nat \<Rightarrow> bool \<Rightarrow> u8 \<Rightarrow> u64 \<Rightarrow> u64 \<Rightarrow> (stream \<Rightarrow> nat) \<Rightarrow> nat \<Rightarrow> pipe_answer \<times> pipe_answer \<Rightarrow> int set \<Rightarrow> nat
     \<Rightarrow> stream \<Rightarrow> stream \<Rightarrow> ((unit io_result \<times> stream \<times> stream) option \<times> int set) checked" where
  "run_relay n fuel brutal mode seed1 seed2 clk pipe_size answers fds buf_size local remote =
     bind_sum (bidi_zero_copy n fuel brutal mode seed1 pipe_size answers fds local remote) (\<lambda>(z, fds').
       case z of
         None \<Rightarrow> Inr (None, fds')
       | Some (Inr _, a, b) \<Rightarrow> Inr (Some (Inr (), a, b), fds')
       | Some (Inl e, a, b) \<Rightarrow>
           if e = InvalidInput
           then bind_sum (bidi_copy n fuel brutal mode seed2 clk buf_size a b) (\<lambda>m. Inr
                  (case m of
                     None \<Rightarrow> None
                   | Some (Inl e, a, b) \<Rightarrow> Some (Inl e, a, b)
                   | Some (Inr _, a, b) \<Rightarrow> Some (Inr (), a, b), fds'))
           else Inr (Some (Inl e, a, b), fds'))"

text \<open>Every outcome of \<open>bidi_zero_copy\<close>.\<close>

lemma bidi_zero_copy_cases:
  assumes "bidi_zero_copy n fuel brutal mode seed pipe_size answers fds a b = Inr (res, fds')"
  obtains (pipe) e where "res = Some (Inl e, a, b)" "fds' = fds \<or> fds' = fds - answer_fds (fst answers)
      \<or> fds' = (answer_fds (fst answers) \<union> fds) - answer_fds (fst answers)"
  | (copied) p1 p2 where "pp_data p1 = []" "pp_data p2 = []"
      "bidi_copy_buf n fuel brutal mode seed zc_poll_read_buf zc_poll_write_buf
         (copy_buffer_new p1) (copy_buffer_new p2) a b = Inr res"
      "fds' = (let all = answer_fds (fst answers) \<union> answer_fds (snd answers) in if res = None then all \<union> fds else (all \<union> fds) - all)"
proof -
  obtain r1 fds1 where 1: "pipe_new pipe_size (fst answers) fds = (r1, fds1)" by (cases "pipe_new pipe_size (fst answers) fds")
  have f1: "fds1 = answer_fds (fst answers) \<union> fds" using pipe_new_fds [of pipe_size "fst answers" fds] 1 by simp
  show thesis
  proof (cases r1)
    case (Inl e)
    then have "answer_fds (fst answers) = {}" using 1 by (cases "fst answers") (auto simp: pipe_new_def Let_def)
    then show thesis using assms 1 Inl f1 by (intro pipe) (auto simp: bidi_zero_copy_def)
  next
    case p1: (Inr p1)
    obtain r2 fds2 where 2: "pipe_new pipe_size (snd answers) fds1 = (r2, fds2)" by (cases "pipe_new pipe_size (snd answers) fds1")
    have f2: "fds2 = answer_fds (snd answers) \<union> fds1" using pipe_new_fds [of pipe_size "snd answers" fds1] 2 by simp
    note d1 = pipe_new_drop [OF 1 [unfolded p1]]
    show thesis
    proof (cases r2)
      case (Inl e)
      then have "answer_fds (snd answers) = {}" using 2 by (cases "snd answers") (auto simp: pipe_new_def Let_def)
      then show thesis using assms 1 2 p1 Inl f1 f2 d1 by (intro pipe) (auto simp: bidi_zero_copy_def)
    next
      case p2: (Inr p2)
      note d2 = pipe_new_drop [OF 2 [unfolded p2]]
      have "bidi_copy_buf n fuel brutal mode seed zc_poll_read_buf zc_poll_write_buf
          (copy_buffer_new p1) (copy_buffer_new p2) a b = Inr res"
        and "fds' = (case res of None \<Rightarrow> fds2 | Some _ \<Rightarrow> pipe_drop p1 (pipe_drop p2 fds2))"
        using assms 1 2 p1 p2 by (auto simp: bidi_zero_copy_def bind_sum_Inr_iff)
      then show thesis
        using pipe_new_empty [OF 1 [unfolded p1]] pipe_new_empty [OF 2 [unfolded p2]] f1 f2 d1 d2
        by (intro copied) (auto simp: Let_def split: option.splits)
    qed
  qed
qed

text \<open>With both pipes made, the result without the descriptors.\<close>

lemma bidi_zero_copy_made:
  assumes "pipe_new pipe_size (fst answers) fds = (Inr p1, fds1)" "pipe_new pipe_size (snd answers) fds1 = (Inr p2, fds2)"
  shows "map_sum id fst (bidi_zero_copy n fuel brutal mode seed pipe_size answers fds a b) =
    bidi_copy_buf n fuel brutal mode seed zc_poll_read_buf zc_poll_write_buf (copy_buffer_new p1) (copy_buffer_new p2) a b"
  using assms
  by (cases "bidi_copy_buf n fuel brutal mode seed zc_poll_read_buf zc_poll_write_buf (copy_buffer_new p1) (copy_buffer_new p2) a b")
    (simp_all add: bidi_zero_copy_def)

lemma run_relay_made:
  assumes "pipe_new pipe_size (fst answers) fds = (Inr p1, fds1)" "pipe_new pipe_size (snd answers) fds1 = (Inr p2, fds2)"
  shows "map_sum id fst (run_relay n fuel brutal mode seed1 seed2 clk pipe_size answers fds buf_size local remote) =
    bind_sum (bidi_copy_buf n fuel brutal mode seed1 zc_poll_read_buf zc_poll_write_buf
      (copy_buffer_new p1) (copy_buffer_new p2) local remote) (\<lambda>z.
       case z of
         None \<Rightarrow> Inr None
       | Some (Inr _, a, b) \<Rightarrow> Inr (Some (Inr (), a, b))
       | Some (Inl e, a, b) \<Rightarrow>
           if e = InvalidInput
           then bind_sum (bidi_copy n fuel brutal mode seed2 clk buf_size a b) (\<lambda>m. Inr
                  (case m of
                     None \<Rightarrow> None
                   | Some (Inl e, a, b) \<Rightarrow> Some (Inl e, a, b)
                   | Some (Inr _, a, b) \<Rightarrow> Some (Inr (), a, b)))
           else Inr (Some (Inl e, a, b)))"
proof -
  have split: "map_sum id fst (bind_sum m f) = bind_sum m (\<lambda>x. map_sum id fst (f x))" for m :: "'x + 'y" and f :: "'y \<Rightarrow> 'x + 'z \<times> 'w"
    by (cases m) simp_all
  show ?thesis
    using assms
    by (cases "bidi_copy_buf n fuel brutal mode seed1 zc_poll_read_buf zc_poll_write_buf (copy_buffer_new p1) (copy_buffer_new p2) local remote")
      (auto simp: run_relay_def bidi_zero_copy_def split split: option.split sum.split)
qed

section \<open>Every state of a relay\<close>

inductive relaying ::
  "bool \<Rightarrow> 'b buf_op \<Rightarrow> 'b buf_op \<Rightarrow> 'b bidi \<Rightarrow> 'b bidi \<Rightarrow> bool"
  for brutal rd wr s where
  start: "relaying brutal rd wr s s"
| poll: "relaying brutal rd wr s t \<Longrightarrow> bidi_poll fuel brutal rd wr t = Some (p, t') \<Longrightarrow> relaying brutal rd wr s t'"
| wake: "relaying brutal rd wr s t \<Longrightarrow> same_io (bc_a t) a \<Longrightarrow> same_io (bc_b t) b \<Longrightarrow> honest a \<Longrightarrow> honest b \<Longrightarrow>
         relaying brutal rd wr s (t\<lparr>bc_a := a, bc_b := b\<rparr>)"

inductive_cases relayingE: "relaying brutal rd wr s t"

lemma await_relaying:
  "relaying brutal rd wr s t \<Longrightarrow> bidi_await n fuel brutal rd wr t = Some (res, t') \<Longrightarrow>
     relaying brutal rd wr s t' \<and>
     (\<exists>u. relaying brutal rd wr s u \<and> bidi_poll fuel brutal rd wr u = Some (Ready res, t'))"
proof (induction n arbitrary: t)
  case (Suc n)
  then obtain p u where u: "bidi_poll fuel brutal rd wr t = Some (p, u)"
    by (auto split: option.splits)
  with Suc show ?case
    by (cases p) (auto intro: relaying.poll)
qed simp

text \<open>
  What it is for a direction to be done, from what had been read (\<open>R\<close>) and sent (\<open>P\<close>) before: all that was read since is
  sent, flushed and counted, and the writer is shut down. A graceful relay ends when both are; a brutal one ends as soon as one of
  them is, and reports 0 bytes for one that is not.
\<close>

definition direction_done :: "(u8 \<Rightarrow> u8) \<Rightarrow> bytes \<Rightarrow> bytes \<Rightarrow> stream \<Rightarrow> stream \<Rightarrow> nat \<Rightarrow> bool" where
  "direction_done enc R P r w c \<longleftrightarrow>
     sent w = P @ map enc (drop (length R) (rcvd r)) \<and> c = length (rcvd r) - length R \<and>
     flushed w = length (sent w) \<and> shut w"

definition relay_ended :: "bool \<Rightarrow> (nat \<Rightarrow> bool) \<Rightarrow> (nat \<Rightarrow> bool) \<Rightarrow> nat \<Rightarrow> nat \<Rightarrow> bool" where
  "relay_ended brutal ab ba m n \<longleftrightarrow>
     (if brutal then ab m \<and> ba n \<or> ab m \<and> n = 0 \<or> m = 0 \<and> ba n else ab m \<and> ba n)"

context async_io_buf
begin

text \<open>
  The invariant of one direction: what was read is written or in the buffer; once the direction is
  shutting down all of it is written and flushed, once it is done the writer is shut down.
\<close>

fun dir_inv :: "bytes \<Rightarrow> bytes \<Rightarrow> 'b transfer_state \<Rightarrow> stream \<Rightarrow> stream \<Rightarrow> bool" where
  "dir_inv R P (Running cb) r w = copy_inv R P cb r w"
| "dir_inv R P (ShuttingDown c) r w =
     (honest w \<and> prefix R (rcvd r) \<and> sent w = P @ map enc (drop (length R) (rcvd r)) \<and> c = length (rcvd r) - length R \<and>
      flushed w = length (sent w))"
| "dir_inv R P (Done c) r w =
     (honest w \<and> prefix R (rcvd r) \<and> sent w = P @ map enc (drop (length R) (rcvd r)) \<and> c = length (rcvd r) - length R \<and>
      flushed w = length (sent w) \<and> shut w)"

lemma dir_inv_io:
  "dir_inv R P st r w \<Longrightarrow> rcvd r' = rcvd r \<Longrightarrow> sent w' = sent w \<Longrightarrow> flushed w' = flushed w \<Longrightarrow> shut w' = shut w \<Longrightarrow>
     honest w' \<Longrightarrow> dir_inv R P st r' w'"
  by (cases st) (simp_all add: copy_inv_def)

lemma dir_inv_honest: "dir_inv R P st r w \<Longrightarrow> honest w"
  by (cases st) (simp_all add: copy_inv_def)

lemma dir_inv_progress:
  "dir_inv R P st r w \<Longrightarrow> \<exists>rest. sent w @ rest = P @ map enc (drop (length R) (rcvd r)) \<and> prefix R (rcvd r)"
  by (cases st) (auto simp: copy_inv_def)

lemma dir_inv_sent:
  assumes "dir_inv R P st r w"
  shows "\<exists>d. prefix d (drop (length R) (rcvd r)) \<and> sent w = P @ map enc d"
proof (cases st)
  case (Running cb)
  let ?D = "drop (length R) (rcvd r)"
  have e: "sent w @ cont cb = P @ map enc ?D" "length (sent w) = length P + cb_amt cb"
    using assms Running by (simp_all add: copy_inv_def)
  have "sent w = take (length P + cb_amt cb) (P @ map enc ?D)" using e by (metis append_eq_conv_conj)
  then have "sent w = P @ map enc (take (cb_amt cb) ?D)" by (simp add: take_map)
  then show ?thesis using take_is_prefix by blast
qed (use assms in auto)

lemma transfer_inv_stop:
  assumes "dir_inv R P (ShuttingDown c) r w" "transfer fuel rd wr (ShuttingDown c) r w = Some (p, st', r', w')"
  shows "dir_inv R P st' r' w' \<and> rd_frame r r' \<and> wr_frame w w' \<and> (\<forall>c. p = Ready (Inr c) \<longrightarrow> st' = Done c)"
proof -
  obtain q w1 where q: "poll_shutdown w = (q, w1)" by (cases "poll_shutdown w")
  note fr = poll_shutdown_frame [OF q]
  then have "wr_frame w w1" by (simp add: wr_frame_def honest_def)
  then show ?thesis using assms q fr
    by (auto simp: honest_def split: poll.splits sum.splits)
qed

lemma transfer_inv:
  assumes "dir_inv R P st r w" "transfer fuel rd wr st r w = Some (p, st', r', w')"
  shows "dir_inv R P st' r' w' \<and> rd_frame r r' \<and> wr_frame w w' \<and> (\<forall>c. p = Ready (Inr c) \<longrightarrow> st' = Done c)"
proof (cases st)
  case (Running cb)
  have ci: "copy_inv R P cb r w" using assms(1) Running by simp
  obtain q cb1 r1 w1 where pc: "poll_copy fuel rd wr cb r w = Some (q, cb1, r1, w1)"
    using assms(2) Running by (cases "poll_copy fuel rd wr cb r w") auto
  note i = poll_copy_inv [OF ci pc]
  show ?thesis
  proof (cases "\<exists>c. q = Ready (Inr c)")
    case False
    then show ?thesis using assms(2) Running pc i by (auto split: poll.splits sum.splits)
  next
    case True
    then obtain c where q: "q = Ready (Inr c)" by blast
    have i1: "copy_inv R P cb1 r1 w1" and nil: "cont cb1 = []" "c = cb_amt cb1" "flushed w1 = length (sent w1)"
      using i q by blast+
    have "sent w1 = P @ map enc (drop (length R) (rcvd r1))" "length (sent w1) = length P + c" "prefix R (rcvd r1)" "honest w1"
      using i1 nil unfolding copy_inv_def by auto
    then have d: "dir_inv R P (ShuttingDown c) r1 w1" using nil(3)
      by (auto dest: arg_cong [where f = length])
    have "transfer fuel rd wr (ShuttingDown c) r1 w1 = Some (p, st', r', w')"
      using assms(2) Running pc q by simp
    from transfer_inv_stop [OF d this] i show ?thesis
      using rd_frame_trans wr_frame_trans by blast
  qed
next
  case (ShuttingDown c)
  then show ?thesis using transfer_inv_stop assms by blast
next
  case (Done c)
  then show ?thesis using assms by auto
qed

lemma transfer_returns:
  assumes "dir_inv R P st r w" "rd_bytes r + length (wr_evs w) + 1 < fuel"
  shows "transfer fuel rd wr st r w \<noteq> None"
proof -
  have sd: "transfer fuel rd wr (ShuttingDown c) r w \<noteq> None" for c r w
    by (auto split: prod.splits poll.splits sum.splits)
  show ?thesis
  proof (cases st)
    case (Running cb)
    then have "poll_copy fuel rd wr cb r w \<noteq> None" using assms poll_copy_returns by simp
    then show ?thesis using Running sd by (auto split: prod.splits poll.splits sum.splits)
  next
    case (ShuttingDown c)
    then show ?thesis using sd by blast
  qed simp
qed

text \<open>The two directions do not disturb each other.\<close>

definition bidi_inv :: "bytes \<Rightarrow> bytes \<Rightarrow> bytes \<Rightarrow> bytes \<Rightarrow> 'b bidi \<Rightarrow> bool" where
  "bidi_inv R P S Q s \<longleftrightarrow> dir_inv R P (a_to_b s) (bc_a s) (bc_b s) \<and> dir_inv S Q (b_to_a s) (bc_b s) (bc_a s)"

lemma frames_honest: "rd_frame s s' \<Longrightarrow> honest s \<Longrightarrow> honest s'"
  by (simp add: rd_frame_honest)

lemma bidi_transfer:
  assumes "dir_inv R P st1 r w" "dir_inv S Q st2 w r" "transfer fuel rd wr st1 r w = Some (p, st', r', w')"
  shows "dir_inv R P st' r' w' \<and> dir_inv S Q st2 w' r' \<and> (\<forall>c. p = Ready (Inr c) \<longrightarrow> st' = Done c) \<and>
    rd_bytes w' + length (wr_evs r') = rd_bytes w + length (wr_evs r)"
proof -
  note t = transfer_inv [OF assms(1,3)]
  have "honest r'" using t frames_honest dir_inv_honest [OF assms(2)] by blast
  then have "dir_inv S Q st2 w' r'"
    using t by (intro dir_inv_io [OF assms(2)]) (simp_all add: rd_frame_def wr_frame_def)
  with t show ?thesis by (simp add: rd_frame_def wr_frame_def rd_bytes_def)
qed

lemma bidi_poll_inv:
  assumes "bidi_inv R P S Q s" "bidi_poll fuel brutal rd wr s = Some (p, s')"
  shows "bidi_inv R P S Q s' \<and>
    (\<forall>x y. p = Ready (Inr (x, y)) \<longrightarrow>
      (if brutal then (a_to_b s' = Done x \<and> b_to_a s' = Done y) \<or> (x = 0 \<and> b_to_a s' = Done y) \<or> (a_to_b s' = Done x \<and> y = 0)
       else a_to_b s' = Done x \<and> b_to_a s' = Done y))"
proof -
  obtain q st1 a1 b1 where 1: "transfer fuel rd wr (a_to_b s) (bc_a s) (bc_b s) = Some (q, st1, a1, b1)"
    using assms(2) by (cases "transfer fuel rd wr (a_to_b s) (bc_a s) (bc_b s)") (auto simp: bidi_poll_def)
  let ?s1 = "s\<lparr>a_to_b := st1, bc_a := a1, bc_b := b1\<rparr>"
  have i1: "dir_inv R P st1 a1 b1" "dir_inv S Q (b_to_a s) b1 a1" "\<forall>c. q = Ready (Inr c) \<longrightarrow> st1 = Done c"
    using bidi_transfer [OF _ _ 1] assms(1) unfolding bidi_inv_def by blast+
  show ?thesis
  proof (cases "ask q")
    case (Inl e)
    then show ?thesis using assms(2) 1 i1 by (auto simp: bidi_poll_def Let_def bidi_inv_def)
  next
    case (Inr x)
    obtain u st2 b2 a2 where 2: "transfer fuel rd wr (b_to_a s) b1 a1 = Some (u, st2, b2, a2)"
      using assms(2) 1 Inr by (cases "transfer fuel rd wr (b_to_a s) b1 a1") (auto simp: bidi_poll_def Let_def)
    have i2: "dir_inv S Q st2 b2 a2" "dir_inv R P st1 a2 b2" "\<forall>c. u = Ready (Inr c) \<longrightarrow> st2 = Done c"
      using bidi_transfer [OF i1(2,1) 2] by blast+
    have x: "x = Ready c \<Longrightarrow> st1 = Done c" for c
      using Inr i1(3) by (cases q rule: ask.cases) auto
    have y: "ask u = Inr (Ready c) \<Longrightarrow> st2 = Done c" for c
      using i2(3) by (cases u rule: ask.cases) auto
    show ?thesis using assms(2) 1 2 Inr i2 x y
      by (auto simp: bidi_poll_def Let_def bidi_inv_def bidi_result_def split: sum.splits poll.splits if_splits)
  qed
qed

lemma bidi_poll_returns:
  assumes "bidi_inv R P S Q s"
    and "rd_bytes (bc_a s) + length (wr_evs (bc_b s)) + 1 < fuel"
    and "rd_bytes (bc_b s) + length (wr_evs (bc_a s)) + 1 < fuel"
  shows "bidi_poll fuel brutal rd wr s \<noteq> None"
proof -
  have i: "dir_inv R P (a_to_b s) (bc_a s) (bc_b s)" "dir_inv S Q (b_to_a s) (bc_b s) (bc_a s)"
    using assms(1) by (simp_all add: bidi_inv_def)
  obtain q st1 a1 b1 where 1: "transfer fuel rd wr (a_to_b s) (bc_a s) (bc_b s) = Some (q, st1, a1, b1)"
    using transfer_returns [OF i(1) assms(2)] by auto
  have i1: "dir_inv S Q (b_to_a s) b1 a1" "rd_bytes b1 + length (wr_evs a1) + 1 < fuel"
    using bidi_transfer [OF i 1] assms(3) by simp_all
  obtain u st2 b2 a2 where 2: "transfer fuel rd wr (b_to_a s) b1 a1 = Some (u, st2, b2, a2)"
    using transfer_returns [OF i1] by auto
  show ?thesis using 1 2
    by (auto simp: bidi_poll_def Let_def split: sum.splits poll.splits)
qed

lemma relaying_inv:
  assumes "relaying brutal rd wr s t" "bidi_inv R P S Q s"
  shows "bidi_inv R P S Q t"
  using assms
proof (induction rule: relaying.induct)
  case (poll t fuel p t')
  then show ?case using bidi_poll_inv by blast
next
  case (wake t a b)
  then show ?case by (auto simp: bidi_inv_def same_io_def intro: dir_inv_io)
qed

definition fresh_bidi :: "'b \<Rightarrow> 'b \<Rightarrow> 'b bidi \<Rightarrow> bool" where
  "fresh_bidi x y s \<longleftrightarrow> a_to_b s = Running (copy_buffer_new x) \<and> b_to_a s = Running (copy_buffer_new y) \<and>
     bwf 0 0 x \<and> bwf 0 0 y \<and> honest (bc_a s) \<and> honest (bc_b s)"

lemma fresh_bidi_inv:
  "fresh_bidi x y s \<Longrightarrow> bidi_inv (rcvd (bc_a s)) (sent (bc_b s)) (rcvd (bc_b s)) (sent (bc_a s)) s"
  unfolding fresh_bidi_def bidi_inv_def by (auto intro: fresh_inv)

text \<open>The two statements for the providers: what is sent at any time, and at the end.\<close>

lemma relay_progress:
  assumes "relaying brutal rd wr s t" "fresh_bidi x y s"
  shows "prefix (sent (bc_b t)) (sent (bc_b s) @ map enc (drop (length (rcvd (bc_a s))) (rcvd (bc_a t)))) \<and>
    prefix (sent (bc_a t)) (sent (bc_a s) @ map enc (drop (length (rcvd (bc_b s))) (rcvd (bc_b t)))) \<and>
    prefix (rcvd (bc_a s)) (rcvd (bc_a t)) \<and> prefix (rcvd (bc_b s)) (rcvd (bc_b t))"
proof -
  have i: "bidi_inv (rcvd (bc_a s)) (sent (bc_b s)) (rcvd (bc_b s)) (sent (bc_a s)) t"
    by (rule relaying_inv [OF assms(1) fresh_bidi_inv [OF assms(2)]])
  then have "\<exists>rest. sent (bc_b t) @ rest = sent (bc_b s) @ map enc (drop (length (rcvd (bc_a s))) (rcvd (bc_a t)))"
    "\<exists>rest. sent (bc_a t) @ rest = sent (bc_a s) @ map enc (drop (length (rcvd (bc_b s))) (rcvd (bc_b t)))"
    "prefix (rcvd (bc_a s)) (rcvd (bc_a t))" "prefix (rcvd (bc_b s)) (rcvd (bc_b t))"
    unfolding bidi_inv_def using dir_inv_progress by blast+
  then show ?thesis by (auto simp: prefix_def) metis+
qed

text \<open>And that what is sent begins with what had been sent at the start.\<close>

lemma relay_sent:
  assumes "relaying brutal rd wr s t" "fresh_bidi x y s"
  shows "(\<exists>d. prefix d (drop (length (rcvd (bc_a s))) (rcvd (bc_a t))) \<and> sent (bc_b t) = sent (bc_b s) @ map enc d) \<and>
    (\<exists>d. prefix d (drop (length (rcvd (bc_b s))) (rcvd (bc_b t))) \<and> sent (bc_a t) = sent (bc_a s) @ map enc d)"
proof -
  have "bidi_inv (rcvd (bc_a s)) (sent (bc_b s)) (rcvd (bc_b s)) (sent (bc_a s)) t"
    by (rule relaying_inv [OF assms(1) fresh_bidi_inv [OF assms(2)]])
  then show ?thesis unfolding bidi_inv_def using dir_inv_sent by blast
qed

lemma dir_inv_Done:
  "dir_inv R P (Done c) r w \<Longrightarrow> direction_done enc R P r w c"
  by (simp add: direction_done_def)

lemma relay_result:
  assumes "relaying brutal rd wr s t" "fresh_bidi x y s" "bidi_poll fuel brutal rd wr t = Some (Ready (Inr (m, n)), u)"
  shows "relay_ended brutal (direction_done enc (rcvd (bc_a s)) (sent (bc_b s)) (bc_a u) (bc_b u))
    (direction_done enc (rcvd (bc_b s)) (sent (bc_a s)) (bc_b u) (bc_a u)) m n"
proof -
  have i: "bidi_inv (rcvd (bc_a s)) (sent (bc_b s)) (rcvd (bc_b s)) (sent (bc_a s)) t"
    by (rule relaying_inv [OF assms(1) fresh_bidi_inv [OF assms(2)]])
  note u = bidi_poll_inv [OF i assms(3)]
  have "if brutal then (a_to_b u = Done m \<and> b_to_a u = Done n) \<or> (m = 0 \<and> b_to_a u = Done n) \<or> (a_to_b u = Done m \<and> n = 0)
       else a_to_b u = Done m \<and> b_to_a u = Done n" using u by blast
  moreover have "dir_inv (rcvd (bc_a s)) (sent (bc_b s)) (a_to_b u) (bc_a u) (bc_b u)"
    "dir_inv (rcvd (bc_b s)) (sent (bc_a s)) (b_to_a u) (bc_b u) (bc_a u)"
    using u unfolding bidi_inv_def by blast+
  then have "a_to_b u = Done c \<Longrightarrow> direction_done enc (rcvd (bc_a s)) (sent (bc_b s)) (bc_a u) (bc_b u) c"
    "b_to_a u = Done c \<Longrightarrow> direction_done enc (rcvd (bc_b s)) (sent (bc_a s)) (bc_b u) (bc_a u) c" for c
    by (metis dir_inv_Done)+
  ultimately show ?thesis unfolding relay_ended_def by (cases brutal) (simp_all, blast)
qed

lemma relay_returns:
  assumes "relaying brutal rd wr s t" "fresh_bidi x y s"
  shows "bidi_poll (max (rd_bytes (bc_a t) + length (wr_evs (bc_b t))) (rd_bytes (bc_b t) + length (wr_evs (bc_a t))) + 2)
    brutal rd wr t \<noteq> None"
  by (rule bidi_poll_returns [OF relaying_inv [OF assms(1) fresh_bidi_inv [OF assms(2)]]]) auto

end

section \<open>A whole relay\<close>

text \<open>
  What the prefix stage has done when it succeeds: \<open>pre\<close> was written to \<open>b\<close>, \<open>hdr\<close> read from \<open>a\<close>.
\<close>

definition prefix_stage :: "u8 \<Rightarrow> u64 \<Rightarrow> stream \<Rightarrow> bytes \<Rightarrow> bytes \<Rightarrow> bool" where
  "prefix_stage mode seed a pre hdr \<longleftrightarrow>
     (if mode = 1 then generate_dynamic_obfs obfs_key seed = Inr pre else pre = []) \<and>
     (if mode = 2 then (\<exists>a'. consume_dynamic_obfs obfs_key a = Inr (Ready (Inr ()), a') \<and> rcvd a' = rcvd a @ hdr)
      else hdr = [])"

lemma bidi_start_Ready:
  assumes "bidi_start mode seed buf1 buf2 a b = Inr (Ready (Inr ()), s)" "honest a" "honest b"
  obtains pre hdr a' b' where "prefix_stage mode seed a pre hdr" "s = bidi_new buf1 buf2 a' b'"
    "honest a'" "honest b'" "rcvd a' = rcvd a @ hdr" "sent a' = sent a" "sent b' = sent b @ pre" "rcvd b' = rcvd b"
proof -
  consider "mode = 1" | "mode = 2" | "mode \<noteq> 1" "mode \<noteq> 2" by blast
  then show thesis
  proof cases
    case 1
    obtain pre where g: "generate_dynamic_obfs obfs_key seed = Inr pre"
      "(case write_all pre b of (p, b') \<Rightarrow> Inr (p, bidi_new buf1 buf2 a b')) = (Inr (Ready (Inr ()), s) :: _ checked)"
      using assms(1) 1 by (auto simp: bidi_start_def bind_sum_Inr_iff)
    obtain q b' where q: "write_all pre b = (q, b')" by (cases "write_all pre b")
    have w: "write_all pre b = (Ready (Inr ()), b')" "s = bidi_new buf1 buf2 a b'" using g(2) q by auto
    show thesis using write_all_Ready [OF w(1) assms(3)] w g(1) assms(2) 1
      by (intro that [of pre "[]" a b']) (auto simp: prefix_stage_def)
  next
    case 2
    obtain a' where c: "consume_dynamic_obfs obfs_key a = Inr (Ready (Inr ()), a')" "s = bidi_new buf1 buf2 a' b"
      using assms(1) 2 by (auto simp: bidi_start_def bind_sum_Inr_iff split: prod.splits)
    obtain hdr g where h: "rcvd a' = rcvd a @ hdr @ g" using consume_Ready [OF c(1)] .
    note f = consume_rd_frame [OF c(1)]
    show thesis using f c assms(2,3) 2 h
      by (intro that [of "[]" "hdr @ g" a' b]) (auto simp: prefix_stage_def rd_frame_def honest_def)
  next
    case 3
    then have "s = bidi_new buf1 buf2 a b" using assms(1) by (simp add: bidi_start_def)
    then show thesis using assms(2,3) 3
      by (intro that [of "[]" "[]" a b]) (auto simp: prefix_stage_def)
  qed
qed

context async_io_buf
begin

lemma fresh_bidi_new:
  "bwf 0 0 x \<Longrightarrow> bwf 0 0 y \<Longrightarrow> honest a \<Longrightarrow> honest b \<Longrightarrow>
     fresh_bidi x y (bidi_new (copy_buffer_new x) (copy_buffer_new y) a b)"
  by (simp add: fresh_bidi_def bidi_new_def)

lemma bidi_copy_buf_result:
  assumes "bidi_copy_buf n fuel False mode seed rd wr (copy_buffer_new x) (copy_buffer_new y) a b
      = Inr (Some (Inr (m, k), a', b'))"
    and "honest a" "honest b" "bwf 0 0 x" "bwf 0 0 y"
  shows "\<exists>pre hdr. prefix_stage mode seed a pre hdr \<and>
    sent b' = sent b @ pre @ map enc (drop (length (rcvd a @ hdr)) (rcvd a')) \<and>
    sent a' = sent a @ map enc (drop (length (rcvd b)) (rcvd b')) \<and>
    m = length (rcvd a') - length (rcvd a @ hdr) \<and> k = length (rcvd b') - length (rcvd b) \<and>
    flushed a' = length (sent a') \<and> flushed b' = length (sent b') \<and> shut a' \<and> shut b'"
proof -
  obtain p s where s: "bidi_start mode seed (copy_buffer_new x) (copy_buffer_new y) a b = Inr (p, s)"
    using assms(1) by (auto simp: bidi_copy_buf_def bind_sum_Inr_iff)
  have p: "p = Ready (Inr ())"
    using assms(1) s by (auto simp: bidi_copy_buf_def split: poll.splits sum.splits)
  obtain t where t: "bidi_await n fuel False rd wr s = Some (Inr (m, k), t)" "a' = bc_a t" "b' = bc_b t"
    using assms(1) s p by (auto simp: bidi_copy_buf_def split: option.splits)
  obtain pre hdr a1 b1 where st: "prefix_stage mode seed a pre hdr"
    "s = bidi_new (copy_buffer_new x) (copy_buffer_new y) a1 b1" "honest a1" "honest b1"
    "rcvd a1 = rcvd a @ hdr" "sent a1 = sent a" "sent b1 = sent b @ pre" "rcvd b1 = rcvd b"
    using bidi_start_Ready [OF s [unfolded p] assms(2,3)] .
  obtain u where u: "relaying False rd wr s u" "bidi_poll fuel False rd wr u = Some (Ready (Inr (m, k)), t)"
    using await_relaying [OF relaying.start t(1)] by blast
  have fr: "fresh_bidi x y s" unfolding st(2) by (rule fresh_bidi_new [OF assms(4,5) st(3,4)])
  have ab: "bc_a s = a1" "bc_b s = b1" by (simp_all add: st(2) bidi_new_def)
  show ?thesis
    using relay_result [OF u(1) fr u(2)] st(1) unfolding ab t(2,3) st(5-8)
    by (intro exI [of _ pre] exI [of _ hdr]) (simp add: relay_ended_def direction_done_def)
qed

end

lemma obfs_byte_0 [simp]: "obfs_byte 0 = (\<lambda>b. b)"
  by (simp add: obfs_byte_def fun_eq_iff)

lemma obfs_byte_inverse: "m \<noteq> 0 \<Longrightarrow> m' \<noteq> 0 \<Longrightarrow> obfs_byte m (obfs_byte m' b) = b"
  by (simp add: obfs_byte_def xor.assoc)

lemma obfs_map_inverse [simp]:
  "map (obfs_byte 2) (map (obfs_byte 1) xs) = xs" "map (obfs_byte 1) (map (obfs_byte 2) xs) = xs"
  by (simp_all add: obfs_byte_inverse comp_def)

text \<open>The header tells the server the length the client used; past it the XOR is undone.\<close>

lemma header_agree:
  assumes "length hdr = 5" "parse_len (digit_bytes (xor_key key hdr)) = Some (length g)"
    and "pre = xor_key key hdr0 @ g0" "length hdr0 = 5" "parse_len (digit_bytes hdr0) = Some (length g0)"
    and "prefix (hdr @ g) (pre @ xs)"
  shows "length (hdr @ g) = length pre"
proof -
  obtain z where z: "pre @ xs = (hdr @ g) @ z" using assms(6) by (auto simp: prefix_def)
  have "take 5 (pre @ xs) = hdr" unfolding z using assms(1) by simp
  then have "xor_key key hdr = hdr0" using assms(3,4) by auto
  then show ?thesis using assms by simp
qed

lemma xor_after_prefix:
  assumes "prefix ys (pre @ map (obfs_byte 1) xs)" "length pre \<le> length ys"
  shows "prefix (map (obfs_byte 2) (drop (length pre) ys)) xs"
proof -
  obtain z where z: "pre @ map (obfs_byte 1) xs = ys @ z" using assms(1) by (auto simp: prefix_def)
  have "map (obfs_byte 1) xs = drop (length pre) ys @ z"
    using arg_cong [OF z, of "drop (length pre)"] assms(2) by simp
  then have "xs = map (obfs_byte 2) (drop (length pre) ys) @ map (obfs_byte 2) z"
    by (metis map_append obfs_map_inverse(1))
  then show ?thesis by (rule prefixI)
qed

section \<open>Properties\<close>

text \<open>
  C10: The relay as a state machine, with and without \<^verbatim>\<open>brutal-shutdown\<close> (the default features include it): started on
  two streams with fresh buffers, in every state it reaches by polls and by changes of the environment, what was
  sent to each side is what had been sent before and then a prefix of the (XORed) bytes read from the other; and every
  poll returns. A poll that finishes without an error has, in a graceful build, sent in both directions all that was read,
  flushed it, shut both sides down, and reports the two lengths; in a brutal build this holds of one
  of the directions at least, and the other, when it is not done, is cut off where it is and reported as 0 bytes.
\<close>
theorem bidi_relay_exact:
  assumes "relaying brutal (mem_poll_read_buf mode clk) mem_poll_write_buf
      (bidi_new (mem_copy_buffer size1) (mem_copy_buffer size2) a b) t"
    and "honest a" "honest b"
  shows "(\<exists>d. prefix d (drop (length (rcvd a)) (rcvd (bc_a t))) \<and> sent (bc_b t) = sent b @ map (obfs_byte mode) d) \<and>
    (\<exists>d. prefix d (drop (length (rcvd b)) (rcvd (bc_b t))) \<and> sent (bc_a t) = sent a @ map (obfs_byte mode) d) \<and>
    bidi_poll (max (rd_bytes (bc_a t) + length (wr_evs (bc_b t))) (rd_bytes (bc_b t) + length (wr_evs (bc_a t))) + 2)
      brutal (mem_poll_read_buf mode clk) mem_poll_write_buf t \<noteq> None \<and>
    (\<forall>fuel m n u. bidi_poll fuel brutal (mem_poll_read_buf mode clk) mem_poll_write_buf t = Some (Ready (Inr (m, n)), u) \<longrightarrow>
       relay_ended brutal (direction_done (obfs_byte mode) (rcvd a) (sent b) (bc_a u) (bc_b u))
         (direction_done (obfs_byte mode) (rcvd b) (sent a) (bc_b u) (bc_a u)) m n)"
proof -
  let ?s = "bidi_new (mem_copy_buffer size1) (mem_copy_buffer size2) a b"
  have f: "mem.fresh_bidi (replicate size1 0) (replicate size2 0) ?s"
    unfolding mem_copy_buffer_def by (rule mem.fresh_bidi_new [OF mem_bwf_fresh mem_bwf_fresh assms(2,3)])
  have ab: "bc_a ?s = a" "bc_b ?s = b" by (simp_all add: bidi_new_def)
  show ?thesis
    using mem.relay_sent [OF assms(1) f] mem.relay_returns [OF assms(1) f] mem.relay_result [OF assms(1) f]
    unfolding ab by blast
qed

definition relay_a :: stream where
  "relay_a = \<lparr>rd_evs = [RdData [1, 2, 3], RdPending, RdData []], wr_evs = [WrAccept 1, WrAccept 9],
     fl_evs = [FlOk], sd_evs = [FlOk], rcvd = [], sent = [], flushed = 0, shut = False\<rparr>"

definition relay_b :: stream where
  "relay_b = \<lparr>rd_evs = [RdData [9, 8], RdData []], wr_evs = [WrAccept 2, WrPending, WrAccept 9],
     fl_evs = [FlOk, FlOk], sd_evs = [FlOk], rcvd = [], sent = [], flushed = 0, shut = False\<rparr>"

lemma relay_demo_run:
  "case bidi_await 9 9 False (mem_poll_read_buf 0 (\<lambda>_. 7)) mem_poll_write_buf
       (bidi_new (mem_copy_buffer 4) (mem_copy_buffer 4) relay_a relay_b) of
     None \<Rightarrow> False
   | Some (res, t) \<Rightarrow> res = Inr (3, 2) \<and> rcvd (bc_a t) = [1, 2, 3] \<and> rcvd (bc_b t) = [9, 8]"
  by code_simp

text \<open>The same streams with a brutal end: the peer closes while the client is still silent.\<close>

lemma relay_demo_brutal:
  "case bidi_await 9 9 True (mem_poll_read_buf 0 (\<lambda>_. 7)) mem_poll_write_buf
       (bidi_new (mem_copy_buffer 4) (mem_copy_buffer 4) (relay_a\<lparr>rd_evs := [RdData [1], RdPending, RdData [2]]\<rparr>) relay_b) of
     None \<Rightarrow> False
   | Some (res, t) \<Rightarrow> res = Inr (0, 2) \<and> rcvd (bc_b t) = [9, 8]"
  by code_simp

theorem bidi_relay_exact_witness:
  "(\<exists>t. bidi_await 9 9 False (mem_poll_read_buf 0 (\<lambda>_. 7)) mem_poll_write_buf
       (bidi_new (mem_copy_buffer 4) (mem_copy_buffer 4) relay_a relay_b) = Some (Inr (3, 2), t) \<and>
     sent (bc_b t) = [1, 2, 3] \<and> sent (bc_a t) = [9, 8] \<and> shut (bc_a t) \<and> shut (bc_b t)) \<and>
   (\<exists>t. bidi_await 9 9 True (mem_poll_read_buf 0 (\<lambda>_. 7)) mem_poll_write_buf
       (bidi_new (mem_copy_buffer 4) (mem_copy_buffer 4) (relay_a\<lparr>rd_evs := [RdData [1], RdPending, RdData [2]]\<rparr>) relay_b)
         = Some (Inr (0, 2), t) \<and>
     sent (bc_a t) = [9, 8] \<and> shut (bc_a t))"
proof -
  let ?rd = "mem_poll_read_buf 0 (\<lambda>_. 7)" and ?a = "relay_a\<lparr>rd_evs := [RdData [1], RdPending, RdData [2]]\<rparr>"
  have h: "honest relay_a" "honest relay_b" "honest ?a" by (simp_all add: honest_def relay_a_def relay_b_def)
  have e: "rcvd relay_a = []" "sent relay_a = []" "rcvd relay_b = []" "sent relay_b = []" "rcvd ?a = []" "sent ?a = []"
    by (simp_all add: relay_a_def relay_b_def)
  obtain t where t: "bidi_await 9 9 False ?rd mem_poll_write_buf
       (bidi_new (mem_copy_buffer 4) (mem_copy_buffer 4) relay_a relay_b) = Some (Inr (3, 2), t)"
    "rcvd (bc_a t) = [1, 2, 3]" "rcvd (bc_b t) = [9, 8]"
    using relay_demo_run by (auto split: option.splits)
  obtain u where u: "relaying False ?rd mem_poll_write_buf (bidi_new (mem_copy_buffer 4) (mem_copy_buffer 4) relay_a relay_b) u"
    "bidi_poll 9 False ?rd mem_poll_write_buf u = Some (Ready (Inr (3, 2)), t)"
    using await_relaying [OF relaying.start t(1)] by blast
  obtain t' where t': "bidi_await 9 9 True ?rd mem_poll_write_buf
       (bidi_new (mem_copy_buffer 4) (mem_copy_buffer 4) ?a relay_b) = Some (Inr (0, 2), t')" "rcvd (bc_b t') = [9, 8]"
    using relay_demo_brutal by (auto split: option.splits)
  obtain u' where u': "relaying True ?rd mem_poll_write_buf (bidi_new (mem_copy_buffer 4) (mem_copy_buffer 4) ?a relay_b) u'"
    "bidi_poll 9 True ?rd mem_poll_write_buf u' = Some (Ready (Inr (0, 2)), t')"
    using await_relaying [OF relaying.start t'(1)] by blast
  note ends = bidi_relay_exact [THEN conjunct2, THEN conjunct2, THEN conjunct2, rule_format]
  have "sent (bc_b t) = [1, 2, 3] \<and> sent (bc_a t) = [9, 8] \<and> shut (bc_a t) \<and> shut (bc_b t)"
    using ends [OF u(1) h(1,2) u(2)] t(2,3) by (simp add: relay_ended_def direction_done_def e)
  moreover have "sent (bc_a t') = [9, 8] \<and> shut (bc_a t')"
    using ends [OF u'(1) h(3,2) u'(2)] t'(2) by (auto simp: relay_ended_def direction_done_def e)
  ultimately show ?thesis using t(1) t'(1) by blast
qed

text \<open>
  C9: Two relays in a row, a client (mode 1) and a server (mode 2), form a transparent tunnel: whatever
  the clocks, chunk sizes and interleavings, as long as the server has received a prefix of what the
  client sent and the client a prefix of what the server sent, the target is sent a prefix of what
  the application wrote and the application a prefix of what the target wrote. The obfuscation
  prefix and the two XORs cancel out.
\<close>
theorem obfs_tunnel:
  assumes client: "bidi_start 1 seed1 (mem_copy_buffer n1) (mem_copy_buffer n2) a1 b1 = Inr (Ready (Inr ()), s1)"
      "relaying brutal (mem_poll_read_buf 1 clk1) mem_poll_write_buf s1 t1"
    and server: "bidi_start 2 seed2 (mem_copy_buffer n3) (mem_copy_buffer n4) a2 b2 = Inr (Ready (Inr ()), s2)"
      "relaying brutal (mem_poll_read_buf 2 clk2) mem_poll_write_buf s2 t2"
    and fresh: "\<forall>x \<in> {a1, b1, a2, b2}. honest x \<and> rcvd x = [] \<and> sent x = []"
    and network: "prefix (rcvd (bc_a t2)) (sent (bc_b t1))" "prefix (rcvd (bc_b t1)) (sent (bc_a t2))"
  shows "prefix (sent (bc_b t2)) (rcvd (bc_a t1)) \<and> prefix (sent (bc_a t1)) (rcvd (bc_b t2))"
proof -
  have h: "honest a1" "honest b1" "honest a2" "honest b2" using fresh by simp_all
  note bw = mem_bwf_fresh
  obtain pre h1 c1 d1 where c: "prefix_stage 1 seed1 a1 pre h1" "s1 = bidi_new (mem_copy_buffer n1) (mem_copy_buffer n2) c1 d1"
    "honest c1" "honest d1" "rcvd c1 = []" "sent c1 = []" "sent d1 = pre" "rcvd d1 = []"
    using bidi_start_Ready [OF client(1) h(1,2)] fresh by (auto simp: prefix_stage_def)
  have pre: "generate_dynamic_obfs obfs_key seed1 = Inr pre" using c(1) by (simp add: prefix_stage_def)
  obtain hdr0 l g0 where gen: "pre = xor_key obfs_key hdr0 @ g0" "length hdr0 = 5"
    "parse_len (digit_bytes hdr0) = Some (length g0)"
    using generate_spec [of obfs_key seed1] pre by (metis Inr_inject)
  obtain e2 where e2: "consume_dynamic_obfs obfs_key a2 = Inr (Ready (Inr ()), e2)"
    "s2 = bidi_new (mem_copy_buffer n3) (mem_copy_buffer n4) e2 b2"
    using server(1) by (auto simp: bidi_start_def bind_sum_Inr_iff split: prod.splits)
  obtain hdr g where cons: "rcvd e2 = hdr @ g" "length hdr = 5" "parse_len (digit_bytes (xor_key obfs_key hdr)) = Some (length g)"
    using consume_Ready [OF e2(1)] fresh by auto
  have e2f: "sent e2 = []" "honest e2"
    using consume_rd_frame [OF e2(1)] h(3) fresh by (simp_all add: rd_frame_def honest_def)
  have ab: "bc_a s1 = c1" "bc_b s1 = d1" "bc_a s2 = e2" "bc_b s2 = b2" by (simp_all add: c(2) e2(2) bidi_new_def)
  have f1: "mem.fresh_bidi (replicate n1 0) (replicate n2 0) s1"
    unfolding c(2) mem_copy_buffer_def by (rule mem.fresh_bidi_new [OF bw bw c(3,4)])
  have f2: "mem.fresh_bidi (replicate n3 0) (replicate n4 0) s2"
    unfolding e2(2) mem_copy_buffer_def by (rule mem.fresh_bidi_new [OF bw bw e2f(2) h(4)])
  have p1: "prefix (sent (bc_b t1)) (pre @ map (obfs_byte 1) (rcvd (bc_a t1)))"
      "prefix (sent (bc_a t1)) (map (obfs_byte 1) (rcvd (bc_b t1)))"
    using mem.relay_progress [OF client(2) f1] unfolding ab by (simp_all add: c)
  have p2: "prefix (sent (bc_b t2)) (map (obfs_byte 2) (drop (length (hdr @ g)) (rcvd (bc_a t2))))"
      "prefix (sent (bc_a t2)) (map (obfs_byte 2) (rcvd (bc_b t2)))"
      "prefix (hdr @ g) (rcvd (bc_a t2))"
    using mem.relay_progress [OF server(2) f2] fresh unfolding ab by (simp_all add: cons(1) e2f)
  have r2: "prefix (rcvd (bc_a t2)) (pre @ map (obfs_byte 1) (rcvd (bc_a t1)))"
    using network(1) p1(1) by (rule prefix_order.trans)
  then have len: "length (hdr @ g) = length pre"
    using header_agree [OF cons(2,3) gen] p2(3) prefix_order.trans by blast
  then have "length pre \<le> length (rcvd (bc_a t2))" using prefix_length_le [OF p2(3)] by simp
  from xor_after_prefix [OF r2 this]
  have "prefix (map (obfs_byte 2) (drop (length pre) (rcvd (bc_a t2)))) (rcvd (bc_a t1))" .
  then have fwd: "prefix (sent (bc_b t2)) (rcvd (bc_a t1))" using p2(1) len prefix_order.trans by metis
  have "prefix (sent (bc_a t1)) (map (obfs_byte 1) (sent (bc_a t2)))"
    using p1(2) map_mono_prefix [OF network(2)] prefix_order.trans by blast
  moreover have "prefix (map (obfs_byte 1) (sent (bc_a t2))) (rcvd (bc_b t2))"
    using map_mono_prefix [OF p2(2), of "obfs_byte 1"] by (simp only: obfs_map_inverse)
  ultimately have "prefix (sent (bc_a t1)) (rcvd (bc_b t2))" by (rule prefix_order.trans)
  with fwd show ?thesis by blast
qed

definition tunnel_prefix :: bytes where
  "tunnel_prefix = [89, 177, 130, 66, 246, 21, 44, 102, 30, 121, 103, 105, 75, 161, 112]"

definition idle :: stream where
  "idle = \<lparr>rd_evs = [], wr_evs = [WrAccept 15, WrAccept 15], fl_evs = [], sd_evs = [], rcvd = [], sent = [],
     flushed = 0, shut = False\<rparr>"

abbreviation feed :: "bytes \<Rightarrow> stream" where
  "feed bs \<equiv> idle\<lparr>rd_evs := [RdData bs]\<rparr>"

definition tunnel_poll :: "u8 \<Rightarrow> unit io_result poll \<times> bytes bidi \<Rightarrow> (bytes \<times> bytes) option" where
  "tunnel_poll mode x =
     (case x of
        (Ready (Inr u), s) \<Rightarrow>
          (case bidi_poll 4 False (mem_poll_read_buf mode (\<lambda>_. 0)) mem_poll_write_buf s of
             Some (Pending, t) \<Rightarrow> if rcvd (bc_b t) = [] \<and> sent (bc_a t) = [] then Some (rcvd (bc_a t), sent (bc_b t)) else None
           | _ \<Rightarrow> None)
      | _ \<Rightarrow> None)"

definition tunnel_run :: "u8 \<Rightarrow> u64 \<Rightarrow> bytes \<Rightarrow> (bytes \<times> bytes) option" where
  "tunnel_run mode seed bs =
     (case bidi_start mode seed (mem_copy_buffer 4) (mem_copy_buffer 4) (feed bs) idle of
        Inr x \<Rightarrow> tunnel_poll mode x
      | Inl _ \<Rightarrow> None)"

text \<open>The generator's run for the seed 228, step by step.\<close>

lemma seed_228_digits: "rng_digits 228 = ([49, 48], 10421183023369004875)"
  by (simp add: rng_digits_def next_range_def Let_def)

lemma seed_228_indices: "digit_indices (Suc (Suc 0)) 10421183023369004875 = ([0, 3], 7175202681578986503)"
  unfolding numeral_2_eq_2 [symmetric] by (simp add: digit_indices_def swap_at_def next_range_def Let_def)

lemma seed_228_header:
  "fill_header [0, 1, 2, 3, 4] [0, 3] [49, 48] 7175202681578986503 = Inr ([49, 222, 237, 48, 151], 1746825051362957258)"
  by (simp add: next_range_def Let_def)

lemma seed_228_garbage: "rng_bytes 10 1746825051362957258 = [21, 44, 102, 30, 121, 103, 105, 75, 161, 112]"
proof -
  have "(10 :: nat) = Suc (Suc (Suc (Suc (Suc (Suc (Suc (Suc (Suc (Suc 0)))))))))" by simp
  then show ?thesis by (simp only:) (simp add: next_range_def Let_def)
qed

lemma seed_228_len: "parse_len (digit_bytes [49, 222, 237, 48, 151]) = Some 10"
  by code_simp

lemma seed_228_key: "xor_key obfs_key [49, 222, 237, 48, 151] = [89, 177, 130, 66, 246]"
  by code_simp

lemma seed_228: "generate_dynamic_obfs obfs_key 228 = Inr tunnel_prefix"
  by (simp add: generate_dynamic_obfs_def tunnel_prefix_def seed_228_digits seed_228_indices
      seed_228_header [unfolded One_nat_def] seed_228_len seed_228_key seed_228_garbage del: fill_header.simps)

lemma tunnel_run_start:
  "tunnel_run 1 228 bs = tunnel_poll 1 (case write_all tunnel_prefix idle of (p, b') \<Rightarrow>
     (p, bidi_new (mem_copy_buffer 4) (mem_copy_buffer 4) (feed bs) b'))"
  by (simp add: tunnel_run_def bidi_start_def seed_228 split: prod.splits)

lemma tunnel_run_client: "tunnel_run 1 228 [1, 2, 3] = Some ([1, 2, 3], tunnel_prefix @ [0x5B, 0x58, 0x59])"
  unfolding tunnel_run_start by code_simp

lemma tunnel_run_server: "tunnel_run 2 0 (tunnel_prefix @ [0x5B, 0x58]) = Some (tunnel_prefix @ [0x5B, 0x58], [1, 2])"
  by code_simp

lemma tunnel_runE:
  assumes "tunnel_run mode seed bs = Some (r, w)"
  obtains s t where "bidi_start mode seed (mem_copy_buffer 4) (mem_copy_buffer 4) (feed bs) idle = Inr (Ready (Inr ()), s)"
    "relaying False (mem_poll_read_buf mode (\<lambda>_. 0)) mem_poll_write_buf s t"
    "rcvd (bc_a t) = r" "sent (bc_b t) = w" "rcvd (bc_b t) = []" "sent (bc_a t) = []"
  using assms unfolding tunnel_run_def tunnel_poll_def
  by (auto split: sum.splits poll.splits option.splits prod.splits if_splits intro: relaying.poll [OF relaying.start])

theorem obfs_tunnel_witness:
  "\<exists>r w. tunnel_run 1 228 [1, 2, 3] = Some (r, tunnel_prefix @ [0x5B, 0x58, 0x59]) \<and>
     tunnel_run 2 0 (tunnel_prefix @ [0x5B, 0x58]) = Some (tunnel_prefix @ [0x5B, 0x58], w) \<and> prefix w r"
proof -
  obtain s1 t1 where c: "bidi_start 1 228 (mem_copy_buffer 4) (mem_copy_buffer 4) (feed [1, 2, 3]) idle = Inr (Ready (Inr ()), s1)"
    "relaying False (mem_poll_read_buf 1 (\<lambda>_. 0)) mem_poll_write_buf s1 t1"
    "rcvd (bc_a t1) = [1, 2, 3]" "sent (bc_b t1) = tunnel_prefix @ [0x5B, 0x58, 0x59]" "rcvd (bc_b t1) = []" "sent (bc_a t1) = []"
    by (rule tunnel_runE [OF tunnel_run_client])
  obtain s2 t2 where v: "bidi_start 2 0 (mem_copy_buffer 4) (mem_copy_buffer 4) (feed (tunnel_prefix @ [0x5B, 0x58])) idle = Inr (Ready (Inr ()), s2)"
    "relaying False (mem_poll_read_buf 2 (\<lambda>_. 0)) mem_poll_write_buf s2 t2"
    "rcvd (bc_a t2) = tunnel_prefix @ [0x5B, 0x58]" "sent (bc_b t2) = [1, 2]" "rcvd (bc_b t2) = []" "sent (bc_a t2) = []"
    by (rule tunnel_runE [OF tunnel_run_server])
  have fresh: "\<forall>x \<in> {feed [1, 2, 3], idle, feed (tunnel_prefix @ [0x5B, 0x58]), idle}. honest x \<and> rcvd x = [] \<and> sent x = []"
    by (simp add: honest_def idle_def)
  have "prefix (rcvd (bc_a t2)) (sent (bc_b t1))" "prefix (rcvd (bc_b t1)) (sent (bc_a t2))"
    using c(4,5) v(3) by simp_all
  from obfs_tunnel [OF c(1,2) v(1,2) fresh this] show ?thesis
    using tunnel_run_client tunnel_run_server c(3) v(4) by auto
qed

lemma prefix_stage_unique:
  "prefix_stage mode seed a pre hdr \<Longrightarrow> prefix_stage mode seed a pre' hdr' \<Longrightarrow> pre' = pre \<and> hdr' = hdr"
  by (auto simp: prefix_stage_def split: if_splits)

text \<open>
  Both ways of copying, run to the end on the same streams, write the same prefix and keep every
  byte, but only the buffered one obfuscates: it sends the XORed bytes, the zero-copy path, which
  \<open>run_relay\<close> tries first on Linux, the bytes as they are, in every mode.
\<close>
lemma bidi_paths_exact:
  assumes "honest a" "honest b"
    and "bidi_copy n fuel False mode seed clk buf_size a b = Inr (Some (Inr (m, k), a1, b1))"
    and "bidi_zero_copy n fuel False mode seed pipe_size answers fds a b = Inr (Some (Inr (m', k'), a2, b2), fds')"
  shows "\<exists>pre hdr. prefix_stage mode seed a pre hdr \<and>
    sent b1 = sent b @ pre @ map (obfs_byte mode) (drop (length (rcvd a @ hdr)) (rcvd a1)) \<and>
    sent b2 = sent b @ pre @ drop (length (rcvd a @ hdr)) (rcvd a2) \<and>
    sent a1 = sent a @ map (obfs_byte mode) (drop (length (rcvd b)) (rcvd b1)) \<and>
    sent a2 = sent a @ drop (length (rcvd b)) (rcvd b2)"
proof -
  obtain p1 p2 where p: "pp_data p1 = []" "pp_data p2 = []"
    "bidi_copy_buf n fuel False mode seed zc_poll_read_buf zc_poll_write_buf (copy_buffer_new p1) (copy_buffer_new p2) a b
       = Inr (Some (Inr (m', k'), a2, b2))"
    by (rule bidi_zero_copy_cases [OF assms(4)]) auto
  obtain pre hdr where mem: "prefix_stage mode seed a pre hdr"
    "sent b1 = sent b @ pre @ map (obfs_byte mode) (drop (length (rcvd a @ hdr)) (rcvd a1))"
    "sent a1 = sent a @ map (obfs_byte mode) (drop (length (rcvd b)) (rcvd b1))"
    using mem.bidi_copy_buf_result [OF assms(3) [unfolded bidi_copy_def mem_copy_buffer_def] assms(1,2) mem_bwf_fresh mem_bwf_fresh]
    by blast
  obtain pre' hdr' where zc: "prefix_stage mode seed a pre' hdr'"
    "sent b2 = sent b @ pre' @ map (\<lambda>b. b) (drop (length (rcvd a @ hdr')) (rcvd a2))"
    "sent a2 = sent a @ map (\<lambda>b. b) (drop (length (rcvd b)) (rcvd b2))"
    using zc.bidi_copy_buf_result [OF p(3) assms(1,2) pipe_bwf_fresh [OF p(1)] pipe_bwf_fresh [OF p(2)]]
    by blast
  show ?thesis
    using mem zc prefix_stage_unique [OF mem(1) zc(1)] by (intro exI [of _ pre] exI [of _ hdr]) simp
qed

definition finished :: "relay_io option checked \<Rightarrow> nat \<times> nat \<Rightarrow> bytes \<Rightarrow> bool" where
  "finished r mn bs =
     (case r of Inr (Some (res, a, b)) \<Rightarrow> res = Inr mn \<and> rcvd a = bs | _ \<Rightarrow> False)"

lemma map_sum_fst_Inr: "map_sum id fst r = Inr x \<longleftrightarrow> (\<exists>y. r = Inr (x, y))"
  by (cases r) auto

lemma finishedE:
  assumes "finished r mn bs"
  obtains a b where "r = Inr (Some (Inr mn, a, b))" "rcvd a = bs"
  using assms unfolding finished_def by (auto split: sum.splits option.splits prod.splits)

definition paths_answers :: "pipe_answer \<times> pipe_answer" where
  "paths_answers = (PipeFds 3 4 (Some 8), PipeFds 5 6 (Some 16))"

definition paths_pipe1 :: pipe where
  "paths_pipe1 = \<lparr>pp_rd = 3, pp_wr = 4, pp_cap = 8, pp_data = []\<rparr>"

definition paths_pipe2 :: pipe where
  "paths_pipe2 = \<lparr>pp_rd = 5, pp_wr = 6, pp_cap = 16, pp_data = []\<rparr>"

lemma paths_pipes:
  "pipe_new 16 (fst paths_answers) {} = (Inr paths_pipe1, {3, 4})"
  "pipe_new 16 (snd paths_answers) {3, 4} = (Inr paths_pipe2, {5, 6, 3, 4})"
  by (simp_all add: paths_answers_def pipe_new_def paths_pipe1_def paths_pipe2_def DF_PIPE_SIZE_def)

lemma paths_demo:
  "finished (bidi_copy 9 9 False 0 0 (\<lambda>_. 7) 4 relay_a relay_b) (3, 2) [1, 2, 3]"
  "finished (map_sum id fst (bidi_zero_copy 9 9 False 0 0 16 paths_answers {} relay_a relay_b)) (3, 2) [1, 2, 3]"
proof -
  show "finished (bidi_copy 9 9 False 0 0 (\<lambda>_. 7) 4 relay_a relay_b) (3, 2) [1, 2, 3]" by code_simp
  have "finished (bidi_copy_buf 9 9 False 0 0 zc_poll_read_buf zc_poll_write_buf (copy_buffer_new paths_pipe1)
      (copy_buffer_new paths_pipe2) relay_a relay_b) (3, 2) [1, 2, 3]" by code_simp
  then show "finished (map_sum id fst (bidi_zero_copy 9 9 False 0 0 16 paths_answers {} relay_a relay_b)) (3, 2) [1, 2, 3]"
    by (simp add: bidi_zero_copy_made [OF paths_pipes])
qed

lemma bidi_paths_exact_witness:
  "\<exists>a1 b1 a2 b2 fds. bidi_copy 9 9 False 0 0 (\<lambda>_. 7) 4 relay_a relay_b = Inr (Some (Inr (3, 2), a1, b1)) \<and>
     bidi_zero_copy 9 9 False 0 0 16 paths_answers {} relay_a relay_b = Inr (Some (Inr (3, 2), a2, b2), fds) \<and>
     sent b1 = [1, 2, 3] \<and> sent b2 = [1, 2, 3]"
proof -
  obtain a1 b1 a2 b2 fds where r: "bidi_copy 9 9 False 0 0 (\<lambda>_. 7) 4 relay_a relay_b = Inr (Some (Inr (3, 2), a1, b1))"
     "bidi_zero_copy 9 9 False 0 0 16 paths_answers {} relay_a relay_b = Inr (Some (Inr (3, 2), a2, b2), fds)"
     "rcvd a1 = [1, 2, 3]" "rcvd a2 = [1, 2, 3]"
    using finishedE [OF paths_demo(1)] finishedE [OF paths_demo(2)] unfolding map_sum_fst_Inr by metis
  have h: "honest relay_a" "honest relay_b" by (simp_all add: honest_def relay_a_def relay_b_def)
  have e: "rcvd relay_a = []" "sent relay_b = []" by (simp_all add: relay_a_def relay_b_def)
  from bidi_paths_exact [OF h r(1,2)] r show ?thesis by (auto simp: prefix_stage_def e)
qed

lemma bidi_zero_copy_fds:
  assumes "bidi_zero_copy n fuel brutal mode seed pipe_size answers fds a b = Inr (res, fds')"
    and "fds \<inter> (answer_fds (fst answers) \<union> answer_fds (snd answers)) = {}"
  shows "fds' = (if res = None then fds \<union> answer_fds (fst answers) \<union> answer_fds (snd answers) else fds)"
  using assms(1)
proof (cases rule: bidi_zero_copy_cases)
  case (pipe e)
  then show ?thesis using assms(2) by auto
next
  case (copied p1 p2)
  then show ?thesis using assms(2) by (auto simp: Let_def)
qed

text \<open>
  C16: A relay leaks no descriptor: when it has returned, whether it ended, was refused a pipe, failed or fell back
  to the buffered copy, the descriptors in use are those from before; while the splicing waits its two
  pipes are open, and while the fallback waits they are closed.
\<close>
theorem run_relay_closes_pipes:
  assumes "run_relay n fuel brutal mode seed1 seed2 clk pipe_size answers fds buf_size a b = Inr (res, fds')"
    and "fds \<inter> (answer_fds (fst answers) \<union> answer_fds (snd answers)) = {}"
  shows "fds' = fds \<or> res = None \<and> fds' = fds \<union> answer_fds (fst answers) \<union> answer_fds (snd answers)"
proof -
  obtain z fds1 where z: "bidi_zero_copy n fuel brutal mode seed1 pipe_size answers fds a b = Inr (z, fds1)"
    using assms(1) by (auto simp: run_relay_def bind_sum_Inr_iff)
  have "fds' = fds1 \<and> (z = None \<longrightarrow> res = None)"
  proof (cases z)
    case None
    then show ?thesis using assms(1) z by (simp add: run_relay_def)
  next
    case (Some x)
    obtain r a1 b1 where "x = (r, a1, b1)" by (cases x)
    then show ?thesis using assms(1) z Some by (cases r) (auto simp: run_relay_def bind_sum_Inr_iff split: if_splits)
  qed
  with bidi_zero_copy_fds [OF z assms(2)] show ?thesis by auto
qed

lemma answer_fds_paths: "answer_fds (fst paths_answers) \<union> answer_fds (snd paths_answers) = {3, 4, 5, 6}"
  by (auto simp: paths_answers_def)

theorem run_relay_closes_pipes_witness:
  "\<exists>a b. run_relay 9 9 False 0 0 0 (\<lambda>_. 7) 16 paths_answers {0, 1, 2} 4 relay_a relay_b = Inr (Some (Inr (), a, b), {0, 1, 2})"
proof -
  obtain a b fds' where r: "bidi_zero_copy 9 9 False 0 0 16 paths_answers {0, 1, 2} relay_a relay_b = Inr (Some (Inr (3, 2), a, b), fds')"
  proof -
    have "pipe_new 16 (fst paths_answers) {0, 1, 2} = (Inr paths_pipe1, {3, 4, 0, 1, 2})"
      "pipe_new 16 (snd paths_answers) {3, 4, 0, 1, 2} = (Inr paths_pipe2, {5, 6, 3, 4, 0, 1, 2})"
      by (simp_all add: paths_answers_def pipe_new_def paths_pipe1_def paths_pipe2_def DF_PIPE_SIZE_def)
    from bidi_zero_copy_made [OF this] have "map_sum id fst (bidi_zero_copy 9 9 False 0 0 16 paths_answers {0, 1, 2} relay_a relay_b) =
        map_sum id fst (bidi_zero_copy 9 9 False 0 0 16 paths_answers {} relay_a relay_b)"
      unfolding bidi_zero_copy_made [OF paths_pipes] by blast
    from finishedE [OF paths_demo(2) [folded this]] that show thesis unfolding map_sum_fst_Inr by metis
  qed
  then have run: "run_relay 9 9 False 0 0 0 (\<lambda>_. 7) 16 paths_answers {0, 1, 2} 4 relay_a relay_b = Inr (Some (Inr (), a, b), fds')"
    by (simp add: run_relay_def)
  have "{0, 1, 2} \<inter> (answer_fds (fst paths_answers) \<union> answer_fds (snd paths_answers)) = {}"
    unfolding answer_fds_paths by simp
  from run_relay_closes_pipes [OF run this] have "fds' = {0, 1, 2}" by simp
  with run show ?thesis by simp
qed

end
