(* ===== verification/Relay_End.thy ===== *)
theory Relay_End
  imports Bidi_Copy
begin

text \<open>
  What a relay leaves behind however it ends: \<open>relayed\<close> relates the two streams before and after, for every
  buffer, and for \<open>run_relay\<close> with its fallback.
\<close>

section \<open>What is relayed\<close>

text \<open>
  The obfuscation header in terms of its bytes: five bytes whose decoded digits are two, not starting with 0, or three, not
  starting with 00, and as many bytes as they say. A header that is refused, or not there in full, is cut at the point where that shows.
\<close>

definition good_digits :: "bytes \<Rightarrow> bool" where
  "good_digits ds \<longleftrightarrow> length ds = 2 \<and> ds ! 0 \<noteq> 48 \<or> length ds = 3 \<and> (ds ! 0 \<noteq> 48 \<or> ds ! 1 \<noteq> 48)"

definition header_digits :: "bytes \<Rightarrow> bytes" where
  "header_digits hdr = digit_bytes (xor_key obfs_key (take 5 hdr))"

definition valid_header :: "bytes \<Rightarrow> bool" where
  "valid_header hdr \<longleftrightarrow> 5 \<le> length hdr \<and> good_digits (header_digits hdr) \<and>
     parse_len (header_digits hdr) = Some (length hdr - 5)"

definition refused_header :: "bytes \<Rightarrow> bool" where
  "refused_header hdr \<longleftrightarrow> length hdr < 5 \<or> length hdr = 5 \<and> \<not> good_digits (header_digits hdr) \<or>
     good_digits (header_digits hdr) \<and>
       (case parse_len (header_digits hdr) of None \<Rightarrow> False | Some l \<Rightarrow> 5 \<le> length hdr \<and> length hdr < 5 + l)"

text \<open>
  A relay that got past its start: a client (mode 1) has sent the prefix, a server (mode 2) has taken a valid header and
  nothing else, and then \<open>data\<close> was read from the client's side and \<open>reply\<close> from the peer's; what was sent on is, encoded,
  the beginning of each: when the relay reported no error (\<open>ok\<close>), all of both, or of one of them when it ends brutally.
\<close>

definition prefix_made :: "u8 \<Rightarrow> u64 \<Rightarrow> bytes \<Rightarrow> bool" where
  "prefix_made mode seed pre \<longleftrightarrow> (if mode = 1 then generate_dynamic_obfs obfs_key seed = Inr pre else pre = [])"

definition relay_started :: "bool \<Rightarrow> u8 \<Rightarrow> u64 \<Rightarrow> (u8 \<Rightarrow> u8) \<Rightarrow> bool \<Rightarrow> stream \<Rightarrow> stream \<Rightarrow> stream \<Rightarrow> stream \<Rightarrow> bool" where
  "relay_started brutal mode seed enc ok a b a' b' \<longleftrightarrow>
     (\<exists>pre hdr data reply d1 d2.
        prefix_made mode seed pre \<and> (if mode = 2 then valid_header hdr else hdr = []) \<and>
        rcvd a' = rcvd a @ hdr @ data \<and> rcvd b' = rcvd b @ reply \<and> prefix d1 data \<and> prefix d2 reply \<and>
        sent b' = sent b @ pre @ map enc d1 \<and> sent a' = sent a @ map enc d2 \<and>
        (ok \<longrightarrow> (if brutal then d1 = data \<or> d2 = reply else d1 = data \<and> d2 = reply)))"

text \<open>
  One that did not: a client has sent a part of its prefix at most, a server has taken a header that is no valid one;
  nothing else was read or sent.
\<close>

definition relay_refused :: "u8 \<Rightarrow> u64 \<Rightarrow> stream \<Rightarrow> stream \<Rightarrow> stream \<Rightarrow> stream \<Rightarrow> bool" where
  "relay_refused mode seed a b a' b' \<longleftrightarrow>
     (\<exists>pre hdr k. prefix_made mode seed pre \<and> (if mode = 2 then refused_header hdr else hdr = []) \<and>
        rcvd a' = rcvd a @ hdr \<and> sent a' = sent a \<and> rcvd b' = rcvd b \<and> sent b' = sent b @ take k pre)"

definition relayed :: "bool \<Rightarrow> u8 \<Rightarrow> u64 \<Rightarrow> (u8 \<Rightarrow> u8) \<Rightarrow> bool \<Rightarrow> stream \<Rightarrow> stream \<Rightarrow> stream \<Rightarrow> stream \<Rightarrow> bool" where
  "relayed brutal mode seed enc ok a b a' b' \<longleftrightarrow>
     relay_started brutal mode seed enc ok a b a' b' \<or> \<not> ok \<and> relay_refused mode seed a b a' b'"

lemma relay_startedI:
  assumes "prefix_made mode seed pre" "if mode = 2 then valid_header hdr else hdr = []"
    and "rcvd a' = rcvd a @ hdr @ data" "rcvd b' = rcvd b @ reply" "prefix d1 data" "prefix d2 reply"
    and "sent b' = sent b @ pre @ map enc d1" "sent a' = sent a @ map enc d2"
    and "ok \<Longrightarrow> if brutal then d1 = data \<or> d2 = reply else d1 = data \<and> d2 = reply"
  shows "relay_started brutal mode seed enc ok a b a' b'"
  unfolding relay_started_def using assms by blast

lemma relay_refusedI:
  assumes "prefix_made mode seed pre" "if mode = 2 then refused_header hdr else hdr = []"
    and "rcvd a' = rcvd a @ hdr" "sent a' = sent a" "rcvd b' = rcvd b" "sent b' = sent b @ take k pre"
  shows "relay_refused mode seed a b a' b'"
  unfolding relay_refused_def using assms by blast

section \<open>The consumer\<close>

text \<open>A read that does not get all its bytes has got fewer.\<close>

lemma read_exact_less:
  "read_exact n s = (p, s') \<Longrightarrow> \<forall>bs. p \<noteq> Ready (Inr bs) \<Longrightarrow> \<exists>bs. rcvd s' = rcvd s @ bs \<and> length bs < n"
proof (induction n s arbitrary: p s' rule: read_exact.induct)
  case (1 n s)
  have n: "n \<noteq> 0"
  proof
    assume "n = 0"
    then show False using "1.prems" by (auto simp: read_exact.simps [of 0 s])
  qed
  show ?case
  proof (cases "rd_evs s = []")
    case True
    then show ?thesis using "1.prems"(1) n by (simp add: read_exact.simps [of n s])
  next
    case ev: False
    obtain q t where q: "poll_read n s = (q, t)" by (cases "poll_read n s")
    show ?thesis
    proof (cases q)
      case Pending
      then have "read_exact n t = (p, s')" using "1.prems"(1) n ev q by (simp add: read_exact.simps [of n s])
      moreover have "rcvd t = rcvd s" using Pending by (cases rule: poll_read_cases [OF q]) simp_all
      ultimately show ?thesis using "1.IH"(1) [OF n ev q [symmetric] Pending _ "1.prems"(2)] by simp
    next
      case (Ready res)
      show ?thesis
      proof (cases "\<exists>bs. res = Inr bs \<and> bs \<noteq> []")
        case True
        then obtain bs where bs: "res = Inr bs" "bs \<noteq> []" by blast
        have t: "rcvd t = rcvd s @ bs \<and> length bs \<le> n" using Ready bs by (cases rule: poll_read_cases [OF q]) simp_all
        obtain u v where u: "read_exact (n - length bs) t = (u, v)" by (cases "read_exact (n - length bs) t")
        have v: "s' = v" and "\<forall>cs. u \<noteq> Ready (Inr cs)" using "1.prems" n ev q Ready bs u
          by (auto simp: read_exact.simps [of n s] split: poll.splits sum.splits)
        from "1.IH"(2) [OF n ev q [symmetric] Ready bs u this(2)] obtain cs where "rcvd v = rcvd t @ cs" "length cs < n - length bs"
          by blast
        then show ?thesis using t v by - (rule exI [where x = "bs @ cs"], simp)
      next
        case False
        then have "s' = t" using "1.prems"(1) n ev q Ready
          by (auto simp: read_exact.simps [of n s] split: sum.splits)
        moreover have "rcvd t = rcvd s" using Ready False by (cases rule: poll_read_cases [OF q]) simp_all
        ultimately show ?thesis using n by simp
      qed
    qed
  qed
qed

lemma good_digits_probe: "good_digits ds \<longleftrightarrow> \<not> is_probe ds"
  by (auto simp: good_digits_def is_probe_def Let_def)

lemma consume_header:
  assumes "consume_dynamic_obfs obfs_key s = Inr (Ready res, s')"
  shows "\<exists>hdr. rcvd s' = rcvd s @ hdr \<and> (if res = Inr () then valid_header hdr else refused_header hdr)"
proof -
  obtain q t where r: "read_exact 5 s = (q, t)" by (cases "read_exact 5 s")
  show ?thesis
  proof (cases "\<exists>h. q = Ready (Inr h)")
    case False
    then obtain e where "q = Ready (Inl e)" "res = Inl e" "s' = t"
      using assms r by (auto simp: consume_dynamic_obfs_def split: poll.splits sum.splits)
    moreover obtain bs where "rcvd t = rcvd s @ bs" "length bs < 5" using read_exact_less [OF r] False by blast
    ultimately show ?thesis by (auto simp: refused_header_def)
  next
    case True
    then obtain h where h: "q = Ready (Inr h)" by blast
    have rt: "length h = 5" "rcvd t = rcvd s @ h" using read_exact_Ready [OF r [unfolded h]] by simp_all
    let ?ds = "digit_bytes (xor_key obfs_key h)"
    show ?thesis
    proof (cases "is_probe ?ds")
      case True
      then have "res = Inl InvalidData" "s' = t" using assms r h by (simp_all add: consume_dynamic_obfs_def)
      then show ?thesis using rt True by (auto simp: refused_header_def header_digits_def good_digits_probe)
    next
      case np: False
      obtain l where l: "parse_len ?ds = Some l" "l \<le> 999" using not_probe_len [OF np] .
      obtain u v where u: "read_exact l t = (u, v)" by (cases "read_exact l t")
      have d: "header_digits (h @ g) = ?ds" for g using rt(1) by (simp add: header_digits_def)
      show ?thesis
      proof (cases "\<exists>g. u = Ready (Inr g)")
        case True
        then obtain g where g: "u = Ready (Inr g)" by blast
        have "res = Inr ()" "s' = v" using assms r h np l u g by (simp_all add: consume_dynamic_obfs_def)
        moreover have "length g = l" "rcvd v = rcvd t @ g" using read_exact_Ready [OF u [unfolded g]] by simp_all
        ultimately show ?thesis using rt l(1) np d [of g]
          by - (rule exI [where x = "h @ g"], simp add: valid_header_def good_digits_probe)
      next
        case False
        then obtain e where "u = Ready (Inl e)" "res = Inl e" "s' = v"
          using assms r h np l u by (auto simp: consume_dynamic_obfs_def split: poll.splits sum.splits)
        moreover obtain g where "rcvd v = rcvd t @ g" "length g < l" using read_exact_less [OF u] False by blast
        ultimately show ?thesis using rt l(1) np d [of g]
          by - (rule exI [where x = "h @ g"], simp add: refused_header_def good_digits_probe)
      qed
    qed
  qed
qed

section \<open>The prefix stage\<close>

lemma prefix_made_ex: "\<exists>pre. prefix_made mode seed pre"
proof -
  obtain pre0 where "generate_dynamic_obfs obfs_key seed = Inr pre0" by (rule generate_spec)
  then show ?thesis by (cases "mode = 1") (simp_all add: prefix_made_def)
qed

lemma prefix_stage_made:
  assumes "prefix_stage mode seed a pre hdr"
  shows "prefix_made mode seed pre \<and> (if mode = 2 then valid_header hdr else hdr = [])"
proof -
  have "valid_header hdr" if m: "mode = 2"
  proof -
    obtain a' where a': "consume_dynamic_obfs obfs_key a = Inr (Ready (Inr ()), a')" "rcvd a' = rcvd a @ hdr"
      using assms m by (auto simp: prefix_stage_def)
    from consume_header [OF a'(1)] a'(2) show ?thesis by simp
  qed
  then show ?thesis using assms by (simp add: prefix_stage_def prefix_made_def)
qed

lemma bidi_start_bad:
  assumes "bidi_start mode seed buf1 buf2 a b = Inr (Ready (Inl e), s)" "honest b"
  shows "relay_refused mode seed a b (bc_a s) (bc_b s)"
proof -
  consider "mode = 1" | "mode = 2" using assms(1) by (auto simp: bidi_start_def split: if_splits)
  then show ?thesis
  proof cases
    case 1
    then obtain pre where pre: "generate_dynamic_obfs obfs_key seed = Inr pre"
      "(case write_all pre b of (p, b') \<Rightarrow> Inr (p, bidi_new buf1 buf2 a b')) = (Inr (Ready (Inl e), s) :: _ checked)"
      using assms(1) by (auto simp: bidi_start_def bind_sum_Inr_iff)
    then obtain b' where g: "generate_dynamic_obfs obfs_key seed = Inr pre" "write_all pre b = (Ready (Inl e), b')"
      "s = bidi_new buf1 buf2 a b'"
      by (cases "write_all pre b") auto
    from write_all_sent [OF g(2) assms(2)] obtain k where "rcvd b' = rcvd b" "sent b' = sent b @ take k pre" by blast
    then show ?thesis using g 1
      by (intro relay_refusedI [where pre = pre and hdr = "[]" and k = k]) (auto simp: bidi_new_def prefix_made_def)
  next
    case 2
    then obtain a' where c: "consume_dynamic_obfs obfs_key a = Inr (Ready (Inl e), a')" "s = bidi_new buf1 buf2 a' b"
      using assms(1) by (auto simp: bidi_start_def bind_sum_Inr_iff split: prod.splits)
    obtain bs where "rcvd a' = rcvd a @ bs" "refused_header bs" using consume_header [OF c(1)] by auto
    moreover have "sent a' = sent a" using consume_rd_frame [OF c(1)] by (simp add: rd_frame_def)
    ultimately show ?thesis using c(2) 2
      by (intro relay_refusedI [where pre = "[]" and hdr = bs]) (auto simp: bidi_new_def prefix_made_def)
  qed
qed

lemma bidi_start_honest:
  assumes "bidi_start mode seed buf1 buf2 a b = Inr (p, s)" "honest a" "honest b"
  shows "honest (bc_a s) \<and> honest (bc_b s)"
proof -
  consider "mode = 1" | "mode = 2" | "mode \<noteq> 1" "mode \<noteq> 2" by blast
  then show ?thesis
  proof cases
    case 1
    then obtain pre where pre:
      "(case write_all pre b of (p, b') \<Rightarrow> Inr (p, bidi_new buf1 buf2 a b')) = (Inr (p, s) :: _ checked)"
      using assms(1) by (auto simp: bidi_start_def bind_sum_Inr_iff)
    obtain q b' where "write_all pre b = (q, b')" by (cases "write_all pre b")
    then show ?thesis using pre write_all_sent assms(2,3) by (auto simp: bidi_new_def)
  next
    case 2
    then obtain a' where "consume_dynamic_obfs obfs_key a = Inr (p, a')" "s = bidi_new buf1 buf2 a' b"
      using assms(1) by (auto simp: bidi_start_def bind_sum_Inr_iff split: prod.splits)
    then show ?thesis using rd_frame_honest [OF consume_rd_frame] assms(2,3) by (simp add: bidi_new_def)
  next
    case 3
    then show ?thesis using assms by (auto simp: bidi_start_def bidi_new_def)
  qed
qed

section \<open>A relay over any buffer\<close>

context async_io_buf
begin

lemma bidi_copy_buf_relayed:
  assumes "bidi_copy_buf n fuel brutal mode seed rd wr (copy_buffer_new x) (copy_buffer_new y) a b
      = Inr (Some (res, a', b'))"
    and "honest a" "honest b" "bwf 0 0 x" "bwf 0 0 y"
  shows "relayed brutal mode seed enc (\<exists>mk. res = Inr mk) a b a' b' \<and> honest a' \<and> honest b'"
proof -
  obtain p s where s: "bidi_start mode seed (copy_buffer_new x) (copy_buffer_new y) a b = Inr (p, s)"
    using assms(1) by (auto simp: bidi_copy_buf_def bind_sum_Inr_iff)
  show ?thesis
  proof (cases "\<exists>e. p = Ready (Inl e)")
    case True
    then obtain e where e: "p = Ready (Inl e)" by blast
    then have r: "res = Inl e" "a' = bc_a s" "b' = bc_b s" using assms(1) s by (simp_all add: bidi_copy_buf_def)
    show ?thesis using bidi_start_bad [OF s [unfolded e] assms(3)] bidi_start_honest [OF s assms(2,3)] r
      by (simp add: relayed_def)
  next
    case False
    then have p: "p = Ready (Inr ())"
      using assms(1) s by (auto simp: bidi_copy_buf_def split: poll.splits sum.splits)
    obtain t where t: "bidi_await n fuel brutal rd wr s = Some (res, t)" "a' = bc_a t" "b' = bc_b t"
      using assms(1) s p by (auto simp: bidi_copy_buf_def split: option.splits)
    obtain pre hdr a1 b1 where st: "prefix_stage mode seed a pre hdr"
      "s = bidi_new (copy_buffer_new x) (copy_buffer_new y) a1 b1" "honest a1" "honest b1"
      "rcvd a1 = rcvd a @ hdr" "sent a1 = sent a" "sent b1 = sent b @ pre" "rcvd b1 = rcvd b"
      using bidi_start_Ready [OF s [unfolded p] assms(2,3)] .
    obtain u where u: "relaying brutal rd wr s t" "relaying brutal rd wr s u" "bidi_poll fuel brutal rd wr u = Some (Ready res, t)"
      using await_relaying [OF relaying.start t(1)] by blast
    have fr: "fresh_bidi x y s" unfolding st(2) by (rule fresh_bidi_new [OF assms(4,5) st(3,4)])
    have ab: "bc_a s = a1" "bc_b s = b1" by (simp_all add: st(2) bidi_new_def)
    have h: "honest a' \<and> honest b'"
      using relaying_inv [OF u(1) fresh_bidi_inv [OF fr]] dir_inv_honest t(2,3) unfolding bidi_inv_def by blast
    note pr = relay_progress [OF u(1) fr, unfolded ab st(5-8), folded t(2,3)]
    obtain data reply where d: "rcvd a' = (rcvd a @ hdr) @ data" "rcvd b' = rcvd b @ reply"
      using pr by (auto simp: prefix_def)
    obtain d1 d2 where s12: "prefix d1 data" "sent b' = (sent b @ pre) @ map enc d1" "prefix d2 reply" "sent a' = sent a @ map enc d2"
      using relay_sent [OF u(1) fr, unfolded ab st(5-8), folded t(2,3), unfolded d] by auto
    show ?thesis
    proof (cases res)
      case (Inl e)
      have "relay_started brutal mode seed enc False a b a' b'"
        by (rule relay_startedI [where pre = pre and hdr = hdr and data = data and reply = reply and ?d1.0 = d1 and ?d2.0 = d2])
          (use prefix_stage_made [OF st(1)] d s12 in simp_all)
      then show ?thesis using Inl h by (simp add: relayed_def)
    next
      case (Inr mk)
      obtain m k where mk: "mk = (m, k)" by (cases mk)
      from relay_result [OF u(2) fr u(3) [unfolded Inr mk], unfolded ab st(5-8), folded t(2,3)]
      have "relay_ended brutal (direction_done enc (rcvd a @ hdr) (sent b @ pre) a' b') (direction_done enc (rcvd b) (sent a) b' a') m k" .
      moreover have "direction_done enc (rcvd a @ hdr) (sent b @ pre) a' b' c \<Longrightarrow> sent b' = sent b @ pre @ map enc data"
        "direction_done enc (rcvd b) (sent a) b' a' c \<Longrightarrow> sent a' = sent a @ map enc reply" for c
        using d by (simp_all add: direction_done_def)
      ultimately have "\<exists>d1 d2. prefix d1 data \<and> prefix d2 reply \<and> sent b' = sent b @ pre @ map enc d1 \<and> sent a' = sent a @ map enc d2 \<and>
          (if brutal then d1 = data \<or> d2 = reply else d1 = data \<and> d2 = reply)"
        using s12 unfolding relay_ended_def by (cases brutal) (simp_all, blast+)
      then obtain e1 e2 where e: "prefix e1 data" "prefix e2 reply" "sent b' = sent b @ pre @ map enc e1" "sent a' = sent a @ map enc e2"
          "if brutal then e1 = data \<or> e2 = reply else e1 = data \<and> e2 = reply" by blast
      have "relay_started brutal mode seed enc True a b a' b'"
        by (rule relay_startedI [where pre = pre and hdr = hdr and data = data and reply = reply and ?d1.0 = e1 and ?d2.0 = e2])
          (use prefix_stage_made [OF st(1)] d e in simp_all)
      then show ?thesis using Inr h by (simp add: relayed_def)
    qed
  qed
qed

end

section \<open>The relay with its fallback\<close>

lemma relayed_weaken: "relayed brutal mode seed enc ok a b a' b' \<Longrightarrow> relayed brutal mode seed enc False a b a' b'"
  unfolding relayed_def relay_started_def by blast

lemma relayed_nothing: "relayed brutal mode seed enc False a b a b"
proof -
  obtain pre where "prefix_made mode seed pre" using prefix_made_ex by blast
  then have "relay_refused mode seed a b a b"
    by (rule relay_refusedI [where hdr = "[]" and k = 0]) (simp_all add: refused_header_def)
  then show ?thesis by (simp add: relayed_def)
qed

lemma bidi_zero_copy_relayed:
  assumes "bidi_zero_copy n fuel brutal mode seed pipe_size answers fds a b = Inr (Some (res, a', b'), fds')" "honest a" "honest b"
  shows "relayed brutal mode seed (\<lambda>b. b) (\<exists>mk. res = Inr mk) a b a' b' \<and> honest a' \<and> honest b'"
  using assms(1)
proof (cases rule: bidi_zero_copy_cases)
  case (pipe e)
  then show ?thesis using relayed_nothing assms(2,3) by simp
next
  case (copied p1 p2)
  then show ?thesis
    using zc.bidi_copy_buf_relayed [OF copied(3) assms(2,3) pipe_bwf_fresh pipe_bwf_fresh] by blast
qed

lemma bidi_copy_relayed:
  assumes "bidi_copy n fuel brutal mode seed clk buf_size a b = Inr (Some (res, a', b'))" "honest a" "honest b"
  shows "relayed brutal mode seed (obfs_byte mode) (\<exists>mk. res = Inr mk) a b a' b'"
  using mem.bidi_copy_buf_relayed [OF assms(1) [unfolded bidi_copy_def mem_copy_buffer_def] assms(2,3) mem_bwf_fresh mem_bwf_fresh]
  by blast

text \<open>The two ways in which \<open>run_relay\<close> ends.\<close>

lemma run_relay_paths:
  assumes "run_relay n fuel brutal mode seed1 seed2 clk pipe_size answers fds buf_size a b = Inr (Some (res, a', b'), fds')"
    and "honest a" "honest b"
  obtains (spliced) "relayed brutal mode seed1 (\<lambda>b. b) (res = Inr ()) a b a' b'"
    "\<forall>a1 b1 fds1. bidi_zero_copy n fuel brutal mode seed1 pipe_size answers fds a b \<noteq> Inr (Some (Inl InvalidInput, a1, b1), fds1)"
  | (fallback) a1 b1 fds1 where "bidi_zero_copy n fuel brutal mode seed1 pipe_size answers fds a b = Inr (Some (Inl InvalidInput, a1, b1), fds1)"
    "relayed brutal mode seed1 (\<lambda>b. b) False a b a1 b1" "relayed brutal mode seed2 (obfs_byte mode) (res = Inr ()) a1 b1 a' b'"
proof -
  obtain z fds1 where z: "bidi_zero_copy n fuel brutal mode seed1 pipe_size answers fds a b = Inr (z, fds1)"
    using assms(1) by (auto simp: run_relay_def bind_sum_Inr_iff)
  then obtain r a1 b1 where r: "bidi_zero_copy n fuel brutal mode seed1 pipe_size answers fds a b = Inr (Some (r, a1, b1), fds1)"
    using assms(1) by (cases z) (auto simp: run_relay_def)
  note rel = bidi_zero_copy_relayed [OF r assms(2,3)]
  show thesis
  proof (cases "r = Inl InvalidInput")
    case False
    then have "a' = a1 \<and> b' = b1 \<and> (res = Inr () \<longrightarrow> (\<exists>mk. r = Inr mk))"
      using assms(1) r by (cases r) (auto simp: run_relay_def)
    then have "relayed brutal mode seed1 (\<lambda>b. b) (res = Inr ()) a b a' b'"
      using rel relayed_weaken by (cases "res = Inr ()") auto
    then show thesis by (rule spliced) (use r False in simp)
  next
    case True
    then obtain m where m: "bidi_copy n fuel brutal mode seed2 clk buf_size a1 b1 = Inr m"
      using assms(1) r by (auto simp: run_relay_def bind_sum_Inr_iff)
    then obtain r2 a2 b2 where m2: "m = Some (r2, a2, b2)" using assms(1) r True by (cases m) (auto simp: run_relay_def)
    have e: "a' = a2 \<and> b' = b2 \<and> (res = Inr () \<longrightarrow> (\<exists>mk. r2 = Inr mk))"
      using assms(1) r True m m2 by (cases r2) (auto simp: run_relay_def)
    have "relayed brutal mode seed2 (obfs_byte mode) (\<exists>mk. r2 = Inr mk) a1 b1 a2 b2"
      using bidi_copy_relayed [OF m [unfolded m2]] rel by blast
    then have "relayed brutal mode seed2 (obfs_byte mode) (res = Inr ()) a1 b1 a' b'"
      using e relayed_weaken by (cases "res = Inr ()") auto
    moreover have "relayed brutal mode seed1 (\<lambda>b. b) False a b a1 b1" using rel relayed_weaken by blast
    ultimately show thesis using fallback r True by blast
  qed
qed

lemma run_relay_relayed:
  assumes "run_relay n fuel brutal mode seed1 seed2 clk pipe_size answers fds buf_size a b = Inr (Some (res, a', b'), fds')"
    and "honest a" "honest b"
  shows "(\<forall>a1 b1 fds1. bidi_zero_copy n fuel brutal mode seed1 pipe_size answers fds a b \<noteq> Inr (Some (Inl InvalidInput, a1, b1), fds1)) \<and>
      relayed brutal mode seed1 (\<lambda>b. b) (res = Inr ()) a b a' b' \<or>
    (\<exists>a1 b1 fds1. bidi_zero_copy n fuel brutal mode seed1 pipe_size answers fds a b = Inr (Some (Inl InvalidInput, a1, b1), fds1) \<and>
       relayed brutal mode seed1 (\<lambda>b. b) False a b a1 b1 \<and>
       relayed brutal mode seed2 (obfs_byte mode) (res = Inr ()) a1 b1 a' b')"
  using assms by (cases rule: run_relay_paths) blast+

section \<open>No panic\<close>

lemma bidi_start_no_panic: "\<exists>p s. bidi_start mode seed buf1 buf2 a b = Inr (p, s)"
proof -
  obtain pre where "generate_dynamic_obfs obfs_key seed = Inr pre" using generate_spec by metis
  moreover obtain p s where "consume_dynamic_obfs obfs_key a = Inr (p, s)" using consume_no_panic by blast
  ultimately show ?thesis by (cases "write_all pre b") (simp add: bidi_start_def)
qed

lemma bidi_copy_buf_no_panic: "\<exists>z. bidi_copy_buf n fuel brutal mode seed rd wr buf1 buf2 a b = Inr z"
proof -
  obtain p s where "bidi_start mode seed buf1 buf2 a b = Inr (p, s)" using bidi_start_no_panic by blast
  then show ?thesis by (simp add: bidi_copy_buf_def)
qed

lemma bidi_zero_copy_no_panic: "\<exists>z fds'. bidi_zero_copy n fuel brutal mode seed pipe_size answers fds a b = Inr (z, fds')"
proof -
  have "\<exists>z. bidi_copy_buf n fuel brutal mode seed zc_poll_read_buf zc_poll_write_buf (copy_buffer_new p1) (copy_buffer_new p2) a b = Inr z"
    for p1 p2 by (rule bidi_copy_buf_no_panic)
  then show ?thesis by (auto simp: bidi_zero_copy_def bind_sum_Inr_iff split: prod.split sum.split)
qed

lemma run_relay_no_panic:
  "\<exists>z. run_relay n fuel brutal mode seed1 seed2 clk pipe_size answers fds buf_size a b = Inr z"
proof -
  have 1: "\<exists>z. bidi_copy n fuel brutal mode seed2 clk buf_size a b = Inr z" for a b
    unfolding bidi_copy_def by (rule bidi_copy_buf_no_panic)
  obtain z fds1 where z: "bidi_zero_copy n fuel brutal mode seed1 pipe_size answers fds a b = Inr (z, fds1)"
    using bidi_zero_copy_no_panic by blast
  show ?thesis
  proof (cases z)
    case None
    then show ?thesis by (simp add: run_relay_def z)
  next
    case (Some x)
    obtain r a1 b1 where x: "x = (r, a1, b1)" by (cases x)
    obtain m where "bidi_copy n fuel brutal mode seed2 clk buf_size a1 b1 = Inr m" using 1 by blast
    then show ?thesis by (cases r) (simp_all add: run_relay_def z Some x)
  qed
qed

section \<open>Properties\<close>

text \<open>
  C18: The prefix is sent twice: when a client (mode 1) has sent its prefix and the splice is then refused with \<open>InvalidInput\<close>,
  the fallback runs \<open>bidi_copy_buf\<close> once more. So for all seeds, streams, pipes and both shutdown modes the peer is sent the first
  prefix, what was spliced of the first bytes (as they are: the splice does not obfuscate), then a second
  prefix (a part of it when writing it fails), and only then, obfuscated, the bytes read from there on.
\<close>
theorem fallback_sends_prefix_twice:
  assumes "bidi_zero_copy n fuel brutal 1 seed1 pipe_size answers fds a b = Inr (Some (Inl InvalidInput, a1, b1), fds1)"
    and "run_relay n fuel brutal 1 seed1 seed2 clk pipe_size answers fds buf_size a b = Inr (Some (res, a', b'), fds')"
    and "honest a" "honest b"
    and "generate_dynamic_obfs obfs_key seed1 = Inr pre1" "length (sent b) + length pre1 \<le> length (sent b1)"
  shows "\<exists>data1 d1 pre2. generate_dynamic_obfs obfs_key seed2 = Inr pre2 \<and> rcvd a1 = rcvd a @ data1 \<and> prefix d1 data1 \<and>
    ((\<exists>data2 d2. rcvd a' = rcvd a1 @ data2 \<and> prefix d2 data2 \<and> (res = Inr () \<and> \<not> brutal \<longrightarrow> d2 = data2) \<and>
        sent b' = sent b @ pre1 @ d1 @ pre2 @ map (obfs_byte 1) d2) \<or>
     (\<exists>k. res \<noteq> Inr () \<and> sent b' = sent b @ pre1 @ d1 @ take k pre2))"
proof -
  have rel: "relayed brutal 1 seed1 (\<lambda>b. b) False a b a1 b1" "relayed brutal 1 seed2 (obfs_byte 1) (res = Inr ()) a1 b1 a' b'"
    using run_relay_paths [OF assms(2-4)] assms(1) by force+
  have "\<exists>data1 d1. rcvd a1 = rcvd a @ data1 \<and> prefix d1 data1 \<and> sent b1 = sent b @ pre1 @ d1"
    using rel(1) unfolding relayed_def
  proof (elim disjE conjE)
    assume "relay_started brutal 1 seed1 (\<lambda>b. b) False a b a1 b1"
    then show ?thesis using assms(5) by (auto simp: relay_started_def prefix_made_def)
  next
    assume "relay_refused 1 seed1 a b a1 b1"
    then obtain k where k: "rcvd a1 = rcvd a" "sent b1 = sent b @ take k pre1"
      using assms(5) by (auto simp: relay_refused_def prefix_made_def)
    then have "take k pre1 = pre1" using assms(6) by simp
    then show ?thesis using k by simp
  qed
  then obtain data1 d1 where 1: "rcvd a1 = rcvd a @ data1" "prefix d1 data1" "sent b1 = sent b @ pre1 @ d1" by blast
  obtain pre2 where pre2: "generate_dynamic_obfs obfs_key seed2 = Inr pre2" by (rule generate_spec)
  have "(\<exists>data2 d2. rcvd a' = rcvd a1 @ data2 \<and> prefix d2 data2 \<and> (res = Inr () \<and> \<not> brutal \<longrightarrow> d2 = data2) \<and>
        sent b' = sent b @ pre1 @ d1 @ pre2 @ map (obfs_byte 1) d2) \<or>
     (\<exists>k. res \<noteq> Inr () \<and> sent b' = sent b @ pre1 @ d1 @ take k pre2)"
    using rel(2) unfolding relayed_def
  proof (elim disjE conjE)
    assume "relay_started brutal 1 seed2 (obfs_byte 1) (res = Inr ()) a1 b1 a' b'"
    then show ?thesis using pre2 unfolding relay_started_def prefix_made_def 1(3)
      by (intro disjI1) (auto split: if_splits)
  next
    assume "relay_refused 1 seed2 a1 b1 a' b'" "\<not> res = Inr ()"
    then show ?thesis using pre2 unfolding relay_refused_def prefix_made_def 1(3) by auto
  qed
  with 1(1,2) pre2 show ?thesis by blast
qed

text \<open>A local stream that the kernel cannot splice.\<close>

definition unspliceable :: stream where
  "unspliceable = \<lparr>rd_evs = [RdErr InvalidInput, RdData [1, 2], RdData []], wr_evs = [], fl_evs = [FlOk], sd_evs = [FlOk],
     rcvd = [], sent = [], flushed = 0, shut = False\<rparr>"

definition patient :: stream where
  "patient = \<lparr>rd_evs = [RdData []], wr_evs = replicate 5 (WrAccept 16), fl_evs = [FlOk], sd_evs = [FlOk],
     rcvd = [], sent = [], flushed = 0, shut = False\<rparr>"

lemma start_client:
  "bidi_start 1 228 buf1 buf2 a b = Inr (case write_all tunnel_prefix b of (p, b') \<Rightarrow> (p, bidi_new buf1 buf2 a b'))"
  by (simp add: bidi_start_def seed_228 split: prod.splits)

lemma fallback_demo:
  "map_sum id (map_option (\<lambda>(res, a, b). (res, sent b)) \<circ> fst)
       (run_relay 2 4 False 1 228 228 (\<lambda>_. 0) 16 paths_answers {} 4 unspliceable patient)
   = Inr (Some (Inr (), tunnel_prefix @ tunnel_prefix @ map (obfs_byte 1) [1, 2]))"
proof -
  let ?g = "\<lambda>(res :: unit io_result, a :: stream, b). (res, sent b)"
  have forget: "map_sum id (map_option ?g \<circ> fst) r = map_sum id (map_option ?g) (map_sum id fst r)"
    for r :: "panic + ((unit io_result \<times> stream \<times> stream) option \<times> int set)"
    by (cases r) simp_all
  show ?thesis
    unfolding forget run_relay_made [OF paths_pipes] bidi_copy_def bidi_copy_buf_def start_client by code_simp
qed

lemma fallback_demo_splice:
  "map_sum id (map_option (\<lambda>(res, a, b). (res, sent b)) \<circ> fst)
       (bidi_zero_copy 2 4 False 1 228 16 paths_answers {} unspliceable patient) = Inr (Some (Inl InvalidInput, tunnel_prefix))"
proof -
  let ?g = "\<lambda>(res :: (nat \<times> nat) io_result, a :: stream, b). (res, sent b)"
  have forget: "map_sum id (map_option ?g \<circ> fst) r = map_sum id (map_option ?g) (map_sum id fst r)"
    for r :: "panic + (relay_io option \<times> int set)"
    by (cases r) simp_all
  show ?thesis
    unfolding forget bidi_zero_copy_made [OF paths_pipes] bidi_copy_buf_def start_client by code_simp
qed

theorem fallback_sends_prefix_twice_witness:
  "\<exists>a' b' fds' d1 d2. run_relay 2 4 False 1 228 228 (\<lambda>_. 0) 16 paths_answers {} 4 unspliceable patient = Inr (Some (Inr (), a', b'), fds') \<and>
     sent b' = tunnel_prefix @ tunnel_prefix @ map (obfs_byte 1) [1, 2] \<and>
     sent b' = tunnel_prefix @ d1 @ tunnel_prefix @ map (obfs_byte 1) d2"
proof -
  obtain a1 b1 fds1 where z: "bidi_zero_copy 2 4 False 1 228 16 paths_answers {} unspliceable patient
      = Inr (Some (Inl InvalidInput, a1, b1), fds1)" "sent b1 = tunnel_prefix"
    using fallback_demo_splice
    by (cases "bidi_zero_copy 2 4 False 1 228 16 paths_answers {} unspliceable patient") (auto simp: map_option_eq_Some)
  obtain a' b' fds' where r: "run_relay 2 4 False 1 228 228 (\<lambda>_. 0) 16 paths_answers {} 4 unspliceable patient
      = Inr (Some (Inr (), a', b'), fds')" "sent b' = tunnel_prefix @ tunnel_prefix @ map (obfs_byte 1) [1, 2]"
    using fallback_demo
    by (cases "run_relay 2 4 False 1 228 228 (\<lambda>_. 0) 16 paths_answers {} 4 unspliceable patient") (auto simp: map_option_eq_Some)
  have h: "honest unspliceable" "honest patient" "sent patient = []" by (simp_all add: honest_def unspliceable_def patient_def)
  have "length (sent patient) + length tunnel_prefix \<le> length (sent b1)" using z(2) h(3) by simp
  from fallback_sends_prefix_twice [OF z(1) r(1) h(1,2) seed_228 this]
  have "\<exists>d1 d2. sent b' = tunnel_prefix @ d1 @ tunnel_prefix @ map (obfs_byte 1) d2" using seed_228 h(3) by auto
  with r show ?thesis by blast
qed

end
