(* ===== verification/Transport.thy ===== *)
theory Transport
  imports Endpoint Relay_End
begin

text \<open>
  The relay over a transport, \<^verbatim>\<open>hoorayhug_core/src/tcp/transport.rs\<close>: the two handshakes and the relay
  between the streams they make. The handshakes are those of the crate kaminari: the record \<open>kaminari\<close> has them, for
  an acceptor or connector of any variant and for those of one variant, with the tests that the code uses.
\<close>

section \<open>Handshakes and relay\<close>

text \<open>
  \<^verbatim>\<open>try_join!\<close> of the two handshakes: one error wins; when both fail, the one that failed first.
\<close>

definition try_join :: "bool \<Rightarrow> 'a io_result \<Rightarrow> 'b io_result \<Rightarrow> ('a \<times> 'b) io_result" where
  "try_join accept_first x y =
     (case x of
        Inl e \<Rightarrow> (case y of Inl e' \<Rightarrow> Inl (if accept_first then e else e') | Inr _ \<Rightarrow> Inl e)
      | Inr a \<Rightarrow> (case y of Inl e' \<Rightarrow> Inl e' | Inr b \<Rightarrow> Inr (a, b)))"

text \<open>
  \<open>accepted\<close> and \<open>connected\<close> are what the handshakes on the two streams give. Beside the result, the two streams as
  the relay left them, if it ran.
\<close>

definition handshake_and_relay ::
  "nat \<Rightarrow> nat \<Rightarrow> bool \<Rightarrow> u8 \<Rightarrow> u64 \<Rightarrow> (stream \<Rightarrow> nat) \<Rightarrow> nat \<Rightarrow> bool \<Rightarrow> stream io_result \<Rightarrow> stream io_result
     \<Rightarrow> (unit io_result \<times> (stream \<times> stream) option) option checked" where
  "handshake_and_relay n fuel brutal mode seed clk buf_size accept_first accepted connected =
     (case try_join accept_first accepted connected of
        Inl e \<Rightarrow> Inr (Some (Inl e, None))
      | Inr (src, dst) \<Rightarrow>
          map_sum id (map_option (\<lambda>(r, a, b). (map_sum id (\<lambda>_. ()) r, Some (a, b))))
            (bidi_copy_buf n fuel brutal mode seed (mem_poll_read_buf mode clk) mem_poll_write_buf
               (mem_copy_buffer buf_size) (mem_copy_buffer buf_size) src dst))"

section \<open>The variants\<close>

record kaminari =
  km_accept :: "mix_accept \<Rightarrow> stream \<Rightarrow> stream io_result"
  km_connect :: "mix_connect \<Rightarrow> stream \<Rightarrow> stream io_result"
  km_accept_first :: bool
  km_as_plain_accept :: "mix_accept \<Rightarrow> plain_accept option"
  km_as_plain_connect :: "mix_connect \<Rightarrow> plain_connect option"
  km_plain_accept :: "plain_accept \<Rightarrow> stream \<Rightarrow> stream io_result"
  km_ws_accept :: "ws_accept \<Rightarrow> stream \<Rightarrow> stream io_result"
  km_tls_accept :: "tls_accept \<Rightarrow> stream \<Rightarrow> stream io_result"
  km_wss_accept :: "wss_accept \<Rightarrow> stream \<Rightarrow> stream io_result"
  km_plain_connect :: "plain_connect \<Rightarrow> stream \<Rightarrow> stream io_result"
  km_ws_connect :: "ws_connect \<Rightarrow> stream \<Rightarrow> stream io_result"
  km_tls_connect :: "tls_connect \<Rightarrow> stream \<Rightarrow> stream io_result"
  km_wss_connect :: "wss_connect \<Rightarrow> stream \<Rightarrow> stream io_result"

text \<open>
  \<^verbatim>\<open>run_relay\<close> of the transport; \<open>boost\<close> is the feature \<^verbatim>\<open>transport-boost\<close>, with which a plain acceptor or
  connector is taken out of the mixture before the relay is instantiated. The parameters of the relay come first.
\<close>

definition transport_run_relay ::
  "nat \<Rightarrow> nat \<Rightarrow> bool \<Rightarrow> u8 \<Rightarrow> u64 \<Rightarrow> (stream \<Rightarrow> nat) \<Rightarrow> nat \<Rightarrow> bool \<Rightarrow> kaminari \<Rightarrow> mix_accept \<Rightarrow> mix_connect \<Rightarrow> stream \<Rightarrow> stream
     \<Rightarrow> (unit io_result \<times> (stream \<times> stream) option) option checked" where
  "transport_run_relay n fuel brutal mode seed clk buf_size boost km ac cc src dst =
     (let hs_relay = (\<lambda>accept connect. handshake_and_relay n fuel brutal mode seed clk buf_size (km_accept_first km)
                        (accept src) (connect dst))
      in if boost
         then (case km_as_plain_accept km ac of
                 Some a \<Rightarrow>
                   (case cc of
                      PlainCc c \<Rightarrow> hs_relay (km_plain_accept km a) (km_plain_connect km c)
                    | WsCc c \<Rightarrow> hs_relay (km_plain_accept km a) (km_ws_connect km c)
                    | TlsCc c \<Rightarrow> hs_relay (km_plain_accept km a) (km_tls_connect km c)
                    | WssCc c \<Rightarrow> hs_relay (km_plain_accept km a) (km_wss_connect km c))
               | None \<Rightarrow>
                   (case km_as_plain_connect km cc of
                      Some c \<Rightarrow>
                        (case ac of
                           PlainAc a \<Rightarrow> hs_relay (km_plain_accept km a) (km_plain_connect km c)
                         | WsAc a \<Rightarrow> hs_relay (km_ws_accept km a) (km_plain_connect km c)
                         | TlsAc a \<Rightarrow> hs_relay (km_tls_accept km a) (km_plain_connect km c)
                         | WssAc a \<Rightarrow> hs_relay (km_wss_accept km a) (km_plain_connect km c))
                    | None \<Rightarrow> hs_relay (km_accept km ac) (km_connect km cc)))
         else hs_relay (km_accept km ac) (km_connect km cc))"

text \<open>
  What is relied on: the mixture behaves as the variant it is, and only the plain variant is taken for plain; and the
  handshakes give streams whose writers are honest, as those they are given.
\<close>

definition mix_dispatches :: "kaminari \<Rightarrow> bool" where
  "mix_dispatches km \<longleftrightarrow>
     (\<forall>a. km_accept km (PlainAc a) = km_plain_accept km a) \<and> (\<forall>a. km_accept km (WsAc a) = km_ws_accept km a) \<and>
     (\<forall>a. km_accept km (TlsAc a) = km_tls_accept km a) \<and> (\<forall>a. km_accept km (WssAc a) = km_wss_accept km a) \<and>
     (\<forall>c. km_connect km (PlainCc c) = km_plain_connect km c) \<and> (\<forall>c. km_connect km (WsCc c) = km_ws_connect km c) \<and>
     (\<forall>c. km_connect km (TlsCc c) = km_tls_connect km c) \<and> (\<forall>c. km_connect km (WssCc c) = km_wss_connect km c) \<and>
     (\<forall>m a. km_as_plain_accept km m = Some a \<longrightarrow> m = PlainAc a) \<and>
     (\<forall>m c. km_as_plain_connect km m = Some c \<longrightarrow> m = PlainCc c)"

definition honest_handshakes :: "kaminari \<Rightarrow> bool" where
  "honest_handshakes km \<longleftrightarrow>
     (\<forall>ac s t. km_accept km ac s = Inr t \<longrightarrow> honest s \<longrightarrow> honest t) \<and>
     (\<forall>cc s t. km_connect km cc s = Inr t \<longrightarrow> honest s \<longrightarrow> honest t)"

text \<open>The feature changes nothing but the code that is generated.\<close>

lemma mix_dispatchesD:
  assumes "mix_dispatches km"
  shows "km_accept km ac = (case ac of PlainAc a \<Rightarrow> km_plain_accept km a | WsAc a \<Rightarrow> km_ws_accept km a
      | TlsAc a \<Rightarrow> km_tls_accept km a | WssAc a \<Rightarrow> km_wss_accept km a)"
    and "km_connect km cc = (case cc of PlainCc c \<Rightarrow> km_plain_connect km c | WsCc c \<Rightarrow> km_ws_connect km c
      | TlsCc c \<Rightarrow> km_tls_connect km c | WssCc c \<Rightarrow> km_wss_connect km c)"
    and "km_as_plain_accept km ac = Some a \<Longrightarrow> ac = PlainAc a"
    and "km_as_plain_connect km cc = Some c \<Longrightarrow> cc = PlainCc c"
proof -
  note d = assms [unfolded mix_dispatches_def]
  show "km_accept km ac = (case ac of PlainAc a \<Rightarrow> km_plain_accept km a | WsAc a \<Rightarrow> km_ws_accept km a
      | TlsAc a \<Rightarrow> km_tls_accept km a | WssAc a \<Rightarrow> km_wss_accept km a)"
    by (cases ac) (simp_all only: mix_accept.case d)
  show "km_connect km cc = (case cc of PlainCc c \<Rightarrow> km_plain_connect km c | WsCc c \<Rightarrow> km_ws_connect km c
      | TlsCc c \<Rightarrow> km_tls_connect km c | WssCc c \<Rightarrow> km_wss_connect km c)"
    by (cases cc) (simp_all only: mix_connect.case d)
  show "km_as_plain_accept km ac = Some a \<Longrightarrow> ac = PlainAc a" "km_as_plain_connect km cc = Some c \<Longrightarrow> cc = PlainCc c"
    using d by blast+
qed

lemma transport_boost_same:
  assumes "mix_dispatches km"
  shows "transport_run_relay n fuel brutal mode seed clk buf_size boost km ac cc src dst =
    handshake_and_relay n fuel brutal mode seed clk buf_size (km_accept_first km) (km_accept km ac src) (km_connect km cc dst)"
proof (cases "km_as_plain_accept km ac")
  case (Some a)
  from mix_dispatchesD(3) [OF assms this] Some show ?thesis
    by (cases cc) (simp_all add: transport_run_relay_def mix_dispatchesD(1,2) [OF assms])
next
  case None
  show ?thesis
  proof (cases "km_as_plain_connect km cc")
    case (Some c)
    from mix_dispatchesD(4) [OF assms this] Some None show ?thesis
      by (cases ac) (simp_all add: transport_run_relay_def mix_dispatchesD(1,2) [OF assms])
  qed (simp add: transport_run_relay_def None)
qed

section \<open>What the relay does\<close>

lemma handshake_no_panic:
  "\<exists>z. handshake_and_relay n fuel brutal mode seed clk buf_size first x y = Inr z"
proof (cases "try_join first x y")
  case (Inl e)
  then show ?thesis by (simp add: handshake_and_relay_def)
next
  case (Inr p)
  obtain u v where p: "p = (u, v)" by (cases p)
  obtain z where "bidi_copy_buf n fuel brutal mode seed (mem_poll_read_buf mode clk) mem_poll_write_buf
      (mem_copy_buffer buf_size) (mem_copy_buffer buf_size) u v = Inr z"
    using bidi_copy_buf_no_panic by blast
  then show ?thesis by (simp add: handshake_and_relay_def Inr p)
qed

lemma transport_no_panic: "\<exists>z. transport_run_relay n fuel brutal mode seed clk buf_size boost km ac cc src dst = Inr z"
proof -
  define hs where "hs = (\<lambda>accept connect. handshake_and_relay n fuel brutal mode seed clk buf_size (km_accept_first km)
    (accept src) (connect dst))"
  have "\<exists>z. hs x y = Inr z" for x y unfolding hs_def by (rule handshake_no_panic)
  then show ?thesis
    unfolding transport_run_relay_def hs_def [symmetric] Let_def
    by (cases boost; cases "km_as_plain_accept km ac"; cases "km_as_plain_connect km cc"; cases ac; cases cc) simp_all
qed

lemma handshake_relayed:
  assumes "handshake_and_relay n fuel brutal mode seed clk buf_size first x y = Inr (Some (res, ab))"
    and "\<forall>s. x = Inr s \<longrightarrow> honest s" "\<forall>d. y = Inr d \<longrightarrow> honest d"
  shows "case try_join first x y of
      Inl e \<Rightarrow> res = Inl e \<and> ab = None
    | Inr (s, d) \<Rightarrow> \<exists>src' dst'. ab = Some (src', dst') \<and>
        relayed brutal mode seed (obfs_byte mode) (res = Inr ()) s d src' dst'"
proof (cases "try_join first x y")
  case (Inl e)
  then show ?thesis using assms(1) by (auto simp: handshake_and_relay_def)
next
  case (Inr sd)
  obtain s d where sd: "sd = (s, d)" by (cases sd)
  have "x = Inr s" "y = Inr d" using Inr sd by (auto simp: try_join_def split: sum.splits)
  then have h: "honest s" "honest d" using assms(2,3) by blast+
  obtain z where z: "bidi_copy_buf n fuel brutal mode seed (mem_poll_read_buf mode clk) mem_poll_write_buf
      (mem_copy_buffer buf_size) (mem_copy_buffer buf_size) s d = Inr z" using bidi_copy_buf_no_panic by blast
  then obtain r src' dst' where r: "z = Some (r, src', dst')" "res = map_sum id (\<lambda>_. ()) r" "ab = Some (src', dst')"
    using assms(1) Inr sd by (auto simp: handshake_and_relay_def)
  then have "relayed brutal mode seed (obfs_byte mode) (\<exists>mk. r = Inr mk) s d src' dst'"
    using bidi_copy_relayed [OF z [unfolded r(1), folded bidi_copy_def] h] by simp
  moreover have "(\<exists>mk. r = Inr mk) = (res = Inr ())" using r(2) by (cases r) simp_all
  ultimately show ?thesis using Inr sd r(3) by simp
qed

end
