(* ===== verification/Tcp.thy ===== *)
theory Tcp
  imports Endpoint Dns Transport
begin

text \<open>
  The tcp relay of \<^verbatim>\<open>hoorayhug_core/src/tcp\<close>: outbound connections and the listening socket
  (\<^verbatim>\<open>socket.rs\<close>), the pre-connect hook (\<^verbatim>\<open>hook.rs\<close>), one accepted connection
  (\<^verbatim>\<open>middle.rs\<close>) and the accept loop (\<^verbatim>\<open>mod.rs\<close>). System calls are
  answered by parameters that may depend on every call made before: a trace of calls is threaded through.
  The dynamic library of the hook and the handshakes of the transport are parameters.
\<close>

section \<open>Sockets\<close>

text \<open>\<^verbatim>\<open>keepalive::build\<close>: time and interval in seconds, and the retries as \<^verbatim>\<open>u32\<close>.\<close>

record tcp_keepalive =
  ka_time :: nat
  ka_interval :: nat
  ka_retries :: u32

definition keepalive_build :: "connect_opts \<Rightarrow> tcp_keepalive option" where
  "keepalive_build o1 =
     (if co_tcp_keepalive o1 = 0 then None
      else Some \<lparr>ka_time = co_tcp_keepalive o1, ka_interval = co_tcp_keepalive o1,
                 ka_retries = of_nat (co_tcp_keepalive_probe o1)\<rparr>)"

datatype sock_call =
    NewSocket sock_addr bool
  | SetNodelay bool
  | SetReuse bool
  | SetOnlyV6 bool
  | BindTo sock_addr
  | BindDevice string
  | SetKeepalive tcp_keepalive
  | Listen nat
  | FromStd
  | Connect sock_addr

type_synonym calls = "sock_call list"

text \<open>
  A sequence of calls. The flag says whether an error is ignored (\<^verbatim>\<open>let _ = ...\<close>) or returned
  (the question mark).
\<close>

fun run_calls ::
  "('c list \<Rightarrow> 'c \<Rightarrow> io_error option) \<Rightarrow> ('c \<times> bool) list \<Rightarrow> 'c list \<Rightarrow> io_error option \<times> 'c list" where
  "run_calls os [] tr = (None, tr)"
| "run_calls os ((c, ignore) # cs) tr =
     (case os tr c of
        None \<Rightarrow> run_calls os cs (tr @ [c])
      | Some e \<Rightarrow> if ignore then run_calls os cs (tr @ [c]) else (Some e, tr @ [c]))"

definition bind_calls :: "sock_addr \<Rightarrow> bind_opts \<Rightarrow> (sock_call \<times> bool) list" where
  "bind_calls laddr o1 =
     [(NewSocket laddr (bo_accept_mptcp o1), False)]
     @ (if is_ipv4 laddr then [] else [(SetOnlyV6 (bo_ipv6_only o1), False)])
     @ (case bo_bind_interface o1 of Some iface \<Rightarrow> [(BindDevice iface, False)] | None \<Rightarrow> [])
     @ [(SetReuse True, True), (BindTo laddr, False), (Listen 1024, False), (FromStd, False)]"

definition tcp_bind :: "(calls \<Rightarrow> sock_call \<Rightarrow> io_error option) \<Rightarrow> sock_addr \<Rightarrow> bind_opts \<Rightarrow> io_error option \<times> calls" where
  "tcp_bind os laddr o1 = run_calls os (bind_calls laddr o1) []"

definition connect_calls :: "sock_addr \<Rightarrow> connect_opts \<Rightarrow> (sock_call \<times> bool) list" where
  "connect_calls addr o1 =
     [(NewSocket addr (co_send_mptcp o1), False), (SetNodelay True, True), (SetReuse True, True)]
     @ (case co_bind_address o1 of Some a \<Rightarrow> [(BindTo a, False)] | None \<Rightarrow> [])
     @ (case co_bind_interface o1 of Some iface \<Rightarrow> [(BindDevice iface, False)] | None \<Rightarrow> [])
     @ (case keepalive_build o1 of Some kpa \<Rightarrow> [(SetKeepalive kpa, False)] | None \<Rightarrow> [])"

text \<open>
  The loop over the resolved addresses. \<open>net\<close> is the outcome of \<^verbatim>\<open>connect\<close> before the timer runs out:
  \<open>Pending\<close> is no answer until then.
\<close>

fun connect_loop ::
  "(calls \<Rightarrow> sock_call \<Rightarrow> io_error option) \<Rightarrow> (calls \<Rightarrow> sock_addr \<Rightarrow> unit io_result poll) \<Rightarrow> connect_opts
     \<Rightarrow> sock_addr list \<Rightarrow> io_error option \<Rightarrow> calls \<Rightarrow> sock_addr io_result poll \<times> calls" where
  "connect_loop os net o1 [] last_err tr =
     (Ready (Inl (case last_err of Some e \<Rightarrow> e | None \<Rightarrow> InvalidInput)), tr)"
| "connect_loop os net o1 (addr # addrs) last_err tr =
     (case run_calls os (connect_calls addr o1) tr of
        (Some e, tr') \<Rightarrow> (Ready (Inl e), tr')
      | (None, tr') \<Rightarrow>
          (case with_timeout (co_connect_timeout o1) False (net tr' addr) of
             Pending \<Rightarrow> (Pending, tr' @ [Connect addr])
           | Ready (Inr (Inr _)) \<Rightarrow> (Ready (Inr addr), tr' @ [Connect addr])
           | Ready (Inr (Inl e)) \<Rightarrow> connect_loop os net o1 addrs (Some e) (tr' @ [Connect addr])
           | Ready (Inl _) \<Rightarrow> connect_loop os net o1 addrs last_err (tr' @ [Connect addr])))"

text \<open>\<open>resolved\<close> is the outcome of \<^verbatim>\<open>resolve_addr\<close>.\<close>

definition tcp_connect ::
  "(calls \<Rightarrow> sock_call \<Rightarrow> io_error option) \<Rightarrow> (calls \<Rightarrow> sock_addr \<Rightarrow> unit io_result poll) \<Rightarrow> connect_opts
     \<Rightarrow> lookup_remote_addr io_result \<Rightarrow> sock_addr io_result poll \<times> calls" where
  "tcp_connect os net o1 resolved =
     (case resolved of
        Inl e \<Rightarrow> (Ready (Inl e), [])
      | Inr r \<Rightarrow> connect_loop os net o1 (iter_collect (iter_of r)) None [])"

section \<open>Choosing the peer\<close>

text \<open>
  \<^verbatim>\<open>extra[i]\<close>, which panics out of range.
\<close>

definition index :: "'a list \<Rightarrow> nat \<Rightarrow> 'a checked" where
  "index xs i = (if i < length xs then Inr (xs ! i) else Inl (Panic ''index out of bounds''))"

text \<open>
  The hook's library: its two functions, which it may not have. \<^verbatim>\<open>call_ffi\<close> panics when no library is loaded or
  the symbol is missing.
\<close>

record pre_conn_lib =
  sym_first_pkt_len :: "u32 option"
  sym_decide_remote_idx :: "(32 word \<Rightarrow> bytes \<Rightarrow> 32 word) option"

definition call_ffi :: "pre_conn_lib option \<Rightarrow> (pre_conn_lib \<Rightarrow> 'f option) \<Rightarrow> 'f checked" where
  "call_ffi dylib symbol =
     (case dylib of
        None \<Rightarrow> Inl (Panic ''library not loaded'')
      | Some l \<Rightarrow> (case symbol l of None \<Rightarrow> Inl (Panic ''symbol not found'') | Some fp \<Rightarrow> Inr fp))"

definition first_pkt_len :: "pre_conn_lib option \<Rightarrow> u32 checked" where
  "first_pkt_len dylib = call_ffi dylib sym_first_pkt_len"

definition decide_remote_idx :: "pre_conn_lib option \<Rightarrow> 32 word \<Rightarrow> bytes \<Rightarrow> (32 word) checked" where
  "decide_remote_idx dylib idx buf = bind_sum (call_ffi dylib sym_decide_remote_idx) (\<lambda>fp. Inr (fp idx buf))"

text \<open>The loop that waits for the first packet; each element is the answer of one \<^verbatim>\<open>peek\<close>.\<close>

fun hook_wait :: "nat \<Rightarrow> bytes io_result list \<Rightarrow> bytes io_result poll" where
  "hook_wait len [] = Pending"
| "hook_wait len (Inl e # rs) = Ready (Inl e)"
| "hook_wait len (Inr buf # rs) = (if length buf < len then hook_wait len rs else Ready (Inr buf))"

text \<open>
  \<^verbatim>\<open>pre_connect_hook\<close>. In its match the variable of the guard \<^verbatim>\<open>i <= idx\<close> is the library's answer
  itself, so the guard always holds. The error of the last branch is what the code means to build.
\<close>

definition pre_connect_hook ::
  "pre_conn_lib option \<Rightarrow> bytes io_result list \<Rightarrow> remote_addr \<Rightarrow> remote_addr list \<Rightarrow> remote_addr io_result poll checked" where
  "pre_connect_hook lib peeks raddr extra =
     (if lib = None then Inr (Ready (Inr raddr))
      else bind_sum (first_pkt_len lib) (\<lambda>len.
        case (if len \<noteq> 0 then hook_wait (unat len) peeks else Ready (Inr [])) of
          Pending \<Rightarrow> Inr Pending
        | Ready (Inl e) \<Rightarrow> Inr (Ready (Inl e))
        | Ready (Inr buf) \<Rightarrow>
            bind_sum (decide_remote_idx lib (of_nat (length extra)) buf) (\<lambda>idx.
              if idx = 0 then Inr (Ready (Inr raddr))
              else if 1 \<le> sint idx \<and> sint idx \<le> sint idx
              then bind_sum (index extra (nat (sint idx) - 1)) (\<lambda>r. Inr (Ready (Inr r)))
              else Inr (Ready (Inl (OtherError ''rejected by pre-connect hook''))))))"

definition token_peer :: "token option \<Rightarrow> remote_addr \<Rightarrow> remote_addr list \<Rightarrow> remote_addr checked" where
  "token_peer token raddr extra =
     (case token of
        None \<Rightarrow> Inr raddr
      | Some (Token idx) \<Rightarrow> if idx = 0 then Inr raddr else index extra (unat idx - 1))"

text \<open>
  The selection in \<^verbatim>\<open>connect_and_relay\<close>; \<open>feat_hook\<close> and \<open>feat_balance\<close> are the features. With both, the hook only
  accepts or denies.
\<close>

definition select_peer ::
  "bool \<Rightarrow> bool \<Rightarrow> pre_conn_lib option \<Rightarrow> bytes io_result list \<Rightarrow> nat \<Rightarrow> sock_addr io_result \<Rightarrow> balancer \<Rightarrow> remote_addr \<Rightarrow> remote_addr list
     \<Rightarrow> remote_addr io_result poll checked \<times> balancer" where
  "select_peer feat_hook feat_balance lib peeks buf_addr local_addr b raddr extra =
     (let denied = (if feat_hook then pre_connect_hook lib peeks raddr extra else Inr (Ready (Inr raddr))) in
      case denied of
        Inl p \<Rightarrow> (Inl p, b)
      | Inr (Ready (Inr r)) \<Rightarrow>
          (if feat_balance
           then case local_addr of
                  Inl e \<Rightarrow> (Inr (Ready (Inl e)), b)
                | Inr a \<Rightarrow>
                    (let (token, b') = balancer_next (buf_addr, sock_ip a) b
                     in (bind_sum (token_peer token raddr extra) (\<lambda>r. Inr (Ready (Inr r))), b'))
           else (Inr (Ready (Inr r)), b))
      | Inr r \<Rightarrow> (Inr r, b))"

section \<open>One connection\<close>

text \<open>
  What a connection's task meets: the features, the library of the hook and its peeks, the addresses of the
  sockets, the resolver, the calls and the network, the stream a connection gives, the proxy codec, and
  the runtime of the relay. \<open>ce_info\<close> says whether the log level evaluates the line with the peer addresses.
\<close>

record conn_env =
  ce_hook :: bool
  ce_balance :: bool
  ce_lib :: "pre_conn_lib option"
  ce_peeks :: "bytes io_result list"
  ce_buf_addr :: nat
  ce_local_addr :: "sock_addr io_result"
  ce_remote_addr :: "sock_addr io_result"
  ce_resolve :: "remote_addr \<Rightarrow> lookup_remote_addr io_result"
  ce_os :: "calls \<Rightarrow> sock_call \<Rightarrow> io_error option"
  ce_net :: "calls \<Rightarrow> sock_addr \<Rightarrow> unit io_result poll"
  ce_stream :: "sock_addr \<Rightarrow> stream"
  ce_info :: bool
  ce_parse :: "bytes \<Rightarrow> string + proxy_header \<times> bytes"
  ce_encode :: "proxy_header \<Rightarrow> string + bytes"
  ce_expired :: bool
  ce_polls :: nat
  ce_fuel :: nat
  ce_brutal :: bool
  ce_seeds :: "u64 \<times> u64"
  ce_clk :: "stream \<Rightarrow> nat"
  ce_pipe_size :: nat
  ce_pipes :: "pipe_answer \<times> pipe_answer"
  ce_fds :: "int set"
  ce_buf_size :: nat
  ce_boost :: bool
  ce_kaminari :: kaminari

definition relay_streams ::
  "conn_env \<Rightarrow> u8 \<Rightarrow> connect_opts \<Rightarrow> stream \<Rightarrow> stream \<Rightarrow> (unit io_result \<times> (stream \<times> stream) option) option checked" where
  "relay_streams env mode o1 src dst =
     (case co_transport o1 of
        Some (ac, cc) \<Rightarrow>
          transport_run_relay (ce_polls env) (ce_fuel env) (ce_brutal env) mode (fst (ce_seeds env)) (ce_clk env)
            (ce_buf_size env) (ce_boost env) (ce_kaminari env) ac cc src dst
      | None \<Rightarrow>
          map_sum id (map_option (\<lambda>(r, a, b). (r, Some (a, b))) \<circ> fst)
            (run_relay (ce_polls env) (ce_fuel env) (ce_brutal env) mode (fst (ce_seeds env)) (snd (ce_seeds env))
               (ce_clk env) (ce_pipe_size env) (ce_pipes env) (ce_fds env) (ce_buf_size env) src dst))"

definition info_error :: "conn_env \<Rightarrow> io_error option" where
  "info_error env =
     (if ce_info env
      then (case ce_local_addr env of
              Inl e \<Rightarrow> Some e
            | Inr _ \<Rightarrow> (case ce_remote_addr env of Inl e \<Rightarrow> Some e | Inr _ \<Rightarrow> None))
      else None)"

text \<open>
  How a connection ended: the peer, the relay's result, which the code ignores, and the streams. It is what the
  log and the sockets show.
\<close>

record conn_end =
  cn_peer :: sock_addr
  cn_result :: "unit io_result"
  cn_streams :: "(stream \<times> stream) option"

definition relay_to ::
  "conn_env \<Rightarrow> u8 \<Rightarrow> connect_opts \<Rightarrow> stream \<Rightarrow> sock_addr \<Rightarrow> (unit io_result poll \<times> conn_end option) checked" where
  "relay_to env mode o1 src peer =
     bind_sum
       (if proxy_enabled (co_proxy_opts o1)
        then handle_proxy (ce_parse env) (ce_encode env) (ce_local_addr env) (co_proxy_opts o1) (ce_expired env)
               src (ce_stream env peer)
        else Inr (Ready (Inr ()), src, ce_stream env peer))
       (\<lambda>(p, src', dst').
          case p of
            Ready (Inr _) \<Rightarrow>
              bind_sum (relay_streams env mode o1 src' dst')
                (\<lambda>res. Inr (case res of
                   None \<Rightarrow> (Pending, None)
                 | Some (r, ab) \<Rightarrow> (Ready (Inr ()), Some \<lparr>cn_peer = peer, cn_result = r, cn_streams = ab\<rparr>)))
          | _ \<Rightarrow> Inr (p, None))"

definition connect_and_relay ::
  "conn_env \<Rightarrow> u8 \<Rightarrow> connect_opts \<Rightarrow> balancer \<Rightarrow> remote_addr \<Rightarrow> remote_addr list \<Rightarrow> stream
     \<Rightarrow> (unit io_result poll \<times> conn_end option) checked \<times> balancer" where
  "connect_and_relay env mode o1 b raddr extra src =
     (case select_peer (ce_hook env) (ce_balance env) (ce_lib env) (ce_peeks env) (ce_buf_addr env)
             (ce_local_addr env) b raddr extra of
        (Inl p, b') \<Rightarrow> (Inl p, b')
      | (Inr Pending, b') \<Rightarrow> (Inr (Pending, None), b')
      | (Inr (Ready (Inl e)), b') \<Rightarrow> (Inr (Ready (Inl e), None), b')
      | (Inr (Ready (Inr peer)), b') \<Rightarrow>
          (case fst (tcp_connect (ce_os env) (ce_net env) o1 (ce_resolve env peer)) of
             Pending \<Rightarrow> (Inr (Pending, None), b')
           | Ready (Inl e) \<Rightarrow> (Inr (Ready (Inl e), None), b')
           | Ready (Inr addr) \<Rightarrow>
               (case info_error env of
                  Some e \<Rightarrow> (Inr (Ready (Inl e), None), b')
                | None \<Rightarrow> (relay_to env mode o1 src addr, b'))))"

section \<open>The accept loop\<close>

datatype accept_ev = Accepted nat sock_addr | AcceptErr io_error

definition mode_num :: "string \<Rightarrow> u8" where
  "mode_num obfs = (if obfs = ''client'' then 1 else if obfs = ''server'' then 2 else 0)"

text \<open>
  \<^verbatim>\<open>run_tcp\<close> after the listener is bound: each accepted connection becomes a task with the mode as its
  task local. \<open>ka\<close> is the answer to setting the keepalive on a connection.
\<close>

record task =
  tk_conn :: nat
  tk_addr :: sock_addr
  tk_mode :: u8

fun accept_loop ::
  "(nat \<Rightarrow> tcp_keepalive \<Rightarrow> io_error option) \<Rightarrow> connect_opts \<Rightarrow> accept_ev list \<Rightarrow> unit io_result poll \<times> task list" where
  "accept_loop ka o1 [] = (Pending, [])"
| "accept_loop ka o1 (AcceptErr e # evs) =
     (if e = ConnectionAborted then accept_loop ka o1 evs else (Ready (Inr ()), []))"
| "accept_loop ka o1 (Accepted c addr # evs) =
     (case (case keepalive_build o1 of Some kpa \<Rightarrow> ka c kpa | None \<Rightarrow> None) of
        Some e \<Rightarrow> (Ready (Inl e), [])
      | None \<Rightarrow>
          (let (r, tasks) = accept_loop ka o1 evs
           in (r, \<lparr>tk_conn = c, tk_addr = addr, tk_mode = mode_num (co_obfs o1)\<rparr> # tasks)))"

definition run_tcp ::
  "(calls \<Rightarrow> sock_call \<Rightarrow> io_error option) \<Rightarrow> (nat \<Rightarrow> tcp_keepalive \<Rightarrow> io_error option) \<Rightarrow> endpoint \<Rightarrow> accept_ev list
     \<Rightarrow> (unit io_result poll \<times> task list) checked" where
  "run_tcp os ka e evs =
     (case tcp_bind os (ep_laddr e) (ep_bind_opts e) of
        (Some err, _) \<Rightarrow> Inl (Panic ''[tcp]failed to bind'')
      | (None, _) \<Rightarrow> Inr (accept_loop ka (ep_conn_opts e) evs))"

section \<open>Lemmas\<close>

fun attempts :: "calls \<Rightarrow> sock_addr list" where
  "attempts [] = []"
| "attempts (Connect a # cs) = a # attempts cs"
| "attempts (_ # cs) = attempts cs"

lemma attempts_append [simp]: "attempts (xs @ ys) = attempts xs @ attempts ys"
  by (induction xs rule: attempts.induct) simp_all

lemma run_calls_attempts:
  "run_calls os cs tr = (r, tr') \<Longrightarrow> (\<forall>(c, i) \<in> set cs. attempts [c] = []) \<Longrightarrow> attempts tr' = attempts tr"
  by (induction cs arbitrary: tr) (auto split: option.splits if_splits)

lemma connect_calls_attempts: "\<forall>(c, i) \<in> set (connect_calls addr o1). attempts [c] = []"
  by (auto simp: connect_calls_def split: option.splits)

lemma connect_loop_spec:
  "connect_loop os net o1 addrs err tr = (res, tr') \<Longrightarrow>
     \<exists>pre post. addrs = pre @ post \<and> attempts tr' = attempts tr @ pre \<and>
       (\<forall>a. res = Ready (Inr a) \<longrightarrow> (\<exists>init. pre = init @ [a])) \<and> (res = Pending \<longrightarrow> co_connect_timeout o1 = 0)"
proof (induction addrs arbitrary: err tr)
  case Nil
  then show ?case by auto
next
  case (Cons addr addrs)
  obtain r tr1 where rc: "run_calls os (connect_calls addr o1) tr = (r, tr1)"
    by (cases "run_calls os (connect_calls addr o1) tr")
  note at = run_calls_attempts [OF rc connect_calls_attempts]
  show ?case
  proof (cases r)
    case (Some e)
    then show ?thesis using Cons.prems rc at by auto
  next
    case None
    let ?w = "with_timeout (co_connect_timeout o1) False (net tr1 addr)"
    consider (stop) "?w = Pending" | (ok) u where "?w = Ready (Inr (Inr u))"
      | (next1) err' where "connect_loop os net o1 addrs err' (tr1 @ [Connect addr]) = (res, tr')"
      using Cons.prems rc None by (cases ?w) (auto split: sum.splits)
    then show ?thesis
    proof cases
      case stop
      then have "co_connect_timeout o1 = 0" by (auto simp: with_timeout_def split: poll.splits if_splits)
      then show ?thesis using Cons.prems rc None stop at
        by - (rule exI [where x = "[addr]"], rule exI [where x = addrs], auto)
    next
      case ok
      then show ?thesis using Cons.prems rc None at
        by - (rule exI [where x = "[addr]"], rule exI [where x = addrs], auto)
    next
      case next1
      from Cons.IH [OF this] obtain pre post where p: "addrs = pre @ post"
        "attempts tr' = attempts (tr1 @ [Connect addr]) @ pre"
        "\<forall>a. res = Ready (Inr a) \<longrightarrow> (\<exists>init. pre = init @ [a])" "res = Pending \<longrightarrow> co_connect_timeout o1 = 0"
        by blast
      then show ?thesis using at
        by - (rule exI [where x = "addr # pre"], rule exI [where x = post], fastforce)
    qed
  qed
qed

lemma relay_streams_no_panic: "\<exists>z. relay_streams env mode o1 src dst = Inr z"
proof (cases "co_transport o1")
  case None
  obtain z where "run_relay (ce_polls env) (ce_fuel env) (ce_brutal env) mode (fst (ce_seeds env)) (snd (ce_seeds env))
      (ce_clk env) (ce_pipe_size env) (ce_pipes env) (ce_fds env) (ce_buf_size env) src dst = Inr z"
    using run_relay_no_panic by blast
  then show ?thesis using None by (simp add: relay_streams_def)
next
  case (Some t)
  obtain ac cc where t: "t = (ac, cc)" by (cases t)
  show ?thesis using transport_no_panic by (simp add: relay_streams_def Some t)
qed

lemma bind_sum_total: "\<exists>x. m = Inr x \<Longrightarrow> (\<And>x. \<exists>y. f x = Inr y) \<Longrightarrow> \<exists>y. bind_sum m f = Inr y"
  by auto

lemma relay_to_no_panic:
  assumes "send_proxy_version (co_proxy_opts o1) \<in> {1, 2}"
  shows "\<exists>r. relay_to env mode o1 src peer = Inr r"
proof -
  have hp: "\<exists>p s d. handle_proxy (ce_parse env) (ce_encode env) (ce_local_addr env) (co_proxy_opts o1) (ce_expired env) src
      (ce_stream env peer) = Inr (p, s, d)"
  proof (cases "handle_proxy (ce_parse env) (ce_encode env) (ce_local_addr env) (co_proxy_opts o1) (ce_expired env) src
      (ce_stream env peer)")
    case (Inl e)
    then show ?thesis using handle_proxy_panics assms by blast
  next
    case (Inr z)
    then show ?thesis by (cases z) auto
  qed
  show ?thesis unfolding relay_to_def
  proof (rule bind_sum_total)
    show "\<exists>z. (if proxy_enabled (co_proxy_opts o1)
        then handle_proxy (ce_parse env) (ce_encode env) (ce_local_addr env) (co_proxy_opts o1) (ce_expired env)
               src (ce_stream env peer)
        else Inr (Ready (Inr ()), src, ce_stream env peer)) = Inr z"
      using hp by auto
  next
    fix z :: "unit io_result poll \<times> stream \<times> stream"
    obtain p s d where z: "z = (p, s, d)" by (cases z)
    obtain x where "relay_streams env mode o1 s d = Inr x" using relay_streams_no_panic by blast
    then show "\<exists>y. (case z of (p, src', dst') \<Rightarrow>
          case p of
            Ready (Inr _) \<Rightarrow>
              bind_sum (relay_streams env mode o1 src' dst')
                (\<lambda>res. Inr (case res of
                   None \<Rightarrow> (Pending, None)
                 | Some (r, ab) \<Rightarrow> (Ready (Inr ()), Some \<lparr>cn_peer = peer, cn_result = r, cn_streams = ab\<rparr>)))
          | _ \<Rightarrow> Inr (p, None)) = Inr y"
      unfolding z by (cases p) (simp_all split: sum.split)
  qed
qed

lemma token_peer_ok:
  assumes "token = Some (Token t)" "unat t < max 1 (Suc (length extra))"
  shows "\<exists>r. token_peer token raddr extra = Inr r \<and> r \<in> set (raddr # extra)"
proof (cases "t = 0")
  case True
  then show ?thesis by (simp add: token_peer_def assms(1))
next
  case False
  then have "0 < unat t" by (simp add: unat_gt_0)
  then have "unat t - 1 < length extra" using assms(2) by linarith
  then show ?thesis using False by (simp add: token_peer_def assms(1) index_def)
qed

lemma select_peer_ok:
  assumes "balancer_inv b" "unat (balancer_total b) \<le> Suc (length extra)"
    and "select_peer False bal lib peeks buf_addr local_addr b raddr extra = (r, b')"
  shows "balancer_inv b' \<and> balancer_total b' = balancer_total b \<and>
    (\<exists>p. r = Inr p \<and> (\<forall>x. p = Ready (Inr x) \<longrightarrow> x \<in> set (raddr # extra)))"
proof (cases "bal \<and> (\<exists>a. local_addr = Inr a)")
  case False
  then show ?thesis using assms by (cases local_addr) (auto simp: select_peer_def split: if_splits)
next
  case True
  then obtain a where a: "local_addr = Inr a" by blast
  obtain token c where n: "balancer_next (buf_addr, sock_ip a) b = (token, c)"
    by (cases "balancer_next (buf_addr, sock_ip a) b")
  obtain t where t: "token = Some (Token t)" "unat t < peer_bound (balancer_total b)"
    using bal.next_token [OF assms(1) n] by blast
  then have "unat t < max 1 (Suc (length extra))" using assms(2) by (simp add: peer_bound_def)
  from token_peer_ok [OF t(1) this] obtain x where x: "token_peer token raddr extra = Inr x" "x \<in> set (raddr # extra)"
    by blast
  show ?thesis
    using bal.next_inv [OF assms(1) n] bal.next_total [OF assms(1) n] assms(3) True a n x
    by (auto simp: select_peer_def)
qed

text \<open>The connections of a listener, one after the other, sharing the balancer.\<close>

fun relay_all ::
  "u8 \<Rightarrow> connect_opts \<Rightarrow> remote_addr \<Rightarrow> remote_addr list \<Rightarrow> balancer \<Rightarrow> (conn_env \<times> stream) list
     \<Rightarrow> (unit io_result poll \<times> conn_end option) checked list \<times> balancer" where
  "relay_all mode o1 raddr extra b [] = ([], b)"
| "relay_all mode o1 raddr extra b ((env, src) # cs) =
     (let (r, b1) = connect_and_relay env mode o1 b raddr extra src;
          (rs, b2) = relay_all mode o1 raddr extra b1 cs
      in (r # rs, b2))"

lemma connect_and_relay_ok:
  assumes "balancer_inv b" "unat (balancer_total b) \<le> Suc (length extra)" "\<not> ce_hook env"
    and "send_proxy_version (co_proxy_opts o1) \<in> {1, 2}"
    and "connect_and_relay env mode o1 b raddr extra src = (r, b')"
  shows "balancer_inv b' \<and> balancer_total b' = balancer_total b \<and> (\<exists>x. r = Inr x)"
proof -
  obtain q c where s: "select_peer (ce_hook env) (ce_balance env) (ce_lib env) (ce_peeks env) (ce_buf_addr env)
      (ce_local_addr env) b raddr extra = (q, c)"
    by (cases "select_peer (ce_hook env) (ce_balance env) (ce_lib env) (ce_peeks env) (ce_buf_addr env)
      (ce_local_addr env) b raddr extra")
  have hook: "ce_hook env = False" using assms(3) by simp
  note ok = select_peer_ok [OF assms(1,2) s [unfolded hook]]
  obtain p where p: "q = Inr p" using ok by blast
  have r: "b' = c \<and> (\<exists>x. r = Inr x)"
    using assms(5) s p relay_to_no_panic [OF assms(4)]
    by (auto simp: connect_and_relay_def split: poll.splits sum.splits option.splits)
  with ok show ?thesis by blast
qed

lemma relay_all_ok:
  assumes "balancer_inv b" "unat (balancer_total b) \<le> Suc (length extra)" "\<forall>(env, src) \<in> set cs. \<not> ce_hook env"
    and "send_proxy_version (co_proxy_opts o1) \<in> {1, 2}" "r \<in> set (fst (relay_all mode o1 raddr extra b cs))"
  shows "\<exists>x. r = Inr x"
  using assms
proof (induction cs arbitrary: b)
  case (Cons c cs)
  obtain env src where c: "c = (env, src)" by (cases c)
  obtain q b1 where q: "connect_and_relay env mode o1 b raddr extra src = (q, b1)"
    by (cases "connect_and_relay env mode o1 b raddr extra src")
  have nh: "\<not> ce_hook env" using Cons.prems(3) c by auto
  note ok = connect_and_relay_ok [OF Cons.prems(1,2) nh Cons.prems(4) q]
  from Cons.prems(5) c q have "r = q \<or> r \<in> set (fst (relay_all mode o1 raddr extra b1 cs))"
    by (auto split: prod.splits)
  with ok Cons.IH [of b1] Cons.prems show ?case by auto
qed simp

section \<open>Properties\<close>

text \<open>
  A connection's task never panics: with a balancer built from at most as many weights as there are
  peers, a proxy version of 1 or 2 and no hook library, every connection in any sequence of connections,
  with any network, proxy codec, transport and timing, ends without reaching one of the code's panics.
\<close>
theorem connections_no_panic:
  assumes "unstable_sort srt" "balancer_new srt st ws = Inr b" "length ws \<le> Suc (length extra)"
    and "\<forall>(env, src) \<in> set cs. \<not> ce_hook env" "send_proxy_version (co_proxy_opts o1) \<in> {1, 2}"
  shows "\<forall>r \<in> set (fst (relay_all mode o1 raddr extra b cs)). \<exists>x. r = Inr x"
proof -
  have "balancer_inv b" "unat (balancer_total b) \<le> Suc (length extra)"
    using balancer_new_inv [OF assms(1,2)] assms(3) by auto
  then show ?thesis using relay_all_ok assms(4,5) by blast
qed

definition demo_opts :: "balancer \<Rightarrow> connect_opts" where
  "demo_opts b = \<lparr>co_send_mptcp = False, co_connect_timeout = 5, co_associate_timeout = 30, co_tcp_keepalive = 15,
     co_tcp_keepalive_probe = 3, co_bind_address = None, co_bind_interface = None, co_obfs = ''client'',
     co_proxy_opts = \<lparr>send_proxy = False, accept_proxy = False, send_proxy_version = 2, accept_proxy_timeout = 5\<rparr>,
     co_transport = None, co_balancer = b\<rparr>"

text \<open>Handshakes that do nothing.\<close>

definition demo_kaminari :: kaminari where
  "demo_kaminari = \<lparr>km_accept = (\<lambda>_. Inr), km_connect = (\<lambda>_. Inr), km_accept_first = True,
     km_as_plain_accept = (\<lambda>m. case m of PlainAc a \<Rightarrow> Some a | _ \<Rightarrow> None),
     km_as_plain_connect = (\<lambda>m. case m of PlainCc c \<Rightarrow> Some c | _ \<Rightarrow> None),
     km_plain_accept = (\<lambda>_. Inr), km_ws_accept = (\<lambda>_. Inr), km_tls_accept = (\<lambda>_. Inr), km_wss_accept = (\<lambda>_. Inr),
     km_plain_connect = (\<lambda>_. Inr), km_ws_connect = (\<lambda>_. Inr), km_tls_connect = (\<lambda>_. Inr), km_wss_connect = (\<lambda>_. Inr)\<rparr>"

lemma demo_kaminari_ok: "mix_dispatches demo_kaminari" "honest_handshakes demo_kaminari"
  by (auto simp: mix_dispatches_def honest_handshakes_def demo_kaminari_def split: mix_accept.splits mix_connect.splits)

definition demo_env :: conn_env where
  "demo_env = \<lparr>ce_hook = False, ce_balance = True, ce_lib = None, ce_peeks = [], ce_buf_addr = 0,
     ce_local_addr = Inr (SockV4 9 9), ce_remote_addr = Inr (SockV4 8 8), ce_resolve = (\<lambda>_. Inr (DoLookup [IpV4 1] 80)),
     ce_os = (\<lambda>_ _. None), ce_net = (\<lambda>_ _. Ready (Inr ())), ce_stream = (\<lambda>_. idle), ce_info = True,
     ce_parse = demo_parse, ce_encode = demo_encode, ce_expired = False, ce_polls = 2, ce_fuel = 4, ce_brutal = False,
     ce_seeds = (1, 2), ce_clk = (\<lambda>_. 0), ce_pipe_size = 16, ce_pipes = (PipeFds 3 4 None, PipeFds 5 6 None),
     ce_fds = {}, ce_buf_size = 4,
     ce_boost = True, ce_kaminari = demo_kaminari\<rparr>"

theorem connections_no_panic_witness:
  "\<exists>b. balancer_new (sort_key in_hash) StrategyRoundRobin [200, 100] = Inr b \<and>
     list_all (\<lambda>r. \<exists>x. r = Inr x)
       (fst (relay_all 0 (demo_opts b) (RemoteSock (SockV4 1 1)) [RemoteSock (SockV4 2 2)] b
          [(demo_env, idle), (demo_env, idle)]))"
proof -
  have "\<exists>b. balancer_new (sort_key in_hash) StrategyRoundRobin [200, 100] = Inr b"
    by (simp add: balancer_new_def rr_new_def)
  then obtain b where b: "balancer_new (sort_key in_hash) StrategyRoundRobin [200, 100] = Inr b" by blast
  have "\<forall>r \<in> set (fst (relay_all 0 (demo_opts b) (RemoteSock (SockV4 1 1)) [RemoteSock (SockV4 2 2)] b
        [(demo_env, idle), (demo_env, idle)])). \<exists>x. r = Inr x"
    by (rule connections_no_panic [OF stable_sort.unstable_sort_axioms b]) (simp_all add: demo_opts_def demo_env_def)
  with b show ?thesis unfolding list_all_iff by blast
qed

text \<open>
  What a connection leaves behind: the PROXY handler, if it is enabled, on the two streams first, and then the relay:
  plain with its fallback, or between the streams that the handshakes of a transport made.
\<close>

definition before_relay :: "conn_env \<Rightarrow> connect_opts \<Rightarrow> stream \<Rightarrow> stream \<Rightarrow> stream \<Rightarrow> stream \<Rightarrow> bool" where
  "before_relay env o1 src dst src0 dst0 \<longleftrightarrow>
     (if proxy_enabled (co_proxy_opts o1)
      then proxied (ce_parse env) (ce_encode env) (ce_local_addr env) (co_proxy_opts o1) src dst src0 dst0
      else src0 = src \<and> dst0 = dst)"

definition relay_done :: "conn_env \<Rightarrow> u8 \<Rightarrow> connect_opts \<Rightarrow> stream \<Rightarrow> stream \<Rightarrow> conn_end \<Rightarrow> bool" where
  "relay_done env mode o1 src dst c \<longleftrightarrow>
     (let rel = relayed (ce_brutal env) mode; seed = fst (ce_seeds env); ok = (cn_result c = Inr ());
          splice = bidi_zero_copy (ce_polls env) (ce_fuel env) (ce_brutal env) mode seed (ce_pipe_size env) (ce_pipes env)
                     (ce_fds env) src dst in
      case co_transport o1 of
        None \<Rightarrow>
          \<exists>src' dst'. cn_streams c = Some (src', dst') \<and>
            ((\<forall>src1 dst1 fds1. splice \<noteq> Inr (Some (Inl InvalidInput, src1, dst1), fds1)) \<and> rel seed (\<lambda>b. b) ok src dst src' dst' \<or>
             (\<exists>src1 dst1 fds1. splice = Inr (Some (Inl InvalidInput, src1, dst1), fds1) \<and> rel seed (\<lambda>b. b) False src dst src1 dst1 \<and>
                rel (snd (ce_seeds env)) (obfs_byte mode) ok src1 dst1 src' dst'))
      | Some (ac, cc) \<Rightarrow>
          (case try_join (km_accept_first (ce_kaminari env)) (km_accept (ce_kaminari env) ac src)
                  (km_connect (ce_kaminari env) cc dst) of
             Inl e \<Rightarrow> cn_result c = Inl e \<and> cn_streams c = None
           | Inr (s, d) \<Rightarrow>
               \<exists>src' dst'. cn_streams c = Some (src', dst') \<and> rel seed (obfs_byte mode) ok s d src' dst'))"

lemma before_relay_honest:
  "before_relay env o1 src dst src0 dst0 \<Longrightarrow> honest src \<Longrightarrow> honest dst \<Longrightarrow> honest src0 \<and> honest dst0"
  by (auto simp: before_relay_def proxied_def took_header_def sent_header_def rd_frame_honest split: if_splits)

lemma relay_to_steps:
  assumes "relay_to env mode o1 src peer = Inr (res, Some c)" "honest (ce_stream env peer)"
  obtains src0 dst0 where "cn_peer c = peer" "before_relay env o1 src (ce_stream env peer) src0 dst0"
    "relay_streams env mode o1 src0 dst0 = Inr (Some (cn_result c, cn_streams c))"
proof -
  let ?first = "if proxy_enabled (co_proxy_opts o1)
        then handle_proxy (ce_parse env) (ce_encode env) (ce_local_addr env) (co_proxy_opts o1) (ce_expired env)
               src (ce_stream env peer)
        else Inr (Ready (Inr ()), src, ce_stream env peer)"
  obtain p src0 dst0 where f: "?first = Inr (p, src0, dst0)"
    using assms(1) by (cases ?first) (auto simp: relay_to_def)
  then have p: "p = Ready (Inr ())" using assms(1) by (auto simp: relay_to_def split: poll.splits sum.splits)
  obtain x where x: "relay_streams env mode o1 src0 dst0 = Inr x" using relay_streams_no_panic by blast
  have "cn_peer c = peer \<and> x = Some (cn_result c, cn_streams c)"
    using assms(1) f p x by (auto simp: relay_to_def split: option.splits)
  moreover have "before_relay env o1 src (ce_stream env peer) src0 dst0"
    using f p handle_proxy_proxied [OF _ _ assms(2)] by (auto simp: before_relay_def split: if_splits)
  ultimately show thesis using that x by simp
qed

lemma relay_streams_done:
  assumes "relay_streams env mode o1 src dst = Inr (Some (cn_result c, cn_streams c))"
    and "honest src" "honest dst" "honest_handshakes (ce_kaminari env)" "mix_dispatches (ce_kaminari env)"
  shows "relay_done env mode o1 src dst c"
proof (cases "co_transport o1")
  case None
  obtain z fds where z: "run_relay (ce_polls env) (ce_fuel env) (ce_brutal env) mode (fst (ce_seeds env)) (snd (ce_seeds env)) (ce_clk env)
       (ce_pipe_size env) (ce_pipes env) (ce_fds env) (ce_buf_size env) src dst = Inr (z, fds)"
    using run_relay_no_panic by (metis surj_pair)
  then obtain src' dst' where "z = Some (cn_result c, src', dst')" "cn_streams c = Some (src', dst')"
    using assms(1) None by (auto simp: relay_streams_def)
  then show ?thesis using run_relay_relayed [OF z [unfolded \<open>z = _\<close>] assms(2,3)] None by (simp add: relay_done_def Let_def)
next
  case (Some t)
  obtain ac cc where t: "t = (ac, cc)" by (cases t)
  let ?km = "ce_kaminari env"
  have "\<forall>s. km_accept ?km ac src = Inr s \<longrightarrow> honest s" "\<forall>d. km_connect ?km cc dst = Inr d \<longrightarrow> honest d"
    using assms(2-4) unfolding honest_handshakes_def by blast+
  from handshake_relayed [OF _ this] show ?thesis
    using assms(1) Some t by (simp add: relay_streams_def relay_done_def transport_boost_same [OF assms(5)] Let_def)
qed

lemma tcp_connect_target:
  assumes "fst (tcp_connect os net o1 (Inr r)) = Ready (Inr a)"
  shows "a \<in> set (iter_collect (iter_of r))"
proof -
  obtain tr where tr: "tcp_connect os net o1 (Inr r) = (Ready (Inr a), tr)" using assms by (cases "tcp_connect os net o1 (Inr r)") auto
  obtain pre post where p: "iter_collect (iter_of r) = pre @ post" "\<exists>init. pre = init @ [a]"
    using connect_loop_spec [of os net o1 "iter_collect (iter_of r)" None "[]" "Ready (Inr a)" tr] tr
    by (auto simp: tcp_connect_def)
  then show ?thesis by auto
qed

lemma connection_steps:
  assumes "balancer_inv b" "unat (balancer_total b) \<le> Suc (length extra)" "\<not> ce_hook env"
    and "connect_and_relay env mode o1 b raddr extra src = (Inr (res, Some c), b')"
  obtains peer r addr where "peer \<in> set (raddr # extra)" "ce_resolve env peer = Inr r" "addr \<in> set (iter_collect (iter_of r))"
    "relay_to env mode o1 src addr = Inr (res, Some c)"
proof -
  obtain q b1 where q: "select_peer (ce_hook env) (ce_balance env) (ce_lib env) (ce_peeks env) (ce_buf_addr env)
      (ce_local_addr env) b raddr extra = (q, b1)" by (cases "select_peer (ce_hook env) (ce_balance env) (ce_lib env)
      (ce_peeks env) (ce_buf_addr env) (ce_local_addr env) b raddr extra")
  have hook: "ce_hook env = False" using assms(3) by simp
  note ok = select_peer_ok [OF assms(1,2) q [unfolded hook]]
  obtain peer where peer: "q = Inr (Ready (Inr peer))" "peer \<in> set (raddr # extra)"
    using ok assms(4) q by (auto simp: connect_and_relay_def split: poll.splits sum.splits)
  obtain addr where addr: "fst (tcp_connect (ce_os env) (ce_net env) o1 (ce_resolve env peer)) = Ready (Inr addr)"
    "relay_to env mode o1 src addr = Inr (res, Some c)"
    using assms(4) q peer(1) by (auto simp: connect_and_relay_def split: poll.splits sum.splits option.splits)
  obtain r where r: "ce_resolve env peer = Inr r" using addr(1) by (cases "ce_resolve env peer") (auto simp: tcp_connect_def)
  show thesis using that [OF peer(2) r tcp_connect_target [OF addr(1) [unfolded r]] addr(2)] .
qed

definition connection_relayed ::
  "conn_env \<Rightarrow> u8 \<Rightarrow> connect_opts \<Rightarrow> remote_addr \<Rightarrow> remote_addr list \<Rightarrow> stream \<Rightarrow> conn_end \<Rightarrow> bool" where
  "connection_relayed env mode o1 raddr extra src c \<longleftrightarrow>
     (\<exists>peer r src0 dst0. peer \<in> set (raddr # extra) \<and> ce_resolve env peer = Inr r \<and>
        cn_peer c \<in> set (iter_collect (iter_of r)) \<and>
        before_relay env o1 src (ce_stream env (cn_peer c)) src0 dst0 \<and> relay_done env mode o1 src0 dst0 c)"

definition conn_env_ok :: "conn_env \<Rightarrow> stream \<Rightarrow> bool" where
  "conn_env_ok env src \<longleftrightarrow> \<not> ce_hook env \<and> honest src \<and> (\<forall>addr. honest (ce_stream env addr)) \<and>
     honest_handshakes (ce_kaminari env) \<and> mix_dispatches (ce_kaminari env)"

lemma connection_relayedI:
  assumes "balancer_inv b" "unat (balancer_total b) \<le> Suc (length extra)" "conn_env_ok env src"
    and "connect_and_relay env mode o1 b raddr extra src = (Inr (res, Some c), b')"
  shows "connection_relayed env mode o1 raddr extra src c"
proof -
  note ok = assms(3) [unfolded conn_env_ok_def]
  obtain peer r addr where p: "peer \<in> set (raddr # extra)" "ce_resolve env peer = Inr r" "addr \<in> set (iter_collect (iter_of r))"
    "relay_to env mode o1 src addr = Inr (res, Some c)"
    using connection_steps [OF assms(1,2) _ assms(4)] ok by blast
  have h: "honest (ce_stream env addr)" using ok by blast
  obtain src0 dst0 where s: "cn_peer c = addr" "before_relay env o1 src (ce_stream env addr) src0 dst0"
    "relay_streams env mode o1 src0 dst0 = Inr (Some (cn_result c, cn_streams c))"
    using relay_to_steps [OF p(4) h] .
  have "honest src0" "honest dst0" using before_relay_honest [OF s(2) _ h] ok by blast+
  then have "relay_done env mode o1 src0 dst0 c" using relay_streams_done [OF s(3)] ok by blast
  with p(1-3) s(1,2) show ?thesis unfolding connection_relayed_def by blast
qed

text \<open>A connection ends well exactly when it was relayed, or else in an error, or it is still pending.\<close>

lemma relay_to_relayed:
  assumes "relay_to env mode o1 src peer = Inr (res, c)"
  shows "res = Ready (Inr ()) \<longleftrightarrow> c \<noteq> None"
proof -
  obtain p src' dst' where p: "(if proxy_enabled (co_proxy_opts o1)
        then handle_proxy (ce_parse env) (ce_encode env) (ce_local_addr env) (co_proxy_opts o1) (ce_expired env)
               src (ce_stream env peer)
        else Inr (Ready (Inr ()), src, ce_stream env peer)) = Inr (p, src', dst')"
    using assms unfolding relay_to_def bind_sum_Inr_iff by auto
  show ?thesis
  proof (cases "p = Ready (Inr ())")
    case True
    then obtain x where "relay_streams env mode o1 src' dst' = Inr x" using relay_streams_no_panic by blast
    then show ?thesis using assms True unfolding relay_to_def p by (cases x) auto
  next
    case False
    then show ?thesis using assms unfolding relay_to_def p by (auto split: poll.splits sum.splits)
  qed
qed

lemma connect_and_relay_relayed:
  assumes "connect_and_relay env mode o1 b raddr extra src = (Inr (res, c), b')"
  shows "res = Ready (Inr ()) \<longleftrightarrow> c \<noteq> None"
  using assms relay_to_relayed [of env mode o1 src _ res c]
  by (auto simp: connect_and_relay_def split: prod.splits poll.splits sum.splits option.splits)

lemma relay_all_relayed:
  assumes "balancer_inv b" "unat (balancer_total b) \<le> Suc (length extra)" "send_proxy_version (co_proxy_opts o1) \<in> {1, 2}"
    and "\<forall>(env, src) \<in> set cs. conn_env_ok env src"
  shows "list_all2 (\<lambda>(env, src) r. \<exists>res c. r = Inr (res, c) \<and> (res = Ready (Inr ()) \<longleftrightarrow> c \<noteq> None) \<and>
      (\<forall>ce. c = Some ce \<longrightarrow> connection_relayed env mode o1 raddr extra src ce)) cs (fst (relay_all mode o1 raddr extra b cs))"
  using assms
proof (induction cs arbitrary: b)
  case (Cons x cs)
  obtain env src where x: "x = (env, src)" by (cases x)
  obtain q b1 where q: "connect_and_relay env mode o1 b raddr extra src = (q, b1)"
    by (cases "connect_and_relay env mode o1 b raddr extra src")
  have ok: "conn_env_ok env src" "\<forall>(env, src) \<in> set cs. conn_env_ok env src" using Cons.prems(4) x by auto
  have nh: "\<not> ce_hook env" using ok(1) by (simp add: conn_env_ok_def)
  note step = connect_and_relay_ok [OF Cons.prems(1,2) nh Cons.prems(3) q]
  then obtain res c where r: "q = Inr (res, c)" by auto
  have "connection_relayed env mode o1 raddr extra src ce" if "c = Some ce" for ce
    using connection_relayedI [OF Cons.prems(1,2) ok(1)] q r that by blast
  moreover have "res = Ready (Inr ()) \<longleftrightarrow> c \<noteq> None" using connect_and_relay_relayed q r by blast
  moreover have "list_all2 (\<lambda>(env, src) r. \<exists>res c. r = Inr (res, c) \<and> (res = Ready (Inr ()) \<longleftrightarrow> c \<noteq> None) \<and>
      (\<forall>ce. c = Some ce \<longrightarrow> connection_relayed env mode o1 raddr extra src ce)) cs (fst (relay_all mode o1 raddr extra b1 cs))"
    using Cons.IH [OF _ _ Cons.prems(3) ok(2)] step Cons.prems(2) by simp
  moreover obtain rs b2 where "relay_all mode o1 raddr extra b1 cs = (rs, b2)" by (cases "relay_all mode o1 raddr extra b1 cs")
  ultimately show ?case using x q r by simp
qed simp


text \<open>A connection with a PROXY header on both sides: the client's bytes after it are relayed.\<close>

definition proxy_conn_opts :: connect_opts where
  "proxy_conn_opts = (demo_opts BalOff)\<lparr>co_proxy_opts := \<lparr>send_proxy = True, accept_proxy = True, send_proxy_version = 1,
     accept_proxy_timeout = 0\<rparr>\<rparr>"

definition proxy_client :: stream where
  "proxy_client = relay_a\<lparr>rd_evs := RdData [7, 8] # rd_evs relay_a\<rparr>"

definition proxy_peer :: stream where
  "proxy_peer = relay_b\<lparr>wr_evs := WrAccept 2 # wr_evs relay_b\<rparr>"

definition relay_env :: conn_env where
  "relay_env = demo_env\<lparr>ce_polls := 9, ce_fuel := 9, ce_seeds := (0, 0), ce_pipes := paths_answers, ce_stream := (\<lambda>_. proxy_peer)\<rparr>"

lemma proxy_demo:
  "handle_proxy demo_parse demo_encode l (co_proxy_opts proxy_conn_opts) False proxy_client proxy_peer
     = Inr (Ready (Inr ()), relay_a\<lparr>rcvd := [7, 8]\<rparr>, relay_b\<lparr>sent := [7, 8]\<rparr>)"
  by (simp add: handle_proxy_def accept_header_def proxy_conn_opts_def proxy_client_def proxy_peer_def relay_a_def relay_b_def
      tcp_peek.simps with_timeout_def demo_parse_def demo_header_def read_exact.simps poll_read_def send_header_def
      make_header_def make_header_v1_def demo_encode_def write_all.simps poll_write_def)

lemma proxy_relay_demo:
  "finished (map_sum id fst (bidi_zero_copy 9 9 False 0 0 16 paths_answers {} (relay_a\<lparr>rcvd := [7, 8]\<rparr>) (relay_b\<lparr>sent := [7, 8]\<rparr>)))
     (3, 2) [7, 8, 1, 2, 3]"
proof -
  have "finished (bidi_copy_buf 9 9 False 0 0 zc_poll_read_buf zc_poll_write_buf (copy_buffer_new paths_pipe1)
      (copy_buffer_new paths_pipe2) (relay_a\<lparr>rcvd := [7, 8]\<rparr>) (relay_b\<lparr>sent := [7, 8]\<rparr>)) (3, 2) [7, 8, 1, 2, 3]" by code_simp
  then show ?thesis by (simp add: bidi_zero_copy_made [OF paths_pipes])
qed


text \<open>
  Addresses that were all tried in vain: each was set up and its connect failed, with an error (kept in the last argument, in
  order) or by the timeout. The two traces are the calls made before and after.
\<close>

inductive all_failed ::
  "(calls \<Rightarrow> sock_call \<Rightarrow> io_error option) \<Rightarrow> (calls \<Rightarrow> sock_addr \<Rightarrow> unit io_result poll) \<Rightarrow> connect_opts
     \<Rightarrow> sock_addr list \<Rightarrow> calls \<Rightarrow> calls \<Rightarrow> io_error list \<Rightarrow> bool"
  for os net o1 where
  none_tried: "all_failed os net o1 [] tr tr []"
| refused: "run_calls os (connect_calls addr o1) tr = (None, tr1) \<Longrightarrow> net tr1 addr = Ready (Inl e)
    \<Longrightarrow> all_failed os net o1 addrs (tr1 @ [Connect addr]) tr' es \<Longrightarrow> all_failed os net o1 (addr # addrs) tr tr' (e # es)"
| timed_out: "run_calls os (connect_calls addr o1) tr = (None, tr1) \<Longrightarrow> net tr1 addr = Pending \<Longrightarrow> co_connect_timeout o1 \<noteq> 0
    \<Longrightarrow> all_failed os net o1 addrs (tr1 @ [Connect addr]) tr' es \<Longrightarrow> all_failed os net o1 (addr # addrs) tr tr' es"

inductive_cases all_failed_NilE: "all_failed os net o1 [] tr tr' es"

text \<open>How the first address ends the attempts that is not tried in vain, or that there is none.\<close>

definition connect_outcome ::
  "(calls \<Rightarrow> sock_call \<Rightarrow> io_error option) \<Rightarrow> (calls \<Rightarrow> sock_addr \<Rightarrow> unit io_result poll) \<Rightarrow> connect_opts
     \<Rightarrow> sock_addr list \<Rightarrow> calls \<Rightarrow> io_error option \<Rightarrow> sock_addr io_result poll \<Rightarrow> bool" where
  "connect_outcome os net o1 rest tr last_err res \<longleftrightarrow>
     (case rest of
        [] \<Rightarrow> res = Ready (Inl (case last_err of Some e \<Rightarrow> e | None \<Rightarrow> InvalidInput))
      | addr # _ \<Rightarrow>
          (case run_calls os (connect_calls addr o1) tr of
             (Some e, _) \<Rightarrow> res = Ready (Inl e)
           | (None, tr1) \<Rightarrow>
               res = Ready (Inr addr) \<and> net tr1 addr = Ready (Inr ()) \<or>
               res = Pending \<and> net tr1 addr = Pending \<and> co_connect_timeout o1 = 0))"

definition last_of :: "io_error option \<Rightarrow> io_error list \<Rightarrow> io_error option" where
  "last_of err es = (if es = [] then err else Some (last es))"

lemma connect_loop_failover:
  "connect_loop os net o1 addrs err tr = (res, tr') \<Longrightarrow>
     \<exists>pre rest tr1 es. addrs = pre @ rest \<and> all_failed os net o1 pre tr tr1 es \<and>
       connect_outcome os net o1 rest tr1 (last_of err es) res"
proof (induction addrs arbitrary: err tr)
  case Nil
  then have "connect_outcome os net o1 [] tr (last_of err []) res" by (simp add: connect_outcome_def last_of_def)
  then show ?case using none_tried by blast
next
  case (Cons addr addrs)
  obtain r tr1 where rc: "run_calls os (connect_calls addr o1) tr = (r, tr1)"
    by (cases "run_calls os (connect_calls addr o1) tr")
  have here: ?case if "connect_outcome os net o1 (addr # addrs) tr (last_of err []) res"
    using that none_tried by blast
  show ?case
  proof (cases r)
    case (Some e)
    then show ?thesis using Cons.prems rc by (intro here) (simp add: connect_outcome_def)
  next
    case None
    have further: ?thesis
      if step: "\<And>pre tr2 es. all_failed os net o1 pre (tr1 @ [Connect addr]) tr2 es \<Longrightarrow> all_failed os net o1 (addr # pre) tr tr2 (ks @ es)"
        and l: "connect_loop os net o1 addrs (last_of err ks) (tr1 @ [Connect addr]) = (res, tr')" for ks
    proof -
      from Cons.IH [OF l] obtain pre rest tr2 es where p: "addrs = pre @ rest" "all_failed os net o1 pre (tr1 @ [Connect addr]) tr2 es"
        "connect_outcome os net o1 rest tr2 (last_of (last_of err ks) es) res" by blast
      moreover have "last_of (last_of err ks) es = last_of err (ks @ es)" by (simp add: last_of_def)
      ultimately show ?thesis using step [OF p(2)] by - (rule exI [where x = "addr # pre"], auto)
    qed
    show ?thesis
    proof (cases "net tr1 addr")
      case Pending
      show ?thesis
      proof (cases "co_connect_timeout o1 = 0")
        case True
        then show ?thesis using Cons.prems rc None Pending by (intro here) (simp add: connect_outcome_def with_timeout_def)
      next
        case False
        show ?thesis by (rule further [of "[]"])
          (use Cons.prems rc None Pending False timed_out [where net = net, OF rc [unfolded None] Pending False] in \<open>simp_all add: with_timeout_def last_of_def\<close>)
      qed
    next
      case (Ready x)
      show ?thesis
      proof (cases x)
        case (Inl e)
        show ?thesis by (rule further [of "[e]"])
          (use Cons.prems rc None Ready Inl refused [where net = net, OF rc [unfolded None] Ready [unfolded Inl]] in \<open>simp_all add: with_timeout_def last_of_def\<close>)
      next
        case (Inr u)
        then show ?thesis using Cons.prems rc None Ready by (intro here) (simp add: connect_outcome_def with_timeout_def)
      qed
    qed
  qed
qed

text \<open>
  C21: Outbound connections: the resolved addresses are tried in their order, and all that come before the one that decides
  were tried in vain (their connect failed, or timed out). The first that connects is the result; one whose socket cannot be set up
  ends the attempts with that error, though others are left; and when all were in vain the result is the
  last connect error, or \<open>InvalidInput\<close> when there was none. Each is tried once at most; and past the resolving,
  which has no timeout, a call with a connect timeout returns.
\<close>
theorem tcp_connect_in_order:
  assumes "tcp_connect os net o1 (Inr r) = (res, tr)"
  shows "(\<exists>pre rest tr1 es. iter_collect (iter_of r) = pre @ rest \<and> all_failed os net o1 pre [] tr1 es \<and>
      connect_outcome os net o1 rest tr1 (if es = [] then None else Some (last es)) res) \<and>
    prefix (attempts tr) (iter_collect (iter_of r)) \<and>
    (\<forall>a. res = Ready (Inr a) \<longrightarrow> attempts tr \<noteq> [] \<and> last (attempts tr) = a) \<and>
    (co_connect_timeout o1 \<noteq> 0 \<longrightarrow> res \<noteq> Pending)"
proof -
  have l: "connect_loop os net o1 (iter_collect (iter_of r)) None [] = (res, tr)" using assms by (simp add: tcp_connect_def)
  obtain pre post where p: "iter_collect (iter_of r) = pre @ post" "attempts tr = pre"
    "\<forall>a. res = Ready (Inr a) \<longrightarrow> (\<exists>init. pre = init @ [a])" "res = Pending \<longrightarrow> co_connect_timeout o1 = 0"
    using connect_loop_spec [OF l] by auto
  then show ?thesis using connect_loop_failover [OF l] by (auto simp: prefix_def last_of_def)
qed

definition refusing_net :: "calls \<Rightarrow> sock_addr \<Rightarrow> unit io_result poll" where
  "refusing_net tr a = (if a = SockV4 2 80 then Ready (Inr ()) else if a = SockV4 1 80 then Pending else Ready (Inl TimedOut))"

theorem tcp_connect_in_order_witness:
  "\<exists>tr. tcp_connect (\<lambda>_ _. None) refusing_net (demo_opts BalOff) (Inr (DoLookup [IpV4 1, IpV4 2, IpV4 3] 80))
       = (Ready (Inr (SockV4 2 80)), tr) \<and> last (attempts tr) = SockV4 2 80 \<and>
     prefix (attempts tr) [SockV4 1 80, SockV4 2 80, SockV4 3 80]"
proof -
  let ?r = "DoLookup [IpV4 1, IpV4 2, IpV4 3] 80"
  obtain res tr where t: "tcp_connect (\<lambda>_ _. None) refusing_net (demo_opts BalOff) (Inr ?r) = (res, tr)"
    by (cases "tcp_connect (\<lambda>_ _. None) refusing_net (demo_opts BalOff) (Inr ?r)")
  then have "res = Ready (Inr (SockV4 2 80))"
    by (auto simp: tcp_connect_def iter_collect_DoLookup refusing_net_def with_timeout_def demo_opts_def
        connect_calls_def keepalive_build_def)
  with tcp_connect_in_order [OF t] t show ?thesis by (auto simp: iter_collect_DoLookup)
qed

text \<open>What ends the accept loop, and what it has spawned by then.\<close>

fun goes_on :: "(nat \<Rightarrow> tcp_keepalive \<Rightarrow> io_error option) \<Rightarrow> connect_opts \<Rightarrow> accept_ev \<Rightarrow> bool" where
  "goes_on ka o1 (AcceptErr e) = (e = ConnectionAborted)"
| "goes_on ka o1 (Accepted c addr) = (case keepalive_build o1 of Some kpa \<Rightarrow> ka c kpa = None | None \<Rightarrow> True)"

fun accepted_of :: "accept_ev list \<Rightarrow> (nat \<times> sock_addr) list" where
  "accepted_of [] = []"
| "accepted_of (Accepted c addr # evs) = (c, addr) # accepted_of evs"
| "accepted_of (AcceptErr e # evs) = accepted_of evs"

text \<open>
  The accept loop: it spawns one task, with the mode of the endpoint's \<open>obfs\<close> option, for each connection
  accepted before the first event it cannot survive, in order; an aborted connection is survived, any
  other accept error ends it normally, and a connection whose keepalive cannot be set ends it with that error.
\<close>
lemma accept_loop_exact:
  "accept_loop ka o1 evs =
     ((case dropWhile (goes_on ka o1) evs of
         [] \<Rightarrow> Pending
       | AcceptErr e # _ \<Rightarrow> Ready (Inr ())
       | Accepted c addr # _ \<Rightarrow>
           (case keepalive_build o1 of
              Some kpa \<Rightarrow> (case ka c kpa of Some e \<Rightarrow> Ready (Inl e) | None \<Rightarrow> Pending)
            | None \<Rightarrow> Pending)),
      map (\<lambda>(c, addr). \<lparr>tk_conn = c, tk_addr = addr, tk_mode = mode_num (co_obfs o1)\<rparr>)
        (accepted_of (takeWhile (goes_on ka o1) evs)))"
proof (induction evs)
  case (Cons ev evs)
  then show ?case
    by (cases ev) (auto split: option.splits)
qed simp

text \<open>The hook's answer: what becomes of each value of it, with the packet that the hook waits for at hand.\<close>

lemma pre_connect_hook_answer:
  assumes "(if len = 0 then Ready (Inr []) else hook_wait (unat len) peeks) = Ready (Inr buf)"
  shows "pre_connect_hook (Some \<lparr>sym_first_pkt_len = Some len, sym_decide_remote_idx = Some f\<rparr>) peeks raddr extra =
    (let k = sint (f (of_nat (length extra)) buf) in
     if k = 0 then Inr (Ready (Inr raddr))
     else if k < 0 then Inr (Ready (Inl (OtherError ''rejected by pre-connect hook'')))
     else if nat k \<le> length extra then Inr (Ready (Inr (extra ! (nat k - 1))))
     else Inl (Panic ''index out of bounds''))"
proof -
  have w: "(if len \<noteq> 0 then hook_wait (unat len) peeks else Ready (Inr [])) = Ready (Inr buf)"
    using assms by (cases "len = 0") simp_all
  let ?i = "f (of_nat (length extra)) buf"
  have z: "?i = 0 \<longleftrightarrow> sint ?i = 0" by (metis signed_0 signed_word_eqI)
  show ?thesis
    unfolding pre_connect_hook_def first_pkt_len_def decide_remote_idx_def call_ffi_def
    using z by (auto simp: w index_def Let_def)
qed

text \<open>
  C23: Selections out of range. With more weights than peers the round robin fails within one period: for 2 to 255 weights with
  the bounds of the fairness theorem, of which one behind the last peer is not 0, one of the first selections, as many as the
  weights sum to, panics. And the hook library's answer is not checked against the number of peers: with every library, an answer of
  0 is the default peer, one up to the number of the extra peers is that one, a negative one denies the
  connection, and one above the number panics.
\<close>
theorem peer_index_panics:
  assumes "2 \<le> length ws" "length ws \<le> 255" "length ws * sum_list (map unat ws) \<le> 32767"
    and "length extra < j" "j < length ws" "ws ! j \<noteq> 0"
  shows "(\<exists>rr n. balancer_new srt StrategyRoundRobin ws = Inr (BalRoundRobin rr) \<and> n < sum_list (map unat ws) \<and>
      fst (select_peer False True None peeks buf_addr (Inr local_addr) (BalRoundRobin (snd (rr_calls n rr))) raddr extra)
        = Inl (Panic ''index out of bounds'')) \<and>
    (\<forall>len f buf. (if len = 0 then Ready (Inr []) else hook_wait (unat len) peeks) = Ready (Inr buf) \<longrightarrow>
       pre_connect_hook (Some \<lparr>sym_first_pkt_len = Some len, sym_decide_remote_idx = Some f\<rparr>) peeks raddr extra =
         (let k = sint (f (of_nat (length extra)) buf) in
          if k = 0 then Inr (Ready (Inr raddr))
          else if k < 0 then Inr (Ready (Inl (OtherError ''rejected by pre-connect hook'')))
          else if nat k \<le> length extra then Inr (Ready (Inr (extra ! (nat k - 1))))
          else Inl (Panic ''index out of bounds'')))"
proof -
  let ?W = "sum_list (map unat ws)"
  have "unat (ws ! j) \<in> set (map unat ws)" using assms(5) by simp
  then have "unat (ws ! j) \<le> ?W" by (intro member_le_sum_list) simp_all
  moreover have j0: "0 < unat (ws ! j)" using assms(6) by (simp add: unat_gt_0)
  ultimately have pos: "0 < ?W" by simp
  obtain rr ts where rr: "rr_new ws = Inr rr" "rr_calls ?W rr = (ts, rr)"
    "\<forall>i<length ws. count_list ts (Some (Token (of_nat i))) = unat (ws ! i)"
    using rr_period [OF assms(1,2) pos assms(3)] by blast
  have "count_list ts (Some (Token (of_nat j))) \<noteq> 0" using rr(3) assms(5) j0 by simp
  then have "Some (Token (of_nat j)) \<in> set ts" by (metis count_notin)
  then obtain n where n: "n < length ts" "ts ! n = Some (Token (of_nat j))" by (metis in_set_conv_nth)
  have lt: "n < ?W" using n(1) rr_calls_length [of ?W rr] rr(2) by simp
  then have "fst (rr_next (snd (rr_calls n rr))) = Some (Token (of_nat j))" using rr_calls_nth [OF lt, of rr] rr(2) n(2) by simp
  then obtain rr' where nx: "rr_next (snd (rr_calls n rr)) = (Some (Token (of_nat j)), rr')"
    by (cases "rr_next (snd (rr_calls n rr))") simp
  have "unat (of_nat j :: u8) = j" using assms(2,5) by (simp add: unat_of_nat)
  moreover from this have "(of_nat j :: u8) \<noteq> 0" using assms(4) by auto
  ultimately have "token_peer (Some (Token (of_nat j))) raddr extra = Inl (Panic ''index out of bounds'')"
    using assms(4) by (simp add: token_peer_def index_def)
  then have "fst (select_peer False True None peeks buf_addr (Inr local_addr) (BalRoundRobin (snd (rr_calls n rr))) raddr extra)
      = Inl (Panic ''index out of bounds'')"
    using nx by (simp add: select_peer_def)
  then show ?thesis using rr(1) lt pre_connect_hook_answer [of _ peeks _ _ raddr extra]
    by (auto simp: balancer_new_def)
qed

theorem peer_index_panics_witness:
  "(\<exists>rr n. balancer_new (sort_key in_hash) StrategyRoundRobin [3, 1] = Inr (BalRoundRobin rr) \<and> n < 4 \<and>
     fst (select_peer False True None [] 0 (Inr (SockV4 9 9)) (BalRoundRobin (snd (rr_calls n rr))) (RemoteSock (SockV4 1 1)) [])
       = Inl (Panic ''index out of bounds'')) \<and>
   pre_connect_hook (Some \<lparr>sym_first_pkt_len = Some 0, sym_decide_remote_idx = Some (\<lambda>n _. n + 1)\<rparr>) [] (RemoteSock (SockV4 1 1)) []
     = Inl (Panic ''index out of bounds'')"
proof -
  have h: "2 \<le> length [3, 1 :: u8]" "length [3, 1 :: u8] \<le> 255" "length [3, 1 :: u8] * sum_list (map unat [3, 1 :: u8]) \<le> 32767"
    "length ([] :: remote_addr list) < 1" "1 < length [3, 1 :: u8]" "[3, 1 :: u8] ! 1 \<noteq> 0" by simp_all
  note p = peer_index_panics [OF h, where srt = "sort_key in_hash" and peeks = "[]" and buf_addr = 0 and local_addr = "SockV4 9 9"
      and raddr = "RemoteSock (SockV4 1 1)"]
  have "(if (0 :: u32) = 0 then Ready (Inr []) else hook_wait (unat (0 :: u32)) []) = Ready (Inr [])" by simp
  with p show ?thesis by fastforce
qed

end
