(* ===== verification/Udp.thy ===== *)
theory Udp
  imports Udp_Batch Sock_Map Tcp
begin

text \<open>
  The udp relay of \<^verbatim>\<open>hoorayhug_core/src/udp\<close>: its sockets (\<^verbatim>\<open>socket.rs\<close>), the task that receives from
  clients and forwards, the tasks that send answers back (\<^verbatim>\<open>middle.rs\<close>), and the loop around them
  (\<^verbatim>\<open>mod.rs\<close>). The tasks run interleaved: each operation below is what one task does between two points at
  which another can run. Beside the state a history is kept of what the network handed in and of what the
  operations handed to it.
\<close>

section \<open>Sockets\<close>

datatype udp_call =
    NewUdp sock_addr
  | UdpOnlyV6 bool
  | UdpBindDevice string
  | UdpReuse bool
  | UdpBindTo sock_addr
  | UdpFromStd

definition udp_bind_calls :: "sock_addr \<Rightarrow> bind_opts \<Rightarrow> (udp_call \<times> bool) list" where
  "udp_bind_calls laddr o1 =
     [(NewUdp laddr, False)]
     @ (if is_ipv4 laddr then [] else [(UdpOnlyV6 (bo_ipv6_only o1), False)])
     @ (case bo_bind_interface o1 of Some iface \<Rightarrow> [(UdpBindDevice iface, False)] | None \<Rightarrow> [])
     @ [(UdpReuse True, True), (UdpBindTo laddr, False), (UdpFromStd, False)]"

definition udp_bind ::
  "(udp_call list \<Rightarrow> udp_call \<Rightarrow> io_error option) \<Rightarrow> sock_addr \<Rightarrow> bind_opts \<Rightarrow> io_error option \<times> udp_call list" where
  "udp_bind os laddr o1 = run_calls os (udp_bind_calls laddr o1) []"

definition udp_associate_calls :: "sock_addr \<Rightarrow> connect_opts \<Rightarrow> (udp_call \<times> bool) list" where
  "udp_associate_calls raddr o1 =
     [(NewUdp raddr, False), (UdpReuse True, True)]
     @ (case co_bind_address o1 of Some a \<Rightarrow> [(UdpBindTo a, False)] | None \<Rightarrow> [])
     @ (case co_bind_interface o1 of Some iface \<Rightarrow> [(UdpBindDevice iface, False)] | None \<Rightarrow> [])
     @ [(UdpFromStd, False)]"

definition udp_associate ::
  "(udp_call list \<Rightarrow> udp_call \<Rightarrow> io_error option) \<Rightarrow> sock_addr \<Rightarrow> connect_opts \<Rightarrow> io_error option \<times> udp_call list" where
  "udp_associate os raddr o1 = run_calls os (udp_associate_calls raddr o1) []"

section \<open>The state\<close>

text \<open>
  What one call of \<^verbatim>\<open>recv_some\<close> and \<^verbatim>\<open>send_all\<close> meets, without and with batching.
\<close>

datatype recv_script = RecvOne "datagram sys_ev list" | RecvMany "datagram list sys_ev list"
datatype send_script = SendOne "unit sys_ev list" | SendMany "nat sys_ev list"

fun recv_some :: "recv_script \<Rightarrow> packet list \<Rightarrow> (nat io_result poll \<times> packet list) checked" where
  "recv_some (RecvOne es) pkts = common_recv_some es pkts"
| "recv_some (RecvMany es) pkts = linux_recv_some es pkts"

fun send_all :: "send_script \<Rightarrow> packet_ref list \<Rightarrow> unit io_result poll \<times> packet_ref list" where
  "send_all (SendOne es) ps = common_send_all es ps"
| "send_all (SendMany es) ps = linux_send_all es ps"

text \<open>
  Where the task that serves the clients is: receiving, at the head of the loop over the groups, between the
  making of a socket and its insertion (the client's address is kept, as \<^verbatim>\<open>find_or_insert\<close> does), or
  sending a group. A panic ends the program.
\<close>

datatype relay_pc =
    AtRecv
  | AtGroups sock_addr "packet list list"
  | AtInsert sock_addr sock_addr nat "packet list" "packet list list"
  | AtSend sock_addr nat "packet list" "packet list list"
  | Panicked panic

text \<open>A running \<^verbatim>\<open>send_back\<close>: the client's address, and its own registry.\<close>

record back_task =
  bt_laddr :: sock_addr
  bt_reg :: registry

text \<open>
  What a received datagram amounts to: its source, and its bytes cut to the buffer's size; and an item of the relay's
  work: an entry with the address it is to go to (none when the resolver gave none).
\<close>

type_synonym entry = "addr_store \<times> bytes"
type_synonym item = "addr_store \<times> entry"

definition datagram_entry :: "datagram \<Rightarrow> entry" where
  "datagram_entry d = (Some (snd d), take PACKET_SIZE (fst d))"

definition dest_of :: "lookup_remote_addr io_result \<Rightarrow> addr_store" where
  "dest_of resolved =
     (case resolved of
        Inl e \<Rightarrow> None
      | Inr l \<Rightarrow> (case iter_collect (iter_of l) of [] \<Rightarrow> None | a # as \<Rightarrow> Some a))"

text \<open>The datagrams that the network hands in when a receive succeeds; \<^verbatim>\<open>recvmmsg\<close> has room for 128.\<close>

fun delivered :: "recv_script \<Rightarrow> datagram list" where
  "delivered (RecvOne es) = (case fst (raw_await es) of Ready (Inr d) \<Rightarrow> [d] | _ \<Rightarrow> [])"
| "delivered (RecvMany es) = (case fst (raw_await es) of Ready (Inr ds) \<Rightarrow> take MAX_PACKETS ds | _ \<Rightarrow> [])"

text \<open>
  Sockets are numbered in the order they are made. The last six fields are history, which no operation reads: for which
  client a socket was made; the datagrams that came in from clients, as the network gave them and with the
  first address that the remote's name resolved to; the packets that left on the clients' sockets, as
  \<^verbatim>\<open>send_all\<close> handed them to the network; the items dropped by an error; the answers that came in on the
  clients' sockets; and the packets that left for the clients.
\<close>

record udp_state =
  us_pc :: relay_pc
  us_reg :: registry
  us_map :: "nat sockmap"
  us_tasks :: "nat \<rightharpoonup> back_task"
  us_next :: nat
  us_made :: "nat \<rightharpoonup> sock_addr"
  us_recv :: "item list"
  us_sent :: "(nat \<times> packet_ref) list"
  us_lost :: "item list"
  us_replies :: "(nat \<times> bytes) list"
  us_back :: "(nat \<times> packet_ref) list"

definition entry_of :: "packet \<Rightarrow> entry" where
  "entry_of p = (pkt_addr p, payload p)"

definition item_of :: "sock_addr \<Rightarrow> packet \<Rightarrow> item" where
  "item_of raddr p = (Some raddr, entry_of p)"

text \<open>What a packet that left on socket \<open>i\<close> amounts to: where it went, the client of the socket, its bytes.\<close>

fun wire_item :: "(nat \<rightharpoonup> sock_addr) \<Rightarrow> nat \<times> packet_ref \<Rightarrow> item" where
  "wire_item made (i, pr) = (pr_addr pr, made i, pr_buf pr)"

definition udp_start :: "bool \<Rightarrow> udp_state" where
  "udp_start batched =
     \<lparr>us_pc = AtRecv, us_reg = registry_new batched MAX_PACKETS, us_map = sockmap_new, us_tasks = (\<lambda>_. None), us_next = 0,
      us_made = (\<lambda>_. None), us_recv = [], us_sent = [], us_lost = [], us_replies = [], us_back = []\<rparr>"

text \<open>The relay starts by binding its socket, and panics when that fails.\<close>

definition run_udp ::
  "(udp_call list \<Rightarrow> udp_call \<Rightarrow> io_error option) \<Rightarrow> bool \<Rightarrow> endpoint \<Rightarrow> udp_state checked" where
  "run_udp os batched ep =
     (case fst (udp_bind os (ep_laddr ep) (ep_bind_opts ep)) of
        Some e \<Rightarrow> Inl (Panic ''[udp]failed to bind'')
      | None \<Rightarrow> Inr (udp_start batched))"

text \<open>The items of the batch that are still to be forwarded.\<close>

fun pending :: "relay_pc \<Rightarrow> item list" where
  "pending AtRecv = []"
| "pending (AtGroups raddr gs) = map (item_of raddr) (concat gs)"
| "pending (AtInsert raddr laddr i pkts gs) = map (item_of raddr) (pkts @ concat gs)"
| "pending (AtSend raddr i pkts gs) = map (item_of raddr) (pkts @ concat gs)"
| "pending (Panicked p) = []"

section \<open>The task that serves the clients\<close>

text \<open>
  An error ends \<^verbatim>\<open>associate_and_relay\<close>, and \<^verbatim>\<open>run_udp\<close> calls it again, with a new registry: what was
  pending is dropped.
\<close>

definition restart :: "bool \<Rightarrow> item list \<Rightarrow> udp_state \<Rightarrow> udp_state" where
  "restart batched dropped s =
     s\<lparr>us_pc := AtRecv, us_reg := registry_new batched MAX_PACKETS, us_lost := us_lost s @ dropped\<rparr>"

definition crash :: "panic \<Rightarrow> item list \<Rightarrow> udp_state \<Rightarrow> udp_state" where
  "crash p dropped s = s\<lparr>us_pc := Panicked p, us_lost := us_lost s @ dropped\<rparr>"

text \<open>
  Receiving a batch, resolving the remote address (\<open>resolved\<close> is the outcome of \<^verbatim>\<open>resolve_addr\<close>) and grouping.
  \<open>None\<close> is an operation that is not possible or whose await is not over.
\<close>

definition group_batch :: "registry \<Rightarrow> (registry \<times> packet list list) checked" where
  "group_batch r = bind_sum (group_by_addr r) (\<lambda>r'. bind_sum (group_iter r') (\<lambda>gs. Inr (r', gs)))"

definition after_recv :: "bool \<Rightarrow> lookup_remote_addr io_result \<Rightarrow> udp_state \<Rightarrow> udp_state" where
  "after_recv batched resolved s =
     (let got = take (unat (reg_cursor (us_reg s))) (reg_pkts (us_reg s)) in
      case resolved of
        Inl e \<Rightarrow> restart batched (map (\<lambda>p. (None, entry_of p)) got) s
      | Inr l \<Rightarrow>
          (case fst (iter_next (iter_of l)) of
             None \<Rightarrow> crash (Panic ''next().unwrap()'') (map (\<lambda>p. (None, entry_of p)) got) s
           | Some raddr \<Rightarrow>
               (case group_batch (us_reg s) of
                  Inl p \<Rightarrow> crash p (map (item_of raddr) got) s
                | Inr (r', gs) \<Rightarrow> s\<lparr>us_reg := r', us_pc := AtGroups raddr gs\<rparr>)))"

definition relay_recv ::
  "bool \<Rightarrow> recv_script \<Rightarrow> lookup_remote_addr io_result \<Rightarrow> udp_state \<Rightarrow> udp_state option" where
  "relay_recv batched script resolved s =
     (if us_pc s \<noteq> AtRecv then None
      else case batched_recv_on (recv_some script) (us_reg s) of
             Inl p \<Rightarrow> Some (crash p [] s)
           | Inr (Pending, r) \<Rightarrow> None
           | Inr (Ready (Inl e), r) \<Rightarrow> Some (restart batched [] s)
           | Inr (Ready (Inr _), r) \<Rightarrow>
               Some (after_recv batched resolved
                 (s\<lparr>us_reg := r,
                    us_recv := us_recv s @ map (\<lambda>d. (dest_of resolved, datagram_entry d)) (delivered script)\<rparr>)))"

text \<open>
  One turn of the loop over the groups, up to the insertion: \<^verbatim>\<open>find\<close>, and the closure that makes the
  socket and spawns its task.
\<close>

definition group_laddr :: "packet list \<Rightarrow> sock_addr checked" where
  "group_laddr pkts = bind_sum (index pkts 0) (\<lambda>p. store_into (pkt_addr p))"

definition make_association :: "bool \<Rightarrow> sock_addr \<Rightarrow> udp_state \<Rightarrow> udp_state" where
  "make_association batched laddr s =
     s\<lparr>us_next := us_next s + 1,
       us_made := (us_made s)(us_next s \<mapsto> laddr),
       us_tasks := (us_tasks s)(us_next s \<mapsto> \<lparr>bt_laddr = laddr, bt_reg = registry_new batched MAX_PACKETS\<rparr>)\<rparr>"

definition relay_group ::
  "bool \<Rightarrow> (udp_call list \<Rightarrow> udp_call \<Rightarrow> io_error option) \<Rightarrow> connect_opts \<Rightarrow> udp_state \<Rightarrow> udp_state option" where
  "relay_group batched os o1 s =
     (case us_pc s of
        AtGroups raddr [] \<Rightarrow> Some (s\<lparr>us_pc := AtRecv\<rparr>)
      | AtGroups raddr (pkts # gs) \<Rightarrow>
          Some (case group_laddr pkts of
             Inl p \<Rightarrow> crash p (pending (us_pc s)) s
           | Inr laddr \<Rightarrow>
               (case sm_find (us_map s) laddr of
                  Some i \<Rightarrow> s\<lparr>us_pc := AtSend raddr i pkts gs\<rparr>
                | None \<Rightarrow>
                    (case fst (udp_associate os raddr o1) of
                       Some e \<Rightarrow> restart batched (pending (us_pc s)) s
                     | None \<Rightarrow> (make_association batched laddr s)\<lparr>us_pc := AtInsert raddr laddr (us_next s) pkts gs\<rparr>)))
      | _ \<Rightarrow> None)"

definition relay_insert :: "udp_state \<Rightarrow> udp_state option" where
  "relay_insert s =
     (case us_pc s of
        AtInsert raddr laddr i pkts gs \<Rightarrow>
          Some (s\<lparr>us_map := sm_insert laddr i (us_map s), us_pc := AtSend raddr i pkts gs\<rparr>)
      | _ \<Rightarrow> None)"

definition relay_send :: "bool \<Rightarrow> send_script \<Rightarrow> udp_state \<Rightarrow> udp_state option" where
  "relay_send batched script s =
     (case us_pc s of
        AtSend raddr i pkts gs \<Rightarrow>
          (case send_all script (map (ref_with_addr (store_from raddr)) pkts) of
             (Pending, _) \<Rightarrow> None
           | (Ready res, out) \<Rightarrow>
               (let s' = s\<lparr>us_sent := us_sent s @ map (Pair i) out\<rparr>
                in Some (case res of
                     Inl e \<Rightarrow> restart batched (drop (length out) (pending (us_pc s))) s'
                   | Inr _ \<Rightarrow> s'\<lparr>us_pc := AtGroups raddr gs\<rparr>)))
      | _ \<Rightarrow> None)"

section \<open>The tasks that send answers back\<close>

text \<open>
  The end of \<^verbatim>\<open>send_back\<close>, on a timeout or an error.
\<close>

definition back_end :: "nat \<Rightarrow> back_task \<Rightarrow> udp_state \<Rightarrow> udp_state" where
  "back_end i t s = s\<lparr>us_map := sm_remove (bt_laddr t) (us_map s), us_tasks := (us_tasks s)(i := None)\<rparr>"

text \<open>One turn of its loop.\<close>

definition back_relay :: "send_script \<Rightarrow> nat \<Rightarrow> back_task \<Rightarrow> udp_state \<Rightarrow> udp_state option" where
  "back_relay sends i t s =
     (case registry_iter (bt_reg t) of
        Inl p \<Rightarrow> Some (crash p (pending (us_pc s)) s)
      | Inr pkts \<Rightarrow>
          (case send_all sends (map (ref_with_addr (store_from (bt_laddr t))) pkts) of
             (Pending, _) \<Rightarrow> None
           | (Ready res, out) \<Rightarrow>
               (let s' = s\<lparr>us_back := us_back s @ map (Pair i) out\<rparr>
                in Some (case res of
                     Inl e \<Rightarrow> back_end i t s'
                   | Inr _ \<Rightarrow> s'\<lparr>us_tasks := (us_tasks s)(i \<mapsto> t)\<rparr>))))"

definition back_step ::
  "connect_opts \<Rightarrow> nat \<Rightarrow> recv_script \<Rightarrow> bool \<Rightarrow> send_script \<Rightarrow> udp_state \<Rightarrow> udp_state option" where
  "back_step o1 i script expired sends s =
     (case us_tasks s i of
        None \<Rightarrow> None
      | Some t \<Rightarrow>
          (case batched_recv_on (recv_some script) (bt_reg t) of
             Inl p \<Rightarrow> Some (crash p (pending (us_pc s)) s)
           | Inr (res, r) \<Rightarrow>
               (case with_timeout (co_associate_timeout o1) expired res of
                  Pending \<Rightarrow> None
                | Ready (Inl e) \<Rightarrow> Some (back_end i t s)
                | Ready (Inr (Inl e)) \<Rightarrow> Some (back_end i t s)
                | Ready (Inr (Inr _)) \<Rightarrow>
                    back_relay sends i (t\<lparr>bt_reg := r\<rparr>)
                      (s\<lparr>us_replies := us_replies s @ map (\<lambda>d. (i, take PACKET_SIZE (fst d))) (delivered script)\<rparr>))))"

section \<open>Runs\<close>

text \<open>
  The events and the steps. Without \<open>multi\<close> the runtime has one thread: then nothing runs between the making of
  an association and its insertion, where the code does not wait. After a panic nothing runs.
\<close>

datatype udp_event =
    EvRecv recv_script "lookup_remote_addr io_result"
  | EvGroup "udp_call list \<Rightarrow> udp_call \<Rightarrow> io_error option"
  | EvInsert
  | EvSend send_script
  | EvBack nat recv_script bool send_script

fun inserting :: "relay_pc \<Rightarrow> bool" where
  "inserting (AtInsert raddr laddr i pkts gs) = True"
| "inserting _ = False"

fun halted :: "relay_pc \<Rightarrow> bool" where
  "halted (Panicked p) = True"
| "halted _ = False"

fun udp_event_step :: "bool \<Rightarrow> bool \<Rightarrow> connect_opts \<Rightarrow> udp_event \<Rightarrow> udp_state \<Rightarrow> udp_state option" where
  "udp_event_step multi batched o1 (EvRecv script resolved) s = relay_recv batched script resolved s"
| "udp_event_step multi batched o1 (EvGroup os) s = relay_group batched os o1 s"
| "udp_event_step multi batched o1 EvInsert s = relay_insert s"
| "udp_event_step multi batched o1 (EvSend script) s = relay_send batched script s"
| "udp_event_step multi batched o1 (EvBack i script expired sends) s =
     (if \<not> multi \<and> inserting (us_pc s) then None else back_step o1 i script expired sends s)"

definition udp_step :: "bool \<Rightarrow> bool \<Rightarrow> connect_opts \<Rightarrow> udp_event \<Rightarrow> udp_state \<Rightarrow> udp_state option" where
  "udp_step multi batched o1 ev s = (if halted (us_pc s) then None else udp_event_step multi batched o1 ev s)"

text \<open>\<^verbatim>\<open>recvmmsg\<close> returns at least one message, or an error.\<close>

fun script_ok :: "recv_script \<Rightarrow> bool" where
  "script_ok (RecvOne es) = True"
| "script_ok (RecvMany es) = (SysOk [] \<notin> set es)"

fun event_ok :: "udp_event \<Rightarrow> bool" where
  "event_ok (EvRecv script resolved) = script_ok script"
| "event_ok (EvBack i script expired sends) = script_ok script"
| "event_ok _ = True"

text \<open>A run along a list of events.\<close>

fun udp_run :: "bool \<Rightarrow> bool \<Rightarrow> connect_opts \<Rightarrow> udp_event list \<Rightarrow> udp_state \<Rightarrow> udp_state option" where
  "udp_run multi batched o1 [] s = Some s"
| "udp_run multi batched o1 (ev # evs) s =
     (case udp_step multi batched o1 ev s of None \<Rightarrow> None | Some s' \<Rightarrow> udp_run multi batched o1 evs s')"

inductive udp_steps :: "bool \<Rightarrow> bool \<Rightarrow> connect_opts \<Rightarrow> udp_state \<Rightarrow> udp_state \<Rightarrow> bool"
  for multi batched o1 s where
  udp_stays: "udp_steps multi batched o1 s s"
| udp_more: "udp_steps multi batched o1 s t \<Longrightarrow> event_ok ev \<Longrightarrow> udp_step multi batched o1 ev t = Some u
           \<Longrightarrow> udp_steps multi batched o1 s u"

end
