(* ===== verification/Udp_Relay.thy ===== *)
theory Udp_Relay
  imports Udp
begin

text \<open>
  What the udp relay guarantees, over every interleaving of its tasks: clients are kept apart and packets
  accounted for, a batch is delivered, which associations have a task, and which panic is left.
\<close>

section \<open>What a step keeps\<close>

definition reg_ok :: "registry \<Rightarrow> bool" where
  "reg_ok r \<longleftrightarrow> length (reg_pkts r) = MAX_PACKETS \<and> (\<forall>p \<in> set (reg_pkts r). length (pkt_buf p) = PACKET_SIZE)"

lemma reg_ok_new [simp]: "reg_ok (registry_new batched MAX_PACKETS)"
  by (simp add: reg_ok_def registry_new_def packet_new_def)

text \<open>
  What a successful receive leaves: at least one packet, at most as many as there are, each with the address and
  the bytes of a datagram.
\<close>

definition got_pkts :: "registry \<Rightarrow> packet list" where
  "got_pkts r = take (unat (reg_cursor r)) (reg_pkts r)"

lemma raw_await_SysOk: "raw_await es = (Ready (Inr x), es') \<Longrightarrow> SysOk x \<in> set es"
  by (induction es rule: raw_await.induct) (auto split: if_splits)

lemma fill_packets_ok:
  assumes "\<forall>p \<in> set ps. length (pkt_buf p) = PACKET_SIZE" "q \<in> set (map2 fill_packet ds ps)"
  shows "length (pkt_buf q) = PACKET_SIZE \<and> pkt_addr q \<noteq> None"
proof -
  obtain d p where dp: "(d, p) \<in> set (zip ds ps)" "q = fill_packet d p" using assms(2) by auto
  then have "length (pkt_buf p) = PACKET_SIZE" using assms(1) by (meson set_zip_rightD)
  then show ?thesis using dp(2) fill_packet_payload by (auto simp: fill_packet_def Let_def)
qed

lemma recv_some_spec:
  assumes "recv_some script pkts = Inr (res, pkts')" "script_ok script" "pkts \<noteq> []"
    and "\<forall>p \<in> set pkts. length (pkt_buf p) = PACKET_SIZE"
  shows "length pkts' = length pkts \<and> (\<forall>p \<in> set pkts'. length (pkt_buf p) = PACKET_SIZE) \<and>
    (\<forall>n. res = Ready (Inr n) \<longrightarrow> 0 < n \<and> n \<le> length pkts \<and> (\<forall>p \<in> set (take n pkts'). pkt_addr p \<noteq> None))"
proof (cases script)
  case (RecvOne es)
  obtain p ps where c: "pkts = p # ps" using assms(3) by (cases pkts) auto
  obtain q es' where q: "raw_await es = (q, es')" by (cases "raw_await es")
  show ?thesis
  proof (cases "\<exists>d. q = Ready (Inr d)")
    case True
    then obtain d where d: "q = Ready (Inr d)" by blast
    then have e: "res = Ready (Inr 1)" "pkts' = fill_packet d p # ps"
      using assms(1) RecvOne c q by (simp_all add: common_recv_some_def)
    then show ?thesis using assms(4) c fill_packet_payload(2) [of p d]
      by (auto simp: fill_packet_def Let_def)
  next
    case False
    then have "pkts' = pkts" "\<forall>n. res \<noteq> Ready (Inr n)"
      using assms(1) RecvOne c q by (auto simp: common_recv_some_def split: poll.splits sum.splits)
    then show ?thesis using assms(4) by simp
  qed
next
  case (RecvMany es)
  obtain q es' where q: "raw_await es = (q, es')" by (cases "raw_await es")
  show ?thesis
  proof (cases "\<exists>d. q = Ready (Inr d)")
    case True
    then obtain ds where d: "q = Ready (Inr ds)" by blast
    let ?n = "min (length ds) (length pkts)"
    have e: "res = Ready (Inr ?n)" "pkts' = map2 fill_packet (take ?n ds) (take ?n pkts) @ drop ?n pkts"
      using assms(1) RecvMany q d by (simp_all add: linux_recv_some_eq Let_def)
    have "ds \<noteq> []" using raw_await_SysOk [OF q [unfolded d]] assms(2) RecvMany by auto
    then have n: "0 < ?n" "?n \<le> length pkts" using assms(3) by (cases ds; cases pkts; simp)+
    have f: "length (pkt_buf q) = PACKET_SIZE \<and> pkt_addr q \<noteq> None"
      if "q \<in> set (map2 fill_packet (take ?n ds) (take ?n pkts))" for q
      using fill_packets_ok [OF _ that] assms(4) by (meson in_set_takeD)
    have "take ?n pkts' = map2 fill_packet (take ?n ds) (take ?n pkts)" unfolding e(2) by simp
    moreover have "\<forall>p \<in> set pkts'. length (pkt_buf p) = PACKET_SIZE"
      using f assms(4) unfolding e(2) by (auto dest: in_set_dropD)
    moreover have "length pkts' = length pkts" unfolding e(2) by simp
    ultimately show ?thesis using f n e(1) by auto
  next
    case False
    then have "pkts' = pkts" "\<forall>n. res \<noteq> Ready (Inr n)"
      using assms(1) RecvMany q by (auto simp: linux_recv_some_eq split: poll.splits sum.splits)
    then show ?thesis using assms(4) by simp
  qed
qed

lemma entries_filled:
  "length ds = length ps \<Longrightarrow> \<forall>p \<in> set ps. length (pkt_buf p) = PACKET_SIZE \<Longrightarrow>
     map entry_of (map2 fill_packet ds ps) = map datagram_entry ds"
proof (induction ds ps rule: list_induct2)
  case (Cons d ds p ps)
  then have "entry_of (fill_packet d p) = datagram_entry d"
    using fill_packet_payload(1) [of p d] by (simp add: entry_of_def datagram_entry_def fill_packet_def Let_def)
  then show ?case using Cons by simp
qed simp

text \<open>What is received is what the network handed in.\<close>

lemma recv_some_entries:
  assumes "recv_some script pkts = Inr (Ready (Inr n), pkts')" "length pkts = MAX_PACKETS"
    and "\<forall>p \<in> set pkts. length (pkt_buf p) = PACKET_SIZE"
  shows "map entry_of (take n pkts') = map datagram_entry (delivered script)"
proof (cases script)
  case (RecvOne es)
  have "pkts \<noteq> []" using assms(2) by (auto simp: MAX_PACKETS_def)
  then obtain p ps where c: "pkts = p # ps" by (cases pkts) auto
  obtain d where d: "fst (raw_await es) = Ready (Inr d)" "n = 1" "pkts' = fill_packet d p # ps"
    using assms(1) RecvOne c by (auto simp: common_recv_some_def split: poll.splits sum.splits)
  then show ?thesis using entries_filled [of "[d]" "[p]"] assms(3) c RecvOne by simp
next
  case (RecvMany es)
  obtain ds where d: "fst (raw_await es) = Ready (Inr ds)" "n = min (length ds) MAX_PACKETS"
    "pkts' = map2 fill_packet (take n ds) (take n pkts) @ drop n pkts"
    using assms(1,2) RecvMany by (auto simp: linux_recv_some_eq Let_def split: poll.splits sum.splits)
  have l: "length (take n ds) = length (take n pkts)" using d(2) assms(2) by simp
  then have "take n pkts' = map2 fill_packet (take n ds) (take n pkts)" using d(2) by (simp add: d(3))
  moreover have "map entry_of (map2 fill_packet (take n ds) (take n pkts)) = map datagram_entry (take n ds)"
    by (rule entries_filled [OF l]) (auto dest: in_set_takeD intro: assms(3) [rule_format])
  moreover have "take n ds = take MAX_PACKETS ds" using d(2) by (simp add: min_def)
  ultimately show ?thesis using RecvMany d(1) by simp
qed

lemma recv_some_ready:
  assumes "recv_some script pkts = Inr (res, pkts')" "delivered script \<noteq> []"
  shows "\<exists>n. res = Ready (Inr n)"
  using assms
  by (cases script; cases pkts)
    (auto simp: common_recv_some_def linux_recv_some_eq Let_def split: poll.splits sum.splits)

lemma batched_recv_on_spec:
  assumes "batched_recv_on (recv_some script) r = Inr (res, r')" "script_ok script" "reg_ok r"
  shows "reg_ok r'"
    and "res = Ready (Inr ()) \<Longrightarrow> 0 < unat (reg_cursor r') \<and> unat (reg_cursor r') \<le> length (reg_pkts r') \<and>
      (\<forall>p \<in> set (got_pkts r'). pkt_addr p \<noteq> None)"
proof -
  have ne: "reg_pkts r \<noteq> []" and b: "\<forall>p \<in> set (reg_pkts r). length (pkt_buf p) = PACKET_SIZE" and l: "length (reg_pkts r) = 128"
    using assms(3) by (auto simp: reg_ok_def MAX_PACKETS_def)
  obtain res0 pkts where p: "recv_some script (reg_pkts r) = Inr (res0, pkts)"
    using assms(1) by (auto simp: batched_recv_on_def bind_sum_Inr_iff)
  note sp = recv_some_spec [OF p assms(2) ne b]
  have r': "reg_pkts r' = pkts"
    using assms(1) p by (auto simp: batched_recv_on_def split: poll.splits sum.splits)
  then show "reg_ok r'" using sp l by (simp add: reg_ok_def MAX_PACKETS_def)
  assume "res = Ready (Inr ())"
  then obtain n where n: "res0 = Ready (Inr n)" "reg_cursor r' = of_nat n"
    using assms(1) p by (auto simp: batched_recv_on_def split: poll.splits sum.splits)
  moreover from this sp l have "n \<le> 128" by simp
  then have "unat (of_nat n :: u16) = n" by (simp add: unat_of_nat)
  ultimately show "0 < unat (reg_cursor r') \<and> unat (reg_cursor r') \<le> length (reg_pkts r') \<and>
      (\<forall>p \<in> set (got_pkts r'). pkt_addr p \<noteq> None)"
    using sp r' by (simp add: got_pkts_def)
qed

lemma batched_recv_on_entries:
  assumes "batched_recv_on (recv_some script) r = Inr (Ready (Inr ()), r')" "reg_ok r"
  shows "map entry_of (got_pkts r') = map datagram_entry (delivered script)"
proof -
  have l: "length (reg_pkts r) = MAX_PACKETS" and b: "\<forall>p \<in> set (reg_pkts r). length (pkt_buf p) = PACKET_SIZE"
    using assms(2) by (simp_all add: reg_ok_def)
  obtain res0 pkts where p0: "recv_some script (reg_pkts r) = Inr (res0, pkts)"
    using assms(1) by (auto simp: batched_recv_on_def bind_sum_Inr_iff)
  then obtain n where p: "recv_some script (reg_pkts r) = Inr (Ready (Inr n), pkts)" "reg_pkts r' = pkts" "reg_cursor r' = of_nat n"
    using assms(1) by (auto simp: batched_recv_on_def split: poll.splits sum.splits)
  have "n \<le> 128"
    using p(1) l by (cases script; cases "reg_pkts r")
      (auto simp: common_recv_some_def linux_recv_some_eq MAX_PACKETS_def Let_def split: poll.splits sum.splits)
  then have "unat (of_nat n :: u16) = n" by (simp add: unat_of_nat)
  then show ?thesis using recv_some_entries [OF p(1) l b] p(2,3) by (simp add: got_pkts_def)
qed

lemma batched_recv_on_ready:
  assumes "batched_recv_on (recv_some script) r = Inr (res, r')" "delivered script \<noteq> []"
  shows "res = Ready (Inr ())"
proof -
  obtain res0 pkts where p: "recv_some script (reg_pkts r) = Inr (res0, pkts)"
    using assms(1) by (auto simp: batched_recv_on_def bind_sum_Inr_iff)
  then show ?thesis using recv_some_ready [OF p assms(2)] assms(1) by (auto simp: batched_recv_on_def)
qed

lemma dest_of_Inr: "dest_of (Inr l) = fst (iter_next (iter_of l))"
  by (cases "iter_next (iter_of l)") (simp add: dest_of_def iter_collect.simps split: option.split)

lemma dest_of_Inl: "dest_of (Inl e) = None"
  by (simp add: dest_of_def)

definition group_ok :: "packet list \<Rightarrow> bool" where
  "group_ok pkts \<longleftrightarrow> uniform pkt_addr pkts \<and> pkt_addr (hd pkts) \<noteq> None"

lemma group_batch_spec:
  assumes "reg_ok r" "0 < unat (reg_cursor r)" "unat (reg_cursor r) \<le> length (reg_pkts r)"
    and "\<forall>p \<in> set (got_pkts r). pkt_addr p \<noteq> None"
  shows "\<exists>r' gs. group_batch r = Inr (r', gs) \<and> reg_ok r' \<and> list_all group_ok gs \<and> mset (concat gs) = mset (got_pkts r)"
proof -
  obtain r' gs where g: "group_by_addr r = Inr r'" "group_iter r' = Inr gs"
    "mset (concat gs) = mset (got_pkts r)" "list_all (uniform pkt_addr) gs" "mset (reg_pkts r') = mset (reg_pkts r)"
    using registry_groups_spec [OF refl assms(2,3)] unfolding got_pkts_def by blast
  have "reg_ok r'" using assms(1) g(5) unfolding reg_ok_def by (metis mset_eq_length mset_eq_setD)
  moreover have "group_ok pkts" if "pkts \<in> set gs" for pkts
  proof -
    from that g(4) have u: "uniform pkt_addr pkts" by (simp add: list_all_iff)
    then have "hd pkts \<in> set (concat gs)" using that by (force simp: uniform_def)
    then have "hd pkts \<in> set (got_pkts r)" using g(3) by (metis set_mset_mset)
    with u assms(4) show ?thesis by (simp add: group_ok_def)
  qed
  ultimately show ?thesis using g(1,2,3) by (simp add: group_batch_def list_all_iff)
qed

lemma group_laddr_ok:
  assumes "group_ok pkts"
  shows "\<exists>laddr. group_laddr pkts = Inr laddr \<and> (\<forall>p \<in> set pkts. pkt_addr p = Some laddr)"
proof -
  have u: "pkts \<noteq> []" "\<forall>p \<in> set pkts. pkt_addr p = pkt_addr (hd pkts)" and "pkt_addr (hd pkts) \<noteq> None"
    using assms unfolding group_ok_def uniform_def by blast+
  then obtain l where l: "pkt_addr (hd pkts) = Some l" by blast
  have "group_laddr pkts = Inr l" using u(1) l by (simp add: group_laddr_def index_def store_into_def hd_conv_nth)
  with u(2) l show ?thesis by metis
qed

fun pc_ok :: "(nat \<rightharpoonup> sock_addr) \<Rightarrow> relay_pc \<Rightarrow> bool" where
  "pc_ok made (AtGroups raddr gs) = list_all group_ok gs"
| "pc_ok made (AtInsert raddr laddr i pkts gs) =
     (made i = Some laddr \<and> (\<forall>p \<in> set pkts. pkt_addr p = Some laddr) \<and> list_all group_ok gs)"
| "pc_ok made (AtSend raddr i pkts gs) =
     (made i \<noteq> None \<and> (\<forall>p \<in> set pkts. pkt_addr p = made i) \<and> list_all group_ok gs)"
| "pc_ok made _ = True"

text \<open>Each logged item \<open>x\<close> belongs to a made socket \<open>i\<close>, and its address is that socket's client.\<close>

definition served :: "(nat \<rightharpoonup> sock_addr) \<Rightarrow> (nat \<times> addr_store) list \<Rightarrow> bool" where
  "served made xs \<longleftrightarrow> (\<forall>x \<in> set xs. made (fst x) \<noteq> None \<and> snd x = made (fst x))"

lemma served_Nil [simp]: "served made []"
  and served_append [simp]: "served made (xs @ ys) \<longleftrightarrow> served made xs \<and> served made ys"
  by (auto simp: served_def)

text \<open>The sockets that packets left on stay what they were when others are made.\<close>

definition on_made :: "(nat \<rightharpoonup> sock_addr) \<Rightarrow> (nat \<times> packet_ref) list \<Rightarrow> bool" where
  "on_made made xs \<longleftrightarrow> (\<forall>x \<in> set xs. made (fst x) \<noteq> None)"

lemma on_made_Nil [simp]: "on_made made []"
  and on_made_append [simp]: "on_made made (xs @ ys) \<longleftrightarrow> on_made made xs \<and> on_made made ys"
  by (auto simp: on_made_def)

lemma on_made_mono: "made \<subseteq>\<^sub>m made' \<Longrightarrow> on_made made xs \<Longrightarrow> on_made made' xs"
  unfolding on_made_def map_le_def by (metis domIff)

lemma wire_items_mono:
  assumes "made \<subseteq>\<^sub>m made'" "on_made made xs"
  shows "image_mset (wire_item made') (mset xs) = image_mset (wire_item made) (mset xs)"
proof (rule image_mset_cong)
  fix x assume "x \<in># mset xs"
  then have "made' (fst x) = made (fst x)" using assms unfolding on_made_def by (metis domIff map_le_def set_mset_mset)
  then show "wire_item made' x = wire_item made x" by (cases x) simp
qed

lemma map_le_fresh: "made i = None \<Longrightarrow> made \<subseteq>\<^sub>m made(i \<mapsto> a)"
  by (auto simp: map_le_def)

definition udp_inv :: "udp_state \<Rightarrow> bool" where
  "udp_inv s \<longleftrightarrow>
     reg_ok (us_reg s) \<and> (\<forall>i t. us_tasks s i = Some t \<longrightarrow> reg_ok (bt_reg t) \<and> us_made s i = Some (bt_laddr t)) \<and>
     sm.owned (us_made s) (us_map s) \<and> (\<forall>i. us_next s \<le> i \<longrightarrow> us_made s i = None) \<and>
     pc_ok (us_made s) (us_pc s) \<and>
     on_made (us_made s) (us_sent s) \<and>
     served (us_made s) (map (\<lambda>(i, pr). (i, pr_addr pr)) (us_back s)) \<and>
     mset (us_recv s) = mset (map (wire_item (us_made s)) (us_sent s)) + mset (us_lost s) + mset (pending (us_pc s)) \<and>
     mset (map (\<lambda>(i, pr). (i, pr_buf pr)) (us_back s)) \<subseteq># mset (us_replies s)"

lemma udp_inv_owned: "udp_inv s \<Longrightarrow> sm.owned (us_made s) (us_map s)"
  by (simp add: udp_inv_def)

lemma udp_inv_start: "udp_inv (udp_start batched)"
  by (simp add: udp_inv_def udp_start_def sm.owned_def sm_find_def sockmap_new_def)

lemma restart_inv:
  assumes "udp_inv (s\<lparr>us_pc := pc\<rparr>)" "mset dropped = mset (pending pc)"
  shows "udp_inv (restart batched dropped s)"
  using assms by (auto simp: udp_inv_def restart_def)

lemma crash_inv:
  assumes "udp_inv (s\<lparr>us_pc := pc\<rparr>)" "mset dropped = mset (pending pc)"
  shows "udp_inv (crash p dropped s)"
  using assms by (auto simp: udp_inv_def crash_def)

lemma recv_some_total: "pkts \<noteq> [] \<Longrightarrow> \<exists>res pkts'. recv_some script pkts = Inr (res, pkts')"
  by (cases script; cases pkts) (auto simp: common_recv_some_def linux_recv_some_eq Let_def split: poll.splits sum.splits)

lemma batched_recv_on_total:
  assumes "reg_ok r"
  shows "\<exists>res r'. batched_recv_on (recv_some script) r = Inr (res, r')"
proof -
  have "reg_pkts r \<noteq> []" using assms by (auto simp: reg_ok_def MAX_PACKETS_def)
  then show ?thesis using recv_some_total [of "reg_pkts r" script]
    by (auto simp: batched_recv_on_def split: poll.splits sum.splits)
qed

lemma failed_batch_inv:
  assumes "udp_inv s" "us_pc s = AtRecv" "reg_ok r" "s1 = s\<lparr>us_reg := r, us_recv := us_recv s @ its\<rparr>"
  shows "udp_inv (restart batched its s1)" "udp_inv (crash p its s1)"
  using assms by (simp_all add: udp_inv_def restart_def crash_def)

lemma entries_eq_map: "map entry_of ps = map datagram_entry ds
  \<Longrightarrow> map (\<lambda>p. (a, entry_of p)) ps = map (\<lambda>d. (a, datagram_entry d)) ds"
  by (metis (no_types) list.map_comp [unfolded comp_def])

text \<open>The cases of a receive that ended.\<close>

lemma relay_recv_cases:
  assumes "udp_inv s" "relay_recv batched script resolved s = Some s'" "script_ok script"
  obtains (failed) "s' = restart batched [] s"
  | (unresolved) r its where "reg_ok r" "its = map (\<lambda>d. (dest_of resolved, datagram_entry d)) (delivered script)"
      "delivered script \<noteq> []" "(\<exists>e. resolved = Inl e) \<and> s' = restart batched its (s\<lparr>us_reg := r, us_recv := us_recv s @ its\<rparr>) \<or>
       (\<exists>l. resolved = Inr l \<and> fst (iter_next (iter_of l)) = None) \<and>
         s' = crash (Panic ''next().unwrap()'') its (s\<lparr>us_reg := r, us_recv := us_recv s @ its\<rparr>)"
  | (got) r raddr gs where "reg_ok r" "dest_of resolved = Some raddr" "list_all group_ok gs" "delivered script \<noteq> []"
      "mset (map (item_of raddr) (concat gs)) = mset (map (\<lambda>d. (Some raddr, datagram_entry d)) (delivered script))"
      "s' = s\<lparr>us_reg := r, us_recv := us_recv s @ map (\<lambda>d. (Some raddr, datagram_entry d)) (delivered script),
             us_pc := AtGroups raddr gs\<rparr>"
proof -
  have pc: "us_pc s = AtRecv" and rk: "reg_ok (us_reg s)"
    using assms(1,2) by (auto simp: relay_recv_def udp_inv_def split: if_splits)
  obtain res r where b: "batched_recv_on (recv_some script) (us_reg s) = Inr (res, r)"
    using batched_recv_on_total [OF rk] by blast
  note bs = batched_recv_on_spec [OF b assms(3) rk]
  show thesis
  proof (cases "res = Ready (Inr ())")
    case False
    then have "s' = restart batched [] s"
      using assms(2) pc b by (auto simp: relay_recv_def split: poll.splits sum.splits)
    then show thesis by (rule failed)
  next
    case True
    let ?its = "map (\<lambda>d. (dest_of resolved, datagram_entry d)) (delivered script)"
    let ?s1 = "s\<lparr>us_reg := r, us_recv := us_recv s @ ?its\<rparr>"
    have s': "s' = after_recv batched resolved ?s1"
      using assms(2) pc b True by (simp add: relay_recv_def)
    have ent: "map entry_of (got_pkts r) = map datagram_entry (delivered script)"
      using batched_recv_on_entries [OF b [unfolded True] rk] .
    have ne: "delivered script \<noteq> []" using ent bs(2) [OF True] by (auto simp: got_pkts_def)
    obtain r' gs where g: "group_batch r = Inr (r', gs)" "reg_ok r'" "list_all group_ok gs" "mset (concat gs) = mset (got_pkts r)"
      using group_batch_spec [OF bs(1)] bs(2) [OF True] by (elim conjE) blast
    show thesis
    proof (cases "dest_of resolved")
      case None
      have "map (\<lambda>p. (None, entry_of p)) (got_pkts r) = ?its" using entries_eq_map [OF ent] None by simp
      then have "(\<exists>e. resolved = Inl e) \<and> s' = restart batched ?its ?s1 \<or>
          (\<exists>l. resolved = Inr l \<and> fst (iter_next (iter_of l)) = None) \<and> s' = crash (Panic ''next().unwrap()'') ?its ?s1"
        using s' None by (cases resolved) (simp_all add: after_recv_def got_pkts_def Let_def dest_of_Inr)
      then show thesis using unresolved [OF bs(1) refl ne] by blast
    next
      case (Some raddr)
      then obtain l where "resolved = Inr l" "fst (iter_next (iter_of l)) = Some raddr"
        by (cases resolved) (simp_all add: dest_of_Inl dest_of_Inr)
      then have s'': "s' = ?s1\<lparr>us_reg := r', us_pc := AtGroups raddr gs\<rparr>" using s' g(1) by (simp add: after_recv_def)
      have "mset (map (item_of raddr) (concat gs)) = mset (map (item_of raddr) (got_pkts r))" using g(4) by (metis mset_map)
      also have "map (item_of raddr) (got_pkts r) = map (\<lambda>d. (Some raddr, datagram_entry d)) (delivered script)"
        using entries_eq_map [OF ent, of "Some raddr"] by (simp add: item_of_def [abs_def])
      finally show thesis using got [OF g(2) Some g(3) ne] s'' Some by simp
    qed
  qed
qed

lemma relay_recv_inv:
  assumes "udp_inv s" "relay_recv batched script resolved s = Some s'" "script_ok script"
  shows "udp_inv s'"
proof -
  have pc: "us_pc s = AtRecv" using assms(2) by (auto simp: relay_recv_def split: if_splits)
  then have s0: "s\<lparr>us_pc := AtRecv\<rparr> = s" by simp
  from assms show ?thesis
  proof (cases rule: relay_recv_cases)
    case failed
    then show ?thesis using restart_inv [where s = s and pc = AtRecv] assms(1) s0 by simp
  next
    case (unresolved r its)
    then show ?thesis using failed_batch_inv [OF assms(1) pc unresolved(1) refl] by blast
  next
    case (got r raddr gs)
    then show ?thesis using assms(1) pc by (simp add: udp_inv_def)
  qed
qed

lemma served_more: "served made xs \<Longrightarrow> made i = None \<Longrightarrow> served (made(i \<mapsto> a)) xs"
  by (auto simp: served_def)

lemma relay_group_inv:
  assumes "udp_inv s" "relay_group batched os o1 s = Some s'"
  shows "udp_inv s'"
proof -
  obtain raddr gs where pc: "us_pc s = AtGroups raddr gs"
    using assms(2) by (auto simp: relay_group_def split: relay_pc.splits)
  then have s0: "s\<lparr>us_pc := AtGroups raddr gs\<rparr> = s" by simp
  show ?thesis
  proof (cases gs)
    case Nil
    then show ?thesis using assms pc by (auto simp: relay_group_def udp_inv_def)
  next
    case (Cons pkts gs')
    have gok: "group_ok pkts" "list_all group_ok gs'" using assms(1) pc Cons by (simp_all add: udp_inv_def)
    obtain l where l: "group_laddr pkts = Inr l" "\<forall>p \<in> set pkts. pkt_addr p = Some l"
      using group_laddr_ok [OF gok(1)] by blast
    show ?thesis
    proof (cases "sm_find (us_map s) l")
      case (Some i)
      then have "us_made s i = Some l" using sm.ownedD [OF udp_inv_owned [OF assms(1)]] by blast
      moreover have "s' = s\<lparr>us_pc := AtSend raddr i pkts gs'\<rparr>" using assms(2) pc Cons l(1) Some by (simp add: relay_group_def)
      ultimately show ?thesis using assms(1) pc Cons gok l(2) by (simp add: udp_inv_def)
    next
      case None
      show ?thesis
      proof (cases "fst (udp_associate os raddr o1)")
        case (Some e)
        then have "s' = restart batched (pending (us_pc s)) s" using assms(2) pc Cons l(1) None by (simp add: relay_group_def)
        then show ?thesis using restart_inv [where s = s and pc = "us_pc s" and dropped = "pending (us_pc s)"] assms(1) by simp
      next
        case ok: None
        let ?i = "us_next s"
        have s': "s' = (make_association batched l s)\<lparr>us_pc := AtInsert raddr l ?i pkts gs'\<rparr>"
          using assms(2) pc Cons l(1) None ok by (simp add: relay_group_def)
        have fresh: "us_made s ?i = None" using assms(1) by (simp add: udp_inv_def)
        have "sm.owned ((us_made s)(?i \<mapsto> l)) (us_map s)"
          by (rule sm.owned_fresh [OF udp_inv_owned [OF assms(1)] fresh])
        moreover have "served (us_made s) xs \<Longrightarrow> served ((us_made s)(?i \<mapsto> l)) xs" for xs
          using served_more [where made = "us_made s" and i = ?i and xs = xs] fresh by blast
        moreover have "image_mset (wire_item ((us_made s)(?i \<mapsto> l))) (mset (us_sent s)) = image_mset (wire_item (us_made s)) (mset (us_sent s))"
          using assms(1) by (intro wire_items_mono map_le_fresh fresh) (simp add: udp_inv_def)
        moreover have "on_made ((us_made s)(?i \<mapsto> l)) (us_sent s)"
          by (rule on_made_mono [OF map_le_fresh [where made = "us_made s" and i = ?i, OF fresh]]) (use assms(1) in \<open>simp add: udp_inv_def\<close>)
        ultimately show ?thesis
          using assms(1) pc Cons gok l(2) unfolding s'
          by (auto simp: udp_inv_def make_association_def split: if_splits)
      qed
    qed
  qed
qed

lemma relay_insert_inv:
  assumes "udp_inv s" "relay_insert s = Some s'"
  shows "udp_inv s'"
  using assms by (auto simp: relay_insert_def udp_inv_def sm.owned_insert split: relay_pc.splits)

lemma send_all_spec:
  assumes "send_all script ps = (res, out)"
  shows "(\<exists>rest. ps = out @ rest) \<and> (res = Ready (Inr ()) \<longrightarrow> out = ps)"
  using assms common_send_all_spec linux_send_all_spec by (cases script) simp_all

text \<open>What leaves is a part of the group, from its front, and amounts to the items of that part.\<close>

lemma relay_send_cases:
  assumes "udp_inv s" "relay_send batched script s = Some s'"
  obtains raddr i c pkts gs n s1 where "us_pc s = AtSend raddr i pkts gs" "us_made s i = Some c"
    "\<forall>p \<in> set pkts. pkt_addr p = Some c" "list_all group_ok gs"
    "s1 = s\<lparr>us_sent := us_sent s @ map (Pair i) (map (ref_with_addr (Some raddr)) (take n pkts))\<rparr>"
    "map (wire_item (us_made s) \<circ> Pair i \<circ> ref_with_addr (Some raddr)) (take n pkts) = map (item_of raddr) (take n pkts)"
    "s' = restart batched (map (item_of raddr) (drop n pkts @ concat gs)) s1 \<or>
     length pkts \<le> n \<and> s' = s1\<lparr>us_pc := AtGroups raddr gs\<rparr>"
proof -
  obtain raddr i pkts gs where pc: "us_pc s = AtSend raddr i pkts gs"
    using assms(2) by (auto simp: relay_send_def split: relay_pc.splits)
  let ?refs = "map (ref_with_addr (Some raddr)) pkts"
  obtain q out where q: "send_all script ?refs = (q, out)" by (cases "send_all script ?refs")
  then obtain res where res: "q = Ready res"
    using assms(2) pc by (cases q) (auto simp: relay_send_def store_from_def)
  let ?n = "length out"
  let ?s1 = "s\<lparr>us_sent := us_sent s @ map (Pair i) out\<rparr>"
  obtain rest where r: "?refs = out @ rest" using send_all_spec [OF q] by blast
  then have out: "out = map (ref_with_addr (Some raddr)) (take ?n pkts)" by (metis append_eq_conv_conj take_map)
  have n: "?n \<le> length pkts" using r by (metis le_add1 length_append length_map)
  obtain c where c: "us_made s i = Some c" "\<forall>p \<in> set pkts. pkt_addr p = Some c" "list_all group_ok gs"
    using assms(1) pc by (auto simp: udp_inv_def)
  have w: "map (wire_item (us_made s) \<circ> Pair i \<circ> ref_with_addr (Some raddr)) (take ?n pkts) = map (item_of raddr) (take ?n pkts)"
    using c(1,2) by (auto simp: ref_with_addr_def item_of_def entry_of_def dest: in_set_takeD)
  have s1: "?s1 = s\<lparr>us_sent := us_sent s @ map (Pair i) (map (ref_with_addr (Some raddr)) (take ?n pkts))\<rparr>"
    using out by simp
  have "s' = restart batched (map (item_of raddr) (drop ?n pkts @ concat gs)) ?s1 \<or>
     length pkts \<le> ?n \<and> s' = ?s1\<lparr>us_pc := AtGroups raddr gs\<rparr>"
  proof (cases res)
    case (Inl e)
    have "drop ?n (pending (us_pc s)) = map (item_of raddr) (drop ?n pkts @ concat gs)"
      using pc n by (simp add: drop_map)
    then show ?thesis using assms(2) pc q res Inl by (simp add: relay_send_def store_from_def Let_def)
  next
    case (Inr u)
    then have "out = ?refs" using send_all_spec [OF q] res by simp
    then have "?n = length pkts" by simp
    then show ?thesis using assms(2) pc q res Inr by (simp add: relay_send_def store_from_def Let_def)
  qed
  then show thesis by (rule that [OF pc c s1 w])
qed

lemma relay_send_inv:
  assumes "udp_inv s" "relay_send batched script s = Some s'"
  shows "udp_inv s'"
  using assms
proof (cases rule: relay_send_cases)
  case (1 raddr i c pkts gs n s1)
  note wire = arg_cong [OF 1(6), of mset]
  have made: "on_made (us_made s) (map (Pair i \<circ> g) xs)" for g and xs :: "packet list" using 1(2) by (simp add: on_made_def)
  have split: "mset (map (item_of raddr) pkts) = mset (map (item_of raddr) (take n pkts)) + mset (map (item_of raddr) (drop n pkts))"
    by (metis append_take_drop_id map_append mset_append)
  show ?thesis using 1(7)
  proof
    assume "s' = restart batched (map (item_of raddr) (drop n pkts @ concat gs)) s1"
    then show ?thesis using assms(1) 1(1,2,4,5) wire made split by (simp add: udp_inv_def restart_def comp_assoc)
  next
    assume "length pkts \<le> n \<and> s' = s1\<lparr>us_pc := AtGroups raddr gs\<rparr>"
    then show ?thesis using assms(1) 1(1-5) wire made split by (simp add: udp_inv_def comp_assoc)
  qed
qed

lemma back_end_inv: "udp_inv s \<Longrightarrow> udp_inv (back_end i t s)"
  by (auto simp: udp_inv_def back_end_def sm.owned_remove)

text \<open>A turn of \<^verbatim>\<open>send_back\<close>: the answers that leave are the first of those that came in.\<close>

definition answer :: "sock_addr \<Rightarrow> bytes \<Rightarrow> packet_ref" where
  "answer c bs = \<lparr>pr_buf = bs, pr_addr = Some c\<rparr>"

lemma answers_out:
  assumes "batched_recv_on (recv_some script) r = Inr (Ready (Inr ()), r')" "reg_ok r"
    and "map (ref_with_addr (Some c)) (got_pkts r') = out @ rest"
  shows "out = map (answer c) (take (length out) (map (\<lambda>d. take PACKET_SIZE (fst d)) (delivered script)))"
proof -
  have "map entry_of (got_pkts r') = map datagram_entry (delivered script)"
    by (rule batched_recv_on_entries [OF assms(1,2)])
  then have "map (snd \<circ> entry_of) (got_pkts r') = map (snd \<circ> datagram_entry) (delivered script)" by (metis list.map_comp)
  then have "map payload (got_pkts r') = map (\<lambda>d. take PACKET_SIZE (fst d)) (delivered script)"
    by (simp add: entry_of_def datagram_entry_def comp_def)
  moreover have "ref_with_addr (Some c) = answer c \<circ> payload" by (simp add: fun_eq_iff ref_with_addr_def answer_def)
  ultimately have "map (ref_with_addr (Some c)) (got_pkts r') = map (answer c) (map (\<lambda>d. take PACKET_SIZE (fst d)) (delivered script))"
    by (metis list.map_comp)
  then show ?thesis using assms(3) by (metis append_eq_conv_conj take_map)
qed

lemma back_step_shape:
  assumes "udp_inv s" "back_step o1 i script expired sends s = Some s'" "script_ok script"
  shows "\<exists>t0 t c bss n s1. us_tasks s i = Some t0 \<and> bt_laddr t0 = c \<and> bt_laddr t = c \<and> reg_ok (bt_reg t) \<and>
    s1 = s\<lparr>us_replies := us_replies s @ map (Pair i) bss, us_back := us_back s @ map (Pair i) (map (answer c) (take n bss))\<rparr> \<and>
    (s' = back_end i t s1 \<or> s' = s1\<lparr>us_tasks := (us_tasks s)(i \<mapsto> t)\<rparr>)"
proof -
  obtain t where t: "us_tasks s i = Some t" using assms(2) by (auto simp: back_step_def split: option.splits)
  have rk: "reg_ok (bt_reg t)" using assms(1) t by (auto simp: udp_inv_def)
  obtain res r where b: "batched_recv_on (recv_some script) (bt_reg t) = Inr (res, r)"
    using batched_recv_on_total [OF rk] by blast
  note bs = batched_recv_on_spec [OF b assms(3) rk]
  show ?thesis
  proof (cases "with_timeout (co_associate_timeout o1) expired res = Ready (Inr (Inr ()))")
    case False
    then have "s' = back_end i t s"
      using assms(2) t b by (auto simp: back_step_def split: poll.splits sum.splits)
    then show ?thesis using t rk
      by - (rule exI [where x = t], rule exI [where x = t], rule exI [where x = "bt_laddr t"], rule exI [where x = "[]"], simp)
  next
    case True
    then have ready: "res = Ready (Inr ())" by (auto simp: with_timeout_def split: poll.splits if_splits)
    then have g: "registry_iter r = Inr (got_pkts r)" using bs(2) by (simp add: registry_iter_def got_pkts_def)
    let ?t = "t\<lparr>bt_reg := r\<rparr>" and ?c = "bt_laddr t" and ?bss = "map (\<lambda>d. take PACKET_SIZE (fst d)) (delivered script)"
    let ?refs = "map (ref_with_addr (Some ?c)) (got_pkts r)"
    let ?s0 = "s\<lparr>us_replies := us_replies s @ map (\<lambda>d. (i, take PACKET_SIZE (fst d))) (delivered script)\<rparr>"
    have br: "back_relay sends i ?t ?s0 = Some s'" using assms(2) t b True by (simp add: back_step_def)
    obtain q out where q: "send_all sends ?refs = (q, out)" by (cases "send_all sends ?refs")
    obtain rs where rs: "q = Ready rs" using br g q by (cases q) (auto simp: back_relay_def store_from_def)
    obtain rest where "?refs = out @ rest" using send_all_spec [OF q] by blast
    from answers_out [OF b [unfolded ready] rk this] have out: "out = map (answer ?c) (take (length out) ?bss)" .
    let ?s1 = "s\<lparr>us_replies := us_replies s @ map (Pair i) ?bss,
        us_back := us_back s @ map (Pair i) (map (answer ?c) (take (length out) ?bss))\<rparr>"
    have s1: "?s0\<lparr>us_back := us_back s @ map (Pair i) out\<rparr> = ?s1"
      unfolding out [symmetric] by (simp add: comp_def)
    have "s' = back_end i ?t ?s1 \<or> s' = ?s1\<lparr>us_tasks := (us_tasks s)(i \<mapsto> ?t)\<rparr>"
      using br g q rs unfolding s1 [symmetric] by (cases rs) (simp_all add: back_relay_def store_from_def Let_def)
    then show ?thesis using t bs(1)
      by - (rule exI [where x = t], rule exI [where x = ?t], rule exI [where x = ?c], rule exI [where x = ?bss],
          rule exI [where x = "length out"], rule exI [where x = ?s1], simp only: back_task.simps, simp)
  qed
qed

lemma answers_received:
  assumes "mset (map (\<lambda>(i, pr). (i, pr_buf pr)) back) \<subseteq># mset replies"
  shows "mset (map (\<lambda>(i, pr). (i, pr_buf pr)) (back @ map (Pair i) (map (answer c) (take n bss))))
    \<subseteq># mset (replies @ map (Pair i) bss)"
proof -
  have "map (\<lambda>(i, pr). (i, pr_buf pr)) (map (Pair i) (map (answer c) xs)) = map (Pair i) xs" for xs
    by (simp add: answer_def)
  moreover have "mset (map (Pair i) (take n bss)) \<subseteq># mset (map (Pair i) bss)"
    by (metis append_take_drop_id map_append mset_append mset_subset_eq_add_left)
  ultimately show ?thesis using assms by (simp only: map_append mset_append subset_mset.add_mono)
qed

lemma back_step_inv:
  assumes "udp_inv s" "back_step o1 i script expired sends s = Some s'" "script_ok script"
  shows "udp_inv s'"
proof -
  obtain t0 t c bss n s1 where t: "us_tasks s i = Some t0" "bt_laddr t0 = c" "bt_laddr t = c" "reg_ok (bt_reg t)"
    "s1 = s\<lparr>us_replies := us_replies s @ map (Pair i) bss, us_back := us_back s @ map (Pair i) (map (answer c) (take n bss))\<rparr>"
    "s' = back_end i t s1 \<or> s' = s1\<lparr>us_tasks := (us_tasks s)(i \<mapsto> t)\<rparr>"
    using back_step_shape [OF assms] by blast
  have own: "us_made s i = Some c" using assms(1) t(1,2) by (auto simp: udp_inv_def)
  have "mset (map (\<lambda>(i, pr). (i, pr_buf pr)) (us_back s)) \<subseteq># mset (us_replies s)"
    using assms(1) by (simp add: udp_inv_def)
  then have "mset (map (\<lambda>(i, pr). (i, pr_buf pr)) (us_back s1)) \<subseteq># mset (us_replies s1)"
    unfolding t(5) using answers_received [of "us_back s" "us_replies s" i c n bss] by (simp del: map_map)
  moreover have "served (us_made s) (map (\<lambda>(i, pr). (i, pr_addr pr)) (map (Pair i) (map (answer c) xs)))" for xs
    using own by (auto simp: served_def answer_def)
  ultimately have inv: "udp_inv s1" using assms(1) unfolding t(5) by (simp add: udp_inv_def del: map_map)
  show ?thesis using t(6)
  proof
    assume "s' = back_end i t s1"
    then show ?thesis using back_end_inv [OF inv] by simp
  next
    assume s': "s' = s1\<lparr>us_tasks := (us_tasks s)(i \<mapsto> t)\<rparr>"
    have "us_tasks s = us_tasks s1" "us_made s = us_made s1" using t(5) by simp_all
    then show ?thesis using inv t(3,4) own unfolding s' by (auto simp: udp_inv_def)
  qed
qed

lemma udp_step_inv:
  assumes "udp_inv s" "event_ok ev" "udp_step multi batched o1 ev s = Some s'"
  shows "udp_inv s'"
proof -
  have e: "udp_event_step multi batched o1 ev s = Some s'" using assms(3) by (simp add: udp_step_def split: if_splits)
  show ?thesis
  proof (cases ev)
    case (EvRecv script resolved)
    show ?thesis by (rule relay_recv_inv [OF assms(1)]) (use e assms(2) EvRecv in simp_all)
  next
    case (EvGroup os)
    show ?thesis by (rule relay_group_inv [OF assms(1)]) (use e EvGroup in simp)
  next
    case EvInsert
    show ?thesis by (rule relay_insert_inv [OF assms(1)]) (use e EvInsert in simp)
  next
    case (EvSend script)
    show ?thesis by (rule relay_send_inv [OF assms(1)]) (use e EvSend in simp)
  next
    case (EvBack i script expired sends)
    show ?thesis
      by (rule back_step_inv [OF assms(1)]) (use e assms(2) EvBack in \<open>simp_all split: if_splits\<close>)
  qed
qed

lemma udp_steps_inv: "udp_steps multi batched o1 s t \<Longrightarrow> udp_inv s \<Longrightarrow> udp_inv t"
  by (induction rule: udp_steps.induct) (auto intro: udp_step_inv)

section \<open>Panics\<close>

lemma restart_running [simp]: "halted (us_pc (restart batched ps s)) = False"
  by (simp add: restart_def)

lemma relay_recv_halts:
  assumes "udp_inv s" "relay_recv batched script resolved s = Some s'" "script_ok script" "halted (us_pc s')"
  shows "\<exists>port. resolved = Inr (DoLookup [] port) \<and> us_recv s' \<noteq> us_recv s"
  using assms(1-3)
proof (cases rule: relay_recv_cases)
  case (unresolved r its)
  then obtain l where l: "resolved = Inr l" "fst (iter_next (iter_of l)) = None"
    "s' = crash (Panic ''next().unwrap()'') its (s\<lparr>us_reg := r, us_recv := us_recv s @ its\<rparr>)"
    using assms(4) by auto
  then obtain port where "l = DoLookup [] port"
    by (cases "iter_of l" rule: iter_next.cases; cases l) auto
  then show ?thesis using l unresolved(2,3) by (simp add: crash_def)
qed (use assms(4) in simp_all)

lemma relay_group_runs:
  assumes "udp_inv s" "relay_group batched os o1 s = Some s'"
  shows "\<not> halted (us_pc s')"
proof -
  obtain raddr gs where pc: "us_pc s = AtGroups raddr gs"
    using assms(2) by (auto simp: relay_group_def split: relay_pc.splits)
  show ?thesis
  proof (cases gs)
    case Nil
    then show ?thesis using assms(2) pc by (auto simp: relay_group_def)
  next
    case (Cons pkts gs')
    then have "group_ok pkts" using assms(1) pc by (simp add: udp_inv_def)
    then obtain l where "group_laddr pkts = Inr l" using group_laddr_ok by blast
    then show ?thesis using assms(2) pc Cons
      by (auto simp: relay_group_def make_association_def split: option.splits)
  qed
qed

lemma back_step_runs:
  assumes "udp_inv s" "back_step o1 i script expired sends s = Some s'" "script_ok script"
  shows "us_pc s' = us_pc s"
  using back_step_shape [OF assms] by (auto simp: back_end_def)

lemma udp_step_halts:
  assumes "udp_inv s" "event_ok ev" "udp_step multi batched o1 ev s = Some s'" "halted (us_pc s')"
  shows "\<exists>script port. ev = EvRecv script (Inr (DoLookup [] port)) \<and> us_recv s' \<noteq> us_recv s"
proof -
  have e: "udp_event_step multi batched o1 ev s = Some s'" and nh: "\<not> halted (us_pc s)"
    using assms(3) by (simp_all add: udp_step_def split: if_splits)
  show ?thesis
  proof (cases ev)
    case (EvRecv script resolved)
    then show ?thesis using relay_recv_halts [OF assms(1)] e assms(2,4) by auto
  next
    case (EvGroup os)
    then show ?thesis using relay_group_runs [OF assms(1)] e assms(4) by auto
  next
    case EvInsert
    then show ?thesis using e assms(4) by (auto simp: relay_insert_def split: relay_pc.splits)
  next
    case (EvSend script)
    then show ?thesis using e assms(4)
      by (auto simp: relay_send_def Let_def split: relay_pc.splits prod.splits poll.splits sum.splits)
  next
    case (EvBack i script expired sends)
    then have "us_pc s' = us_pc s"
      using back_step_runs [OF assms(1), of o1 i script expired sends] e assms(2) by (auto split: if_splits)
    then show ?thesis using nh assms(4) by simp
  qed
qed

lemma empty_lookup_halts:
  assumes "udp_step multi batched o1 ev s = Some s'" "ev = EvRecv script (Inr (DoLookup [] port))" "us_recv s' \<noteq> us_recv s"
  shows "halted (us_pc s')"
  using assms
  by (auto simp: udp_step_def relay_recv_def after_recv_def restart_def crash_def Let_def
      split: if_splits sum.splits poll.splits)

section \<open>Associations and their tasks\<close>

text \<open>
  Every task's socket is the one the table has for its client, or is about to be inserted, when the table has none.
\<close>

definition udp_live :: "udp_state \<Rightarrow> bool" where
  "udp_live s \<longleftrightarrow>
     (\<forall>i t. us_tasks s i = Some t \<longrightarrow>
        sm_find (us_map s) (bt_laddr t) = Some i \<or> (\<exists>raddr pkts gs. us_pc s = AtInsert raddr (bt_laddr t) i pkts gs)) \<and>
     (\<forall>raddr laddr i pkts gs. us_pc s = AtInsert raddr laddr i pkts gs \<longrightarrow> sm_find (us_map s) laddr = None)"

text \<open>And with one thread every association has its task.\<close>

definition has_task :: "udp_state \<Rightarrow> nat \<Rightarrow> sock_addr \<Rightarrow> bool" where
  "has_task s i c \<longleftrightarrow> (\<exists>t. us_tasks s i = Some t \<and> bt_laddr t = c)"

definition udp_manned :: "udp_state \<Rightarrow> bool" where
  "udp_manned s \<longleftrightarrow>
     (\<forall>c i. sm_find (us_map s) c = Some i \<longrightarrow> has_task s i c) \<and>
     (\<forall>raddr laddr i pkts gs. us_pc s = AtInsert raddr laddr i pkts gs \<longrightarrow> has_task s i laddr)"

lemma udp_live_unique:
  assumes "udp_live s" "has_task s i c" "has_task s j c"
  shows "i = j"
proof -
  have "sm_find (us_map s) c = Some k \<or> (\<exists>raddr pkts gs. us_pc s = AtInsert raddr c k pkts gs \<and> sm_find (us_map s) c = None)"
    if "has_task s k c" for k
    using assms(1) that unfolding udp_live_def has_task_def by blast
  from this [OF assms(2)] this [OF assms(3)] show ?thesis by auto
qed

text \<open>The three operations that change associations, and the rest.\<close>

lemma live_frame:
  assumes "udp_live s" "us_tasks s' = us_tasks s" "us_map s' = us_map s" "\<not> inserting (us_pc s)" "\<not> inserting (us_pc s')"
  shows "udp_live s'"
proof -
  have n: "us_pc s \<noteq> AtInsert raddr l i pkts gs" "us_pc s' \<noteq> AtInsert raddr l i pkts gs" for raddr l i pkts gs
    using assms(4,5) by auto
  then show ?thesis using assms(1-3) by (simp add: udp_live_def)
qed

lemma manned_frame:
  assumes "udp_manned s" "us_tasks s' = us_tasks s" "us_map s' = us_map s" "\<not> inserting (us_pc s')"
  shows "udp_manned s'"
proof -
  have "us_pc s' \<noteq> AtInsert raddr l i pkts gs" for raddr l i pkts gs using assms(4) by auto
  then show ?thesis using assms(1-3) by (simp add: udp_manned_def has_task_def)
qed

lemma live_associate:
  assumes "udp_live s" "\<not> inserting (us_pc s)" "sm_find (us_map s) l = None"
  shows "udp_live ((make_association batched l s)\<lparr>us_pc := AtInsert raddr l (us_next s) pkts gs\<rparr>)"
proof -
  have n: "us_pc s \<noteq> AtInsert raddr l i pkts gs" for raddr l i pkts gs using assms(2) by auto
  then show ?thesis using assms(1,3) by (auto simp: udp_live_def make_association_def)
qed

lemma manned_associate:
  assumes "udp_manned s" "udp_inv s"
  shows "udp_manned ((make_association batched l s)\<lparr>us_pc := AtInsert raddr l (us_next s) pkts gs\<rparr>)"
proof -
  have "us_made s (us_next s) = None" using assms(2) by (simp add: udp_inv_def)
  then have "sm_find (us_map s) c \<noteq> Some (us_next s)" for c
    using sm.ownedD [OF udp_inv_owned [OF assms(2)]] by fastforce
  then show ?thesis using assms(1) by (auto simp: udp_manned_def has_task_def make_association_def)
qed

lemma live_insert:
  assumes "udp_live s" "us_pc s = AtInsert raddr l i pkts gs"
  shows "udp_live (s\<lparr>us_map := sm_insert l i (us_map s), us_pc := AtSend raddr i pkts gs\<rparr>)"
proof -
  have m: "sm_find (us_map s) l = None" using assms by (simp add: udp_live_def)
  have "sm_find (sm_insert l i (us_map s)) (bt_laddr t) = Some j" if "us_tasks s j = Some t" for j t
    using assms that m unfolding udp_live_def sm.lookup_insert by (metis option.distinct(1) relay_pc.inject(2))
  then show ?thesis by (simp add: udp_live_def)
qed

lemma manned_insert:
  assumes "udp_manned s" "us_pc s = AtInsert raddr l i pkts gs"
  shows "udp_manned (s\<lparr>us_map := sm_insert l i (us_map s), us_pc := AtSend raddr i pkts gs\<rparr>)"
  using assms by (auto simp: udp_manned_def has_task_def sm.lookup_insert)

lemma live_end:
  assumes "udp_live s" "us_tasks s i = Some t0" "bt_laddr t = bt_laddr t0"
  shows "udp_live (back_end i t s)"
proof -
  have "j = i" if "us_tasks s j = Some u" "bt_laddr u = bt_laddr t" for j u
    using udp_live_unique [OF assms(1), of j "bt_laddr t" i] that assms(2,3) by (auto simp: has_task_def)
  then show ?thesis
    using assms(1) by (auto simp: udp_live_def back_end_def sm.lookup_remove)
qed

lemma manned_end:
  assumes "udp_manned s" "udp_inv s" "\<not> inserting (us_pc s)" "us_tasks s i = Some t0" "bt_laddr t = bt_laddr t0"
  shows "udp_manned (back_end i t s)"
proof -
  have n: "us_pc s \<noteq> AtInsert raddr l i pkts gs" for raddr l i pkts gs using assms(3) by auto
  have "us_made s i = Some (bt_laddr t)" using assms(2,4,5) by (auto simp: udp_inv_def)
  then have "c = bt_laddr t" if "sm_find (us_map s) c = Some i" for c
    using sm.ownedD [OF udp_inv_owned [OF assms(2)] that] by simp
  then show ?thesis using assms(1) n by (auto simp: udp_manned_def has_task_def back_end_def sm.lookup_remove)
qed

lemma back_step_cases:
  assumes "udp_inv s" "back_step o1 i script expired sends s = Some s'" "script_ok script"
  shows "\<exists>t0 t s1. us_tasks s i = Some t0 \<and> bt_laddr t = bt_laddr t0 \<and>
    us_map s1 = us_map s \<and> us_tasks s1 = us_tasks s \<and> us_pc s1 = us_pc s \<and> us_made s1 = us_made s \<and>
    (s' = back_end i t s1 \<or> s' = s1\<lparr>us_tasks := (us_tasks s)(i \<mapsto> t)\<rparr>)"
proof -
  obtain t0 t c bss n s1 where "us_tasks s i = Some t0" "bt_laddr t = bt_laddr t0"
    "s1 = s\<lparr>us_replies := us_replies s @ map (Pair i) bss, us_back := us_back s @ map (Pair i) (map (answer c) (take n bss))\<rparr>"
    "s' = back_end i t s1 \<or> s' = s1\<lparr>us_tasks := (us_tasks s)(i \<mapsto> t)\<rparr>"
    using back_step_shape [OF assms] by metis
  then show ?thesis by - (rule exI [where x = t0], rule exI [where x = t], rule exI [where x = s1], simp)
qed

text \<open>A task that goes on keeps its client.\<close>

lemma live_back:
  assumes "udp_live s" "us_tasks s i = Some t0" "bt_laddr t = bt_laddr t0"
    and "us_tasks s' = (us_tasks s)(i \<mapsto> t)" "us_map s' = us_map s" "us_pc s' = us_pc s"
  shows "udp_live s'"
  using assms by (auto simp: udp_live_def)

lemma manned_back:
  assumes "udp_manned s" "us_tasks s i = Some t0" "bt_laddr t = bt_laddr t0"
    and "us_tasks s' = (us_tasks s)(i \<mapsto> t)" "us_map s' = us_map s" "us_pc s' = us_pc s"
  shows "udp_manned s'"
proof -
  have "has_task s' j c" if "has_task s j c" for j c
    using that assms(2,3,4) by (auto simp: has_task_def)
  then show ?thesis using assms(1,5,6) by (auto simp: udp_manned_def)
qed

lemma relay_recv_frame:
  assumes "relay_recv batched script resolved s = Some s'"
  shows "us_tasks s' = us_tasks s \<and> us_map s' = us_map s \<and> \<not> inserting (us_pc s) \<and> \<not> inserting (us_pc s')"
  using assms
  by (auto simp: relay_recv_def after_recv_def restart_def crash_def Let_def
      split: if_splits sum.splits poll.splits option.splits prod.splits)

lemma relay_send_frame:
  assumes "relay_send batched script s = Some s'"
  shows "us_tasks s' = us_tasks s \<and> us_map s' = us_map s \<and> \<not> inserting (us_pc s) \<and> \<not> inserting (us_pc s')"
  using assms
  by (auto simp: relay_send_def restart_def Let_def split: relay_pc.splits sum.splits poll.splits prod.splits)

lemma relay_group_change:
  assumes "relay_group batched os o1 s = Some s'"
  shows "\<not> inserting (us_pc s) \<and>
    (us_tasks s' = us_tasks s \<and> us_map s' = us_map s \<and> \<not> inserting (us_pc s') \<or>
     (\<exists>raddr l pkts gs. sm_find (us_map s) l = None \<and>
        s' = (make_association batched l s)\<lparr>us_pc := AtInsert raddr l (us_next s) pkts gs\<rparr>))"
proof -
  obtain raddr gs where pc: "us_pc s = AtGroups raddr gs"
    using assms by (auto simp: relay_group_def split: relay_pc.splits)
  show ?thesis
  proof (cases gs)
    case Nil
    then show ?thesis using assms pc by (auto simp: relay_group_def)
  next
    case (Cons pkts gs')
    show ?thesis
    proof (cases "\<exists>l. group_laddr pkts = Inr l \<and> sm_find (us_map s) l = None \<and> fst (udp_associate os raddr o1) = None")
      case True
      then obtain l where l: "group_laddr pkts = Inr l" "sm_find (us_map s) l = None" "fst (udp_associate os raddr o1) = None"
        by blast
      then have "s' = (make_association batched l s)\<lparr>us_pc := AtInsert raddr l (us_next s) pkts gs'\<rparr>"
        using assms pc Cons by (simp add: relay_group_def)
      then show ?thesis using l(2) pc by auto
    next
      case False
      then have "us_tasks s' = us_tasks s \<and> us_map s' = us_map s \<and> \<not> inserting (us_pc s')"
        using assms pc Cons by (cases "group_laddr pkts") (auto simp: relay_group_def restart_def crash_def split: option.splits)
      then show ?thesis using pc by simp
    qed
  qed
qed

lemma udp_step_live:
  assumes "udp_inv s" "udp_live s" "event_ok ev" "udp_step multi batched o1 ev s = Some s'"
  shows "udp_live s'"
proof -
  have e: "udp_event_step multi batched o1 ev s = Some s'" using assms(4) by (simp add: udp_step_def split: if_splits)
  show ?thesis
  proof (cases ev)
    case (EvRecv script resolved)
    then show ?thesis using e relay_recv_frame live_frame [OF assms(2)] by simp
  next
    case (EvSend script)
    then show ?thesis using e relay_send_frame live_frame [OF assms(2)] by simp
  next
    case (EvGroup os)
    then show ?thesis using e relay_group_change [of batched os o1 s s'] live_frame [OF assms(2)] live_associate [OF assms(2)]
      by auto
  next
    case EvInsert
    then show ?thesis using e live_insert [OF assms(2)] by (auto simp: relay_insert_def split: relay_pc.splits)
  next
    case (EvBack i script expired sends)
    then have b: "back_step o1 i script expired sends s = Some s'" "script_ok script"
      using e assms(3) by (auto split: if_splits)
    obtain t0 t s1 where t: "us_tasks s i = Some t0" "bt_laddr t = bt_laddr t0" "us_map s1 = us_map s" "us_tasks s1 = us_tasks s"
      "us_pc s1 = us_pc s" "s' = back_end i t s1 \<or> s' = s1\<lparr>us_tasks := (us_tasks s)(i \<mapsto> t)\<rparr>"
      using back_step_cases [OF assms(1) b] by blast
    have l1: "udp_live s1" using assms(2) t(3-5) by (simp add: udp_live_def)
    show ?thesis using t(6)
    proof
      assume "s' = back_end i t s1"
      then show ?thesis using live_end [OF l1 _ t(2)] t(1,4) by simp
    next
      assume "s' = s1\<lparr>us_tasks := (us_tasks s)(i \<mapsto> t)\<rparr>"
      then show ?thesis using live_back [OF assms(2) t(1,2)] t(3,5) by simp
    qed
  qed
qed

lemma udp_step_manned:
  assumes "udp_inv s" "udp_manned s" "event_ok ev" "udp_step False batched o1 ev s = Some s'"
  shows "udp_manned s'"
proof -
  have e: "udp_event_step False batched o1 ev s = Some s'" using assms(4) by (simp add: udp_step_def split: if_splits)
  show ?thesis
  proof (cases ev)
    case (EvRecv script resolved)
    then show ?thesis using e relay_recv_frame manned_frame [OF assms(2)] by simp
  next
    case (EvSend script)
    then show ?thesis using e relay_send_frame manned_frame [OF assms(2)] by simp
  next
    case (EvGroup os)
    then show ?thesis using e relay_group_change [of batched os o1 s s'] manned_frame [OF assms(2)] manned_associate [OF assms(2,1)]
      by auto
  next
    case EvInsert
    then show ?thesis using e manned_insert [OF assms(2)] by (auto simp: relay_insert_def split: relay_pc.splits)
  next
    case (EvBack i script expired sends)
    then have b: "back_step o1 i script expired sends s = Some s'" "script_ok script" and ni: "\<not> inserting (us_pc s)"
      using e assms(3) by (auto split: if_splits)
    obtain t0 t s1 where t: "us_tasks s i = Some t0" "bt_laddr t = bt_laddr t0" "us_map s1 = us_map s" "us_tasks s1 = us_tasks s"
      "us_pc s1 = us_pc s" "us_made s1 = us_made s" "s' = back_end i t s1 \<or> s' = s1\<lparr>us_tasks := (us_tasks s)(i \<mapsto> t)\<rparr>"
      using back_step_cases [OF assms(1) b] by blast
    show ?thesis using t(7)
    proof
      assume s': "s' = back_end i t s1"
      have "udp_manned (back_end i t s)" by (rule manned_end [OF assms(2,1) ni t(1,2)])
      then show ?thesis unfolding s' using t(3-5) by (simp add: udp_manned_def has_task_def back_end_def)
    next
      assume "s' = s1\<lparr>us_tasks := (us_tasks s)(i \<mapsto> t)\<rparr>"
      then show ?thesis using manned_back [OF assms(2) t(1,2)] t(3,5) by simp
    qed
  qed
qed

lemma udp_start_live: "udp_live (udp_start batched)" "udp_manned (udp_start batched)"
  by (simp_all add: udp_live_def udp_manned_def udp_start_def sm_find_def sockmap_new_def)

lemma udp_steps_live: "udp_steps multi batched o1 s t \<Longrightarrow> udp_inv s \<Longrightarrow> udp_live s \<Longrightarrow> udp_live t"
  by (induction rule: udp_steps.induct) (auto intro: udp_step_live udp_steps_inv)

lemma udp_steps_manned: "udp_steps False batched o1 s t \<Longrightarrow> udp_inv s \<Longrightarrow> udp_manned s \<Longrightarrow> udp_manned t"
  by (induction rule: udp_steps.induct) (auto intro: udp_step_manned udp_steps_inv)

section \<open>What a quiet network forwards\<close>

lemma recv_step:
  assumes "udp_inv s" "us_pc s = AtRecv" "script_ok script" "delivered script \<noteq> []"
  shows "\<exists>s'. relay_recv batched script resolved s = Some s' \<and> udp_step multi batched o1 (EvRecv script resolved) s = Some s' \<and>
    us_recv s' = us_recv s @ map (\<lambda>d. (dest_of resolved, datagram_entry d)) (delivered script)"
proof -
  have rk: "reg_ok (us_reg s)" using assms(1) by (simp add: udp_inv_def)
  obtain res r where b: "batched_recv_on (recv_some script) (us_reg s) = Inr (res, r)"
    using batched_recv_on_total [OF rk] by blast
  note ready = batched_recv_on_ready [OF b assms(4)]
  then obtain s' where s': "relay_recv batched script resolved s = Some s'"
    using b assms(2) by (simp add: relay_recv_def)
  then have "us_recv s' = us_recv s @ map (\<lambda>d. (dest_of resolved, datagram_entry d)) (delivered script)"
    using b ready assms(2)
    by (auto simp: relay_recv_def after_recv_def restart_def crash_def Let_def split: option.splits sum.splits prod.splits)
  then show ?thesis using s' assms(2) by (simp add: udp_step_def)
qed

lemma recv_ok_step:
  assumes "udp_inv s" "us_pc s = AtRecv" "script_ok script" "delivered script \<noteq> []" "dest_of (Inr l) = Some raddr"
  shows "\<exists>s' gs. udp_step multi batched o1 (EvRecv script (Inr l)) s = Some s' \<and>
    us_pc s' = AtGroups raddr gs \<and> gs \<noteq> [] \<and> us_map s' = us_map s \<and> us_tasks s' = us_tasks s \<and> us_next s' = us_next s \<and>
    us_made s' = us_made s \<and> us_lost s' = us_lost s \<and> us_sent s' = us_sent s \<and>
    us_recv s' = us_recv s @ map (\<lambda>d. (Some raddr, datagram_entry d)) (delivered script)"
proof -
  obtain s' where s': "relay_recv batched script (Inr l) s = Some s'" "udp_step multi batched o1 (EvRecv script (Inr l)) s = Some s'"
    "us_recv s' = us_recv s @ map (\<lambda>d. (dest_of (Inr l), datagram_entry d)) (delivered script)"
    using recv_step [OF assms(1-4)] by blast
  from assms(1) s'(1) assms(3) show ?thesis
  proof (cases rule: relay_recv_cases)
    case failed
    then show ?thesis using s'(3) assms(4) by (simp add: restart_def)
  next
    case (unresolved r its)
    then show ?thesis using assms(5) by (simp add: dest_of_Inr)
  next
    case (got r a gs)
    then have "a = raddr" using assms(5) by simp
    moreover have "gs \<noteq> []" using got(4,5) by auto
    ultimately show ?thesis using got(6) s'(2) by - (rule exI [where x = s'], rule exI [where x = gs], simp)
  qed
qed

lemma udp_steps_trans: "udp_steps multi batched o1 t u \<Longrightarrow> udp_steps multi batched o1 s t \<Longrightarrow> udp_steps multi batched o1 s u"
  by (induction rule: udp_steps.induct) (auto intro: udp_steps.intros)

lemma udp_steps_one:
  "event_ok ev \<Longrightarrow> udp_step multi batched o1 ev s = Some t \<Longrightarrow> udp_steps multi batched o1 s t"
  by (rule udp_more [OF udp_stays])

text \<open>
  A quiet network: the socket calls of an association succeed and packets are taken. The tasks that send answers back
  may meet anything.
\<close>

fun quiet_sends :: "send_script \<Rightarrow> bool" where
  "quiet_sends (SendOne es) = list_all (\<lambda>e. e = SysOk ()) es"
| "quiet_sends (SendMany es) = list_all (\<lambda>e. \<exists>n. e = SysOk n) es"

fun quiet :: "udp_event \<Rightarrow> bool" where
  "quiet (EvRecv script resolved) = False"
| "quiet (EvGroup os) = (\<forall>tr c. os tr c = None)"
| "quiet EvInsert = True"
| "quiet (EvSend script) = quiet_sends script"
| "quiet (EvBack i script expired sends) = script_ok script"

lemma quiet_ok: "quiet ev \<Longrightarrow> event_ok ev"
  by (cases ev) auto

lemma common_send_quiet:
  "list_all (\<lambda>e. e = SysOk ()) es \<Longrightarrow> common_send_all es ps \<noteq> (Ready (Inl e), out)"
proof (induction ps arbitrary: es out)
  case (Cons p ps)
  then show ?case by (cases es) (auto split: prod.splits)
qed simp

lemma linux_send_quiet:
  "list_all (\<lambda>e. \<exists>n. e = SysOk n) es \<Longrightarrow> linux_send_all es ps \<noteq> (Ready (Inl e), out)"
proof (induction es arbitrary: ps out)
  case Nil
  then show ?case by (simp add: linux_send_all.simps)
next
  case (Cons x es)
  then show ?case by (auto simp: linux_send_all.simps [of "x # es"] split: prod.splits)
qed

lemma send_all_quiet: "quiet_sends script \<Longrightarrow> send_all script ps \<noteq> (Ready (Inl e), out)"
  by (cases script) (simp_all add: common_send_quiet linux_send_quiet)

lemma run_calls_quiet: "\<forall>tr c. os tr c = None \<Longrightarrow> run_calls os cs tr = (None, tr @ map fst cs)"
  by (induction cs arbitrary: tr) auto

lemma associate_quiet: "\<forall>tr c. os tr c = None \<Longrightarrow> fst (udp_associate os raddr o1) = None"
  by (simp add: udp_associate_def run_calls_quiet)

text \<open>With it nothing is dropped, and what was sent before stays what it was.\<close>

definition keeps_log :: "udp_state \<Rightarrow> udp_state \<Rightarrow> bool" where
  "keeps_log s t \<longleftrightarrow> us_recv t = us_recv s \<and> us_lost t = us_lost s \<and> us_made s \<subseteq>\<^sub>m us_made t \<and>
     prefix (us_sent s) (us_sent t)"

lemma keeps_log_trans: "keeps_log s t \<Longrightarrow> keeps_log t u \<Longrightarrow> keeps_log s u"
  by (auto simp: keeps_log_def intro: map_le_trans prefix_order.trans)

lemma group_quiet:
  assumes "udp_inv s" "relay_group batched os o1 s = Some s'" "\<forall>tr c. os tr c = None"
  shows "keeps_log s s'"
proof -
  obtain raddr gs where pc: "us_pc s = AtGroups raddr gs"
    using assms(2) by (auto simp: relay_group_def split: relay_pc.splits)
  show ?thesis
  proof (cases gs)
    case Nil
    then show ?thesis using assms(2) pc by (auto simp: relay_group_def keeps_log_def)
  next
    case (Cons pkts gs')
    then have "group_ok pkts" using assms(1) pc by (simp add: udp_inv_def)
    then obtain l where l: "group_laddr pkts = Inr l" using group_laddr_ok by blast
    have "us_made s (us_next s) = None" using assms(1) by (simp add: udp_inv_def)
    then have "us_made s \<subseteq>\<^sub>m (us_made s)(us_next s \<mapsto> l)" by (rule map_le_fresh)
    then show ?thesis using assms(2) pc Cons l associate_quiet [OF assms(3)]
      by (cases "sm_find (us_map s) l") (auto simp: relay_group_def keeps_log_def make_association_def)
  qed
qed

lemma quiet_step:
  assumes "udp_inv s" "quiet ev" "udp_step multi batched o1 ev s = Some s'"
  shows "keeps_log s s'"
proof -
  have e: "udp_event_step multi batched o1 ev s = Some s'" using assms(3) by (simp add: udp_step_def split: if_splits)
  show ?thesis
  proof (cases ev)
    case (EvGroup os)
    then show ?thesis using group_quiet [OF assms(1)] e assms(2) by simp
  next
    case (EvSend script)
    then show ?thesis using e assms(2) send_all_quiet
      by (auto simp: relay_send_def keeps_log_def Let_def split: relay_pc.splits prod.splits poll.splits sum.splits)
  next
    case (EvBack i script expired sends)
    then show ?thesis using back_step_shape [OF assms(1), of o1 i script expired sends s'] e assms(2)
      by (auto simp: keeps_log_def back_end_def split: if_splits)
  qed (use e assms(2) in \<open>auto simp: relay_insert_def keeps_log_def split: relay_pc.splits\<close>)
qed

lemma udp_run_Cons:
  "udp_run multi batched o1 (ev # evs) s = Some t \<longleftrightarrow>
     (\<exists>s'. udp_step multi batched o1 ev s = Some s' \<and> udp_run multi batched o1 evs s' = Some t)"
  by (auto split: option.splits)

lemma quiet_run:
  "udp_run multi batched o1 evs s = Some t \<Longrightarrow> udp_inv s \<Longrightarrow> list_all quiet evs \<Longrightarrow> udp_inv t \<and> keeps_log s t"
proof (induction evs arbitrary: s)
  case Nil
  then show ?case by (simp add: keeps_log_def)
next
  case (Cons ev evs)
  then obtain s' where s': "udp_step multi batched o1 ev s = Some s'" "udp_run multi batched o1 evs s' = Some t"
    using udp_run_Cons by metis
  have "udp_inv s'" using udp_step_inv [OF Cons.prems(2) quiet_ok s'(1)] Cons.prems(3) by simp
  moreover have "keeps_log s s'" using quiet_step [OF Cons.prems(2) _ s'(1)] Cons.prems(3) by simp
  ultimately show ?case using Cons.IH [OF s'(2)] Cons.prems(3) by (auto intro: keeps_log_trans)
qed

text \<open>And there is a run that ends the batch, in a build with batching and in one without.\<close>

definition whole_send :: "bool \<Rightarrow> packet list \<Rightarrow> send_script" where
  "whole_send batched pkts =
     (if batched then SendMany [SysOk (length pkts)] else SendOne (replicate (length pkts) (SysOk ())))"

lemma common_send_whole: "common_send_all (replicate (length ps) (SysOk ())) ps = (Ready (Inr ()), ps)"
  by (induction ps) simp_all

lemma whole_send_ok:
  "quiet_sends (whole_send batched pkts)"
  "length ps = length pkts \<Longrightarrow> send_all (whole_send batched pkts) ps = (Ready (Inr ()), ps)"
  using common_send_whole [of ps] by (simp_all add: whole_send_def linux_send_all.simps list_all_iff)


lemma send_run:
  assumes "us_pc s = AtSend raddr i pkts gs"
  shows "\<exists>t. udp_step multi batched o1 (EvSend (whole_send batched pkts)) s = Some t \<and> us_pc t = AtGroups raddr gs"
  using assms by (simp add: udp_step_def relay_send_def whole_send_ok Let_def)

lemma group_run:
  assumes "udp_inv s" "us_pc s = AtGroups raddr (pkts # gs)"
  shows "\<exists>evs t. list_all quiet evs \<and> udp_run multi batched o1 evs s = Some t \<and> us_pc t = AtGroups raddr gs"
proof -
  let ?os = "\<lambda>_ _. None"
  have "group_ok pkts" using assms by (simp add: udp_inv_def)
  then obtain l where l: "group_laddr pkts = Inr l" using group_laddr_ok by blast
  show ?thesis
  proof (cases "sm_find (us_map s) l")
    case (Some i)
    let ?s1 = "s\<lparr>us_pc := AtSend raddr i pkts gs\<rparr>"
    have 1: "udp_step multi batched o1 (EvGroup ?os) s = Some ?s1"
      using assms(2) l Some by (simp add: udp_step_def relay_group_def)
    obtain t where t: "udp_step multi batched o1 (EvSend (whole_send batched pkts)) ?s1 = Some t" "us_pc t = AtGroups raddr gs"
      using send_run [of ?s1 raddr i pkts gs multi batched o1] by auto
    then show ?thesis using 1
      by - (rule exI [where x = "[EvGroup ?os, EvSend (whole_send batched pkts)]"], simp add: whole_send_ok)
  next
    case None
    let ?s1 = "(make_association batched l s)\<lparr>us_pc := AtInsert raddr l (us_next s) pkts gs\<rparr>"
    let ?s2 = "?s1\<lparr>us_map := sm_insert l (us_next s) (us_map s), us_pc := AtSend raddr (us_next s) pkts gs\<rparr>"
    have 1: "udp_step multi batched o1 (EvGroup ?os) s = Some ?s1"
      using assms(2) l None associate_quiet [of ?os raddr o1] by (simp add: udp_step_def relay_group_def)
    have 2: "udp_step multi batched o1 EvInsert ?s1 = Some ?s2"
      by (simp add: udp_step_def relay_insert_def make_association_def)
    obtain t where t: "udp_step multi batched o1 (EvSend (whole_send batched pkts)) ?s2 = Some t" "us_pc t = AtGroups raddr gs"
      using send_run [of ?s2 raddr "us_next s" pkts gs multi batched o1] by auto
    then show ?thesis using 1 2
      by - (rule exI [where x = "[EvGroup ?os, EvInsert, EvSend (whole_send batched pkts)]"], simp add: whole_send_ok)
  qed
qed

lemma udp_run_append:
  "udp_run multi batched o1 evs s = Some t \<Longrightarrow> udp_run multi batched o1 (evs @ evs') s = udp_run multi batched o1 evs' t"
  by (induction evs arbitrary: s) (auto split: option.splits)

lemma groups_run:
  assumes "udp_inv s" "us_pc s = AtGroups raddr gs"
  shows "\<exists>evs t. list_all quiet evs \<and> udp_run multi batched o1 evs s = Some t \<and> us_pc t = AtRecv"
  using assms
proof (induction gs arbitrary: s)
  case Nil
  then have "udp_step multi batched o1 (EvGroup (\<lambda>_ _. None)) s = Some (s\<lparr>us_pc := AtRecv\<rparr>)"
    by (simp add: udp_step_def relay_group_def)
  then show ?case by - (rule exI [where x = "[EvGroup (\<lambda>_ _. None)]"], simp)
next
  case (Cons pkts gs)
  from group_run [OF Cons.prems] obtain evs t where t: "list_all quiet evs" "udp_run multi batched o1 evs s = Some t"
    "us_pc t = AtGroups raddr gs" by blast
  have "udp_inv t" using quiet_run [OF t(2) Cons.prems(1) t(1)] by simp
  from Cons.IH [OF this t(3)] obtain evs' u where "list_all quiet evs'" "udp_run multi batched o1 evs' t = Some u" "us_pc u = AtRecv"
    by blast
  then show ?case using t(1) udp_run_append [OF t(2)]
    by - (rule exI [where x = "evs @ evs'"], simp)
qed

lemma udp_run_steps:
  "udp_run multi batched o1 evs s = Some t \<Longrightarrow> list_all event_ok evs \<Longrightarrow> udp_steps multi batched o1 s t"
proof (induction evs arbitrary: s)
  case (Cons ev evs)
  then obtain s' where s': "udp_step multi batched o1 ev s = Some s'" "udp_run multi batched o1 evs s' = Some t"
    using udp_run_Cons by metis
  have "udp_steps multi batched o1 s' t" using Cons.IH [OF s'(2)] Cons.prems(2) by simp
  moreover have "udp_steps multi batched o1 s s'" using udp_steps_one [OF _ s'(1)] Cons.prems(2) by simp
  ultimately show ?case by (rule udp_steps_trans)
qed (simp add: udp_stays)

section \<open>An association without a task\<close>

lemma live_find:
  assumes "udp_live s" "us_tasks s j = Some t"
  shows "sm_find (us_map s) (bt_laddr t) = Some j \<or> sm_find (us_map s) (bt_laddr t) = None"
proof -
  have "sm_find (us_map s) (bt_laddr t) = Some j \<or> (\<exists>raddr pkts gs. us_pc s = AtInsert raddr (bt_laddr t) j pkts gs)"
    using assms unfolding udp_live_def by simp
  then show ?thesis using assms(1) by (auto simp: udp_live_def)
qed

lemma stale_step:
  assumes "udp_inv s" "udp_live s" "event_ok ev" "udp_step multi batched o1 ev s = Some s'"
    and "sm_find (us_map s) c = Some i" "us_tasks s i = None"
  shows "sm_find (us_map s') c = Some i \<and> us_tasks s' i = None"
proof -
  have e: "udp_event_step multi batched o1 ev s = Some s'" using assms(4) by (simp add: udp_step_def split: if_splits)
  have made: "us_made s i = Some c" by (rule sm.ownedD [OF udp_inv_owned [OF assms(1)] assms(5)])
  have fresh: "us_made s (us_next s) = None" using assms(1) by (simp add: udp_inv_def)
  show ?thesis
  proof (cases ev)
    case (EvRecv script resolved)
    then show ?thesis using e relay_recv_frame assms(5,6) by simp
  next
    case (EvSend script)
    then show ?thesis using e relay_send_frame assms(5,6) by simp
  next
    case (EvGroup os)
    have "i \<noteq> us_next s" using made fresh by auto
    then show ?thesis using EvGroup e relay_group_change [of batched os o1 s s'] assms(5,6)
      by (auto simp: make_association_def)
  next
    case EvInsert
    then obtain raddr l j pkts gs where p: "us_pc s = AtInsert raddr l j pkts gs"
      "s' = s\<lparr>us_map := sm_insert l j (us_map s), us_pc := AtSend raddr j pkts gs\<rparr>"
      using e by (auto simp: relay_insert_def split: relay_pc.splits)
    have "sm_find (us_map s) l = None" using assms(2) p(1) by (simp add: udp_live_def)
    then show ?thesis using p(2) assms(5,6) by (auto simp: sm.lookup_insert)
  next
    case (EvBack j script expired sends)
    then have b: "back_step o1 j script expired sends s = Some s'" "script_ok script"
      using e assms(3) by (auto split: if_splits)
    obtain t0 t s1 where t: "us_tasks s j = Some t0" "bt_laddr t = bt_laddr t0" "us_map s1 = us_map s" "us_tasks s1 = us_tasks s"
      "s' = back_end j t s1 \<or> s' = s1\<lparr>us_tasks := (us_tasks s)(j \<mapsto> t)\<rparr>"
      using back_step_cases [OF assms(1) b] by blast
    have ji: "j \<noteq> i" using t(1) assms(6) by auto
    have "sm_find (us_map s) (bt_laddr t0) = Some j \<or> sm_find (us_map s) (bt_laddr t0) = None"
      by (rule live_find [OF assms(2) t(1)])
    then have "bt_laddr t0 \<noteq> c" using assms(5) ji by auto
    then show ?thesis using t ji assms(5,6) by (auto simp: back_end_def sm.lookup_remove)
  qed
qed

lemma stale_steps:
  "udp_steps multi batched o1 s t \<Longrightarrow> udp_inv s \<Longrightarrow> udp_live s \<Longrightarrow> sm_find (us_map s) c = Some i \<Longrightarrow> us_tasks s i = None
     \<Longrightarrow> sm_find (us_map t) c = Some i \<and> us_tasks t i = None"
proof (induction rule: udp_steps.induct)
  case (udp_more t ev u)
  show ?case
    by (rule stale_step [OF _ _ udp_more.hyps(2,3)])
       (use udp_more udp_steps_inv udp_steps_live in blast)+
qed simp

text \<open>
  The closure that \<^verbatim>\<open>associate_and_relay\<close> gives to \<^verbatim>\<open>find_or_insert\<close>; uninterrupted, the two steps
  of the model are the one call.
\<close>

definition association_closure ::
  "bool \<Rightarrow> (udp_call list \<Rightarrow> udp_call \<Rightarrow> io_error option) \<Rightarrow> connect_opts \<Rightarrow> sock_addr \<Rightarrow> sock_addr \<Rightarrow> udp_state
     \<Rightarrow> (io_error + nat) \<times> udp_state" where
  "association_closure batched os o1 raddr laddr s =
     (case fst (udp_associate os raddr o1) of
        Some e \<Rightarrow> (Inl e, s)
      | None \<Rightarrow> (Inr (us_next s), make_association batched laddr s))"

lemma group_then_insert:
  assumes "us_pc s = AtGroups raddr (pkts # gs)" "group_laddr pkts = Inr laddr"
    and "find_or_insert laddr (association_closure batched os o1 raddr laddr) (us_map s, s) = (Inr i, m, s1)"
  shows "relay_group batched os o1 s = Some (s1\<lparr>us_pc := AtSend raddr i pkts gs\<rparr>) \<and> m = us_map s1 \<or>
    (\<exists>s2. relay_group batched os o1 s = Some s2 \<and>
       relay_insert s2 = Some (s1\<lparr>us_map := m, us_pc := AtSend raddr i pkts gs\<rparr>))"
  using assms
  by (auto simp: find_or_insert_def association_closure_def relay_group_def relay_insert_def make_association_def
      split: option.splits sum.splits)

lemma udp_steps_start_inv:
  assumes "udp_steps multi batched o1 (udp_start batched) s"
  shows "udp_inv s" "udp_live s"
  using udp_steps_inv [OF assms udp_inv_start] udp_steps_live [OF assms udp_inv_start udp_start_live(1)] by auto

text \<open>What a run of a batch has sent, when the main task is back at its receive.\<close>

lemma batch_sent:
  assumes "udp_inv s" "us_pc s = AtRecv" "udp_inv t" "us_pc t = AtRecv"
    and "us_recv t = us_recv s @ its" "us_lost t = us_lost s" "us_made s \<subseteq>\<^sub>m us_made t" "prefix (us_sent s) (us_sent t)"
  shows "\<exists>new. us_sent t = us_sent s @ new \<and> mset (map (wire_item (us_made t)) new) = mset its"
proof -
  obtain new where new: "us_sent t = us_sent s @ new" using assms(8) by (auto simp: prefix_def)
  have "image_mset (wire_item (us_made t)) (mset (us_sent s)) = image_mset (wire_item (us_made s)) (mset (us_sent s))"
    using assms(1,7) by (intro wire_items_mono) (simp_all add: udp_inv_def)
  moreover have "mset (us_recv s) = mset (map (wire_item (us_made s)) (us_sent s)) + mset (us_lost s)"
    "mset (us_recv t) = mset (map (wire_item (us_made t)) (us_sent t)) + mset (us_lost t)"
    using assms(1-4) by (simp_all add: udp_inv_def)
  ultimately have "mset (map (wire_item (us_made t)) new) = mset its" using assms(5,6) new by simp
  then show ?thesis using new by blast
qed

lemma delivery:
  assumes "udp_inv s" "us_pc s = AtRecv" "script_ok script" "delivered script \<noteq> []" "dest_of (Inr l) = Some raddr"
  shows "\<exists>evs t. list_all quiet evs \<and> udp_run multi batched o1 (EvRecv script (Inr l) # evs) s = Some t \<and> us_pc t = AtRecv"
    and "list_all quiet evs \<Longrightarrow> udp_run multi batched o1 (EvRecv script (Inr l) # evs) s = Some t \<Longrightarrow> us_pc t = AtRecv \<Longrightarrow>
      us_lost t = us_lost s \<and> (\<exists>new. us_sent t = us_sent s @ new \<and>
        mset (map (wire_item (us_made t)) new) = mset (map (\<lambda>d. (Some raddr, datagram_entry d)) (delivered script)))"
proof -
  obtain s1 gs where s1: "udp_step multi batched o1 (EvRecv script (Inr l)) s = Some s1"
    "us_pc s1 = AtGroups raddr gs" "us_made s1 = us_made s" "us_lost s1 = us_lost s" "us_sent s1 = us_sent s"
    "us_recv s1 = us_recv s @ map (\<lambda>d. (Some raddr, datagram_entry d)) (delivered script)"
    using recv_ok_step [OF assms] by blast
  have "event_ok (EvRecv script (Inr l))" using assms(3) by simp
  note inv1 = udp_step_inv [OF assms(1) this s1(1)]
  show "\<exists>evs t. list_all quiet evs \<and> udp_run multi batched o1 (EvRecv script (Inr l) # evs) s = Some t \<and> us_pc t = AtRecv"
    using groups_run [OF inv1 s1(2)] s1(1) by auto
  assume q: "list_all quiet evs" and "udp_run multi batched o1 (EvRecv script (Inr l) # evs) s = Some t" and pc: "us_pc t = AtRecv"
  then have "udp_run multi batched o1 evs s1 = Some t" using s1(1) by simp
  from quiet_run [OF this inv1 q] have "udp_inv t" "keeps_log s1 t" by simp_all
  then show "us_lost t = us_lost s \<and> (\<exists>new. us_sent t = us_sent s @ new \<and>
        mset (map (wire_item (us_made t)) new) = mset (map (\<lambda>d. (Some raddr, datagram_entry d)) (delivered script)))"
    using batch_sent [OF assms(1,2) _ pc] s1(3-6) by (auto simp: keeps_log_def)
qed

lemma reach_insert:
  "\<exists>s raddr l i pkts gs. udp_steps multi batched o1 (udp_start batched) s \<and> us_pc s = AtInsert raddr l i pkts gs \<and>
     us_tasks s i = Some \<lparr>bt_laddr = l, bt_reg = registry_new batched MAX_PACKETS\<rparr>"
proof -
  let ?s0 = "udp_start batched" and ?ok = "\<lambda>_ _. None" and ?d = "([1], SockV4 1 1) :: datagram"
  let ?e1 = "EvRecv (RecvMany [SysOk [?d]]) (Inr (NoLookup (SockV4 9 9)))"
  have pc0: "us_pc ?s0 = AtRecv" and it: "dest_of (Inr (NoLookup (SockV4 9 9))) = Some (SockV4 9 9)"
    by (simp_all add: udp_start_def dest_of_Inr)
  obtain s1 gs where s1: "udp_step multi batched o1 ?e1 ?s0 = Some s1"
    "us_pc s1 = AtGroups (SockV4 9 9) gs" "gs \<noteq> []" "us_map s1 = us_map ?s0"
    using recv_ok_step [OF udp_inv_start pc0 _ _ it, of "RecvMany [SysOk [?d]]" multi batched o1] by (auto simp: MAX_PACKETS_def)
  have "event_ok ?e1" by simp
  note st1 = udp_steps_one [OF this s1(1)]
  note inv1 = udp_steps_inv [OF st1 udp_inv_start]
  obtain pkts gs' where gs: "gs = pkts # gs'" using s1(3) by (cases gs) auto
  then have "group_ok pkts" using inv1 s1(2) by (simp add: udp_inv_def)
  then obtain l where l: "group_laddr pkts = Inr l" using group_laddr_ok by blast
  let ?i = "us_next s1"
  let ?s2 = "(make_association batched l s1)\<lparr>us_pc := AtInsert (SockV4 9 9) l ?i pkts gs'\<rparr>"
  have 2: "udp_step multi batched o1 (EvGroup ?ok) s1 = Some ?s2"
    using s1(2,4) gs l by (simp add: udp_step_def relay_group_def associate_quiet sm_find_def udp_start_def sockmap_new_def)
  have "udp_steps multi batched o1 ?s0 ?s2" by (rule udp_more [OF st1 _ 2]) simp
  then show ?thesis
    by - (rule exI [where x = ?s2], rule exI [where x = "SockV4 9 9"], rule exI [where x = l], rule exI [where x = ?i],
        rule exI [where x = pkts], rule exI [where x = gs'], simp add: make_association_def)
qed

section \<open>Properties\<close>

text \<open>
  C24: Clients are kept apart and packets are accounted for. In every reachable state, whatever the network, the
  resolver and the scheduling: the datagrams that came in, each with its source, its bytes (cut to 1500) and the first
  address the remote's name resolved to, are exactly the packets that left (each seen as its destination, the client
  that its socket was made for, and its bytes), those dropped by an error and those still pending. So no packet
  is forged, repeated or silently lost, it leaves on the socket of the client it came from only, and
  for the remote only. What left for a client from a socket went to the client of that socket,
  and is among the answers that came in on it; and every association leads to a socket made for its client.
\<close>
theorem udp_isolation:
  assumes "udp_steps multi batched o1 (udp_start batched) s"
  shows "mset (us_recv s) = mset (map (wire_item (us_made s)) (us_sent s)) + mset (us_lost s) + mset (pending (us_pc s)) \<and>
    list_all (\<lambda>(i, pr). us_made s i \<noteq> None) (us_sent s) \<and>
    list_all (\<lambda>(i, pr). us_made s i \<noteq> None \<and> pr_addr pr = us_made s i) (us_back s) \<and>
    mset (map (\<lambda>(i, pr). (i, pr_buf pr)) (us_back s)) \<subseteq># mset (us_replies s) \<and>
    (\<forall>c i. sm_find (us_map s) c = Some i \<longrightarrow> us_made s i = Some c)"
proof (intro conjI)
  note inv = udp_steps_start_inv(1) [OF assms]
  show "list_all (\<lambda>(i, pr). us_made s i \<noteq> None) (us_sent s)"
    "list_all (\<lambda>(i, pr). us_made s i \<noteq> None \<and> pr_addr pr = us_made s i) (us_back s)"
    using inv by (auto simp: udp_inv_def served_def on_made_def list_all_iff)
  show "\<forall>c i. sm_find (us_map s) c = Some i \<longrightarrow> us_made s i = Some c"
    using sm.ownedD [OF udp_inv_owned [OF inv]] by blast
  show "mset (us_recv s) = mset (map (wire_item (us_made s)) (us_sent s)) + mset (us_lost s) + mset (pending (us_pc s))"
    "mset (map (\<lambda>(i, pr). (i, pr_buf pr)) (us_back s)) \<subseteq># mset (us_replies s)"
    using inv by (simp_all add: udp_inv_def)
qed

text \<open>One client's datagram: it has left on the client's socket, for the remote.\<close>

theorem udp_isolation_witness:
  "\<exists>s :: udp_state. mset (map (wire_item (us_made s)) (us_sent s)) = {# (Some (SockV4 9 9), Some (SockV4 1 1), [1, 2]) #} \<and>
     mset (us_recv s) = mset (map (wire_item (us_made s)) (us_sent s)) + mset (us_lost s) + mset (pending (us_pc s))"
proof -
  let ?sc = "RecvMany [SysOk [([1, 2], SockV4 1 1)]]" and ?l = "NoLookup (SockV4 9 9)"
  have e: "us_pc (udp_start True) = AtRecv" "script_ok ?sc" "delivered ?sc = [([1, 2], SockV4 1 1)]" "dest_of (Inr ?l) = Some (SockV4 9 9)"
    by (simp_all add: udp_start_def dest_of_Inr MAX_PACKETS_def)
  have ne: "delivered ?sc \<noteq> []" using e(3) by simp
  note d = delivery [OF udp_inv_start e(1,2) ne e(4), where multi = False and ?o1.0 = "demo_opts BalOff"]
  obtain evs t where t: "list_all quiet evs" "udp_run False True (demo_opts BalOff) (EvRecv ?sc (Inr ?l) # evs) (udp_start True) = Some t"
    "us_pc t = AtRecv" using d(1) by blast
  have "list_all event_ok (EvRecv ?sc (Inr ?l) # evs)" using t(1) e(2) quiet_ok by (auto simp: list_all_iff)
  note iso = udp_isolation [OF udp_run_steps [OF t(2) this]]
  have "mset (map (wire_item (us_made t)) (us_sent t)) = {# (Some (SockV4 9 9), Some (SockV4 1 1), [1, 2]) #}"
    using d(2) [OF t] unfolding e(3) by (auto simp: udp_start_def datagram_entry_def PACKET_SIZE_def)
  then show ?thesis using iso by - (rule exI [where x = t], simp only: simp_thms)
qed

text \<open>
  C26: A batch is delivered: in any reachable state that waits for clients, when the network hands in datagrams (up to
  128 at once with batching, one without), the remote's name resolves to at least one address, and after that the
  socket calls and the sends of this task succeed, then it can run to its next receive, and whenever it is there,
  whatever the tasks that send answers back met in between, exactly these datagrams have left, each once,
  cut to 1500 bytes, on the socket of its sender and for the first of the addresses, and nothing was dropped.
\<close>
theorem udp_delivers:
  assumes "udp_steps multi batched o1 (udp_start batched) s" "us_pc s = AtRecv" "script_ok script" "delivered script \<noteq> []"
    and "iter_collect (iter_of l) = raddr # others"
  shows "(\<exists>evs t. list_all quiet evs \<and> udp_run multi batched o1 (EvRecv script (Inr l) # evs) s = Some t \<and> us_pc t = AtRecv) \<and>
    (\<forall>evs t. list_all quiet evs \<and> udp_run multi batched o1 (EvRecv script (Inr l) # evs) s = Some t \<and> us_pc t = AtRecv \<longrightarrow>
       us_lost t = us_lost s \<and> (\<exists>new. us_sent t = us_sent s @ new \<and>
         mset (map (wire_item (us_made t)) new) = mset (map (\<lambda>d. (Some raddr, datagram_entry d)) (delivered script))))"
proof -
  have "dest_of (Inr l) = Some raddr" using assms(5) by (simp add: dest_of_def)
  from delivery [OF udp_steps_start_inv(1) [OF assms(1)] assms(2-4) this] show ?thesis by blast
qed

theorem udp_delivers_witness:
  "\<exists>evs t. list_all quiet evs \<and>
     udp_run True True (demo_opts BalOff)
       (EvRecv (RecvMany [SysOk [([1, 2], SockV4 1 1), ([3], SockV4 2 2)]]) (Inr (DoLookup [IpV4 9, IpV4 8] 53)) # evs)
       (udp_start True) = Some t \<and>
     mset (map (wire_item (us_made t)) (us_sent t)) =
       mset [(Some (SockV4 9 53), Some (SockV4 1 1), [1, 2]), (Some (SockV4 9 53), Some (SockV4 2 2), [3])]"
proof -
  let ?sc = "RecvMany [SysOk [([1, 2], SockV4 1 1), ([3], SockV4 2 2)]]"
  have e: "map (\<lambda>d. (Some (SockV4 9 53), datagram_entry d)) (delivered ?sc) =
      [(Some (SockV4 9 53), Some (SockV4 1 1), [1, 2]), (Some (SockV4 9 53), Some (SockV4 2 2), [3])]"
    by (simp add: datagram_entry_def PACKET_SIZE_def MAX_PACKETS_def)
  have p: "us_pc (udp_start True) = AtRecv" "script_ok ?sc" "delivered ?sc \<noteq> []" "us_sent (udp_start True) = []"
    "iter_collect (iter_of (DoLookup [IpV4 9, IpV4 8] 53)) = SockV4 9 53 # [SockV4 8 53]"
    by (simp_all add: udp_start_def MAX_PACKETS_def iter_collect_DoLookup)
  note d = udp_delivers [OF udp_stays p(1-3,5), of True "demo_opts BalOff", unfolded e]
  then obtain evs t where t: "list_all quiet evs" "us_pc t = AtRecv"
    "udp_run True True (demo_opts BalOff) (EvRecv ?sc (Inr (DoLookup [IpV4 9, IpV4 8] 53)) # evs) (udp_start True) = Some t"
    by blast
  with d p(4) show ?thesis by (metis append_Nil)
qed

text \<open>
  C28: Associations and tasks, on a runtime with one thread: each client in the table has a task that sends its
  answers back, and a client never has two tasks (with any number of threads).
\<close>
theorem udp_associations:
  assumes "udp_steps multi batched o1 (udp_start batched) s"
  shows "(\<not> multi \<and> sm_find (us_map s) c = Some i \<longrightarrow> has_task s i c) \<and>
    (has_task s i c \<and> has_task s j c \<longrightarrow> i = j)"
proof (intro conjI impI; elim conjE)
  show "has_task s i c" if "\<not> multi" "sm_find (us_map s) c = Some i"
    using udp_steps_manned [of batched o1 "udp_start batched" s] assms that udp_inv_start udp_start_live(2)
    by (simp add: udp_manned_def)
  show "i = j" if "has_task s i c" "has_task s j c"
    by (rule udp_live_unique [OF udp_steps_start_inv(2) [OF assms] that])
qed

theorem udp_associations_witness:
  "\<exists>s c i. udp_steps False False (demo_opts BalOff) (udp_start False) s \<and> sm_find (us_map s) c = Some i \<and> has_task s i c"
proof -
  obtain s raddr l i pkts gs where s: "udp_steps False False (demo_opts BalOff) (udp_start False) s"
    "us_pc s = AtInsert raddr l i pkts gs"
    using reach_insert by blast
  let ?t = "s\<lparr>us_map := sm_insert l i (us_map s), us_pc := AtSend raddr i pkts gs\<rparr>"
  have "udp_step False False (demo_opts BalOff) EvInsert s = Some ?t"
    using s(2) by (simp add: udp_step_def relay_insert_def)
  then have t: "udp_steps False False (demo_opts BalOff) (udp_start False) ?t"
    by (rule udp_more [OF s(1), rotated]) simp
  have f: "sm_find (us_map ?t) l = Some i" by (simp add: sm.lookup_insert)
  have "has_task ?t i l" using udp_associations [OF t] f by blast
  with f t show ?thesis by blast
qed

text \<open>
  C29: With several threads the association can outlive its task for ever: the task is spawned before the
  socket is inserted, and if it ends first it removes nothing; the entry that is then inserted has no task,
  so the client's packets are forwarded but no answer ever comes back and the association never expires.
\<close>
theorem udp_association_without_task:
  "\<exists>s c i. udp_steps True batched o1 (udp_start batched) s \<and> sm_find (us_map s) c = Some i \<and>
     {t. udp_steps True batched o1 s t} \<subseteq> {t. sm_find (us_map t) c = Some i \<and> us_tasks t i = None}"
proof -
  obtain s2 raddr l i pkts gs where s2: "udp_steps True batched o1 (udp_start batched) s2"
    "us_pc s2 = AtInsert raddr l i pkts gs" "us_tasks s2 i = Some \<lparr>bt_laddr = l, bt_reg = registry_new batched MAX_PACKETS\<rparr>"
    using reach_insert by blast
  let ?t = "\<lparr>bt_laddr = l, bt_reg = registry_new batched MAX_PACKETS\<rparr>"
  let ?s3 = "back_end i ?t s2"
  have "batched_recv_on (recv_some (RecvMany [SysErr TimedOut])) (registry_new batched MAX_PACKETS)
      = Inr (Ready (Inl TimedOut), registry_new batched MAX_PACKETS)"
    by (simp add: batched_recv_on_def linux_recv_some_eq)
  then have 3: "udp_step True batched o1 (EvBack i (RecvMany [SysErr TimedOut]) False (SendMany [])) s2 = Some ?s3"
    using s2(2,3) by (simp add: udp_step_def back_step_def with_timeout_def del: recv_some.simps)
  let ?s4 = "?s3\<lparr>us_map := sm_insert l i (us_map ?s3), us_pc := AtSend raddr i pkts gs\<rparr>"
  have 4: "udp_step True batched o1 EvInsert ?s3 = Some ?s4"
    using s2(2) by (simp add: udp_step_def relay_insert_def back_end_def)
  have st: "udp_steps True batched o1 (udp_start batched) ?s4"
    by (rule udp_more [OF udp_more [OF s2(1) _ 3] _ 4]) simp_all
  have f: "sm_find (us_map ?s4) l = Some i" "us_tasks ?s4 i = None"
    by (simp_all add: sm.lookup_insert back_end_def)
  have "{t. udp_steps True batched o1 ?s4 t} \<subseteq> {t. sm_find (us_map t) l = Some i \<and> us_tasks t i = None}"
    using stale_steps [OF _ udp_steps_start_inv [OF st] f] by blast
  with st f(1) show ?thesis by blast
qed

text \<open>
  C30: The panics of the udp relay: it starts unless its socket cannot be bound, which is a panic; after that the only one
  is the \<^verbatim>\<open>unwrap\<close> of the first resolved address, and a step from a reachable state ends in it exactly when it
  received a batch and the remote's name resolved to no address.
\<close>
theorem udp_panic:
  assumes "event_ok ev" "udp_step multi batched o1 ev s = Some s'"
  shows "(fst (udp_bind os (ep_laddr ep) (ep_bind_opts ep)) \<noteq> None \<longleftrightarrow> (\<exists>p. run_udp os batched ep = Inl p)) \<and>
    (\<forall>s0. run_udp os batched ep = Inr s0 \<and> udp_steps multi batched o1 s0 s \<longrightarrow>
       (halted (us_pc s') \<longleftrightarrow> (\<exists>script port. ev = EvRecv script (Inr (DoLookup [] port)) \<and> us_recv s' \<noteq> us_recv s)))"
proof (intro conjI allI impI)
  show "fst (udp_bind os (ep_laddr ep) (ep_bind_opts ep)) \<noteq> None \<longleftrightarrow> (\<exists>p. run_udp os batched ep = Inl p)"
    by (auto simp: run_udp_def split: option.split)
  fix s0 assume "run_udp os batched ep = Inr s0 \<and> udp_steps multi batched o1 s0 s"
  then have "udp_steps multi batched o1 (udp_start batched) s" by (auto simp: run_udp_def split: option.splits)
  then show "halted (us_pc s') \<longleftrightarrow> (\<exists>script port. ev = EvRecv script (Inr (DoLookup [] port)) \<and> us_recv s' \<noteq> us_recv s)"
    using udp_step_halts [OF udp_steps_start_inv(1) assms] empty_lookup_halts [OF assms(2)] by blast
qed

theorem udp_panic_witness:
  "\<exists>s'. udp_step False True (demo_opts BalOff) (EvRecv (RecvMany [SysOk [([1], SockV4 1 1)]]) (Inr (DoLookup [] 80)))
      (udp_start True) = Some s' \<and> halted (us_pc s')"
proof -
  let ?sc = "RecvMany [SysOk [([1], SockV4 1 1)]]" and ?r = "Inr (DoLookup [] 80)"
  let ?ep = "\<lparr>ep_laddr = SockV4 0 53, ep_raddr = DomainName ''a'' 80,
      ep_bind_opts = \<lparr>bo_ipv6_only = False, bo_accept_mptcp = False, bo_bind_interface = None\<rparr>,
      ep_conn_opts = demo_opts BalOff, ep_extra_raddrs = []\<rparr>"
  have p: "us_pc (udp_start True) = AtRecv" "script_ok ?sc" "delivered ?sc \<noteq> []"
    by (simp_all add: udp_start_def MAX_PACKETS_def)
  obtain s' where s': "udp_step False True (demo_opts BalOff) (EvRecv ?sc ?r) (udp_start True) = Some s'"
    "us_recv s' = us_recv (udp_start True) @ map (\<lambda>d. (dest_of ?r, datagram_entry d)) (delivered ?sc)"
    using recv_step [OF udp_inv_start p, where multi = False and ?o1.0 = "demo_opts BalOff" and resolved = ?r] by blast
  have ok: "event_ok (EvRecv ?sc ?r)" by simp
  have run: "run_udp (\<lambda>_ _. None) True ?ep = Inr (udp_start True)"
    by (simp add: run_udp_def udp_bind_def run_calls_quiet)
  have "us_recv s' \<noteq> us_recv (udp_start True)" using s'(2) p(3) by simp
  then have "halted (us_pc s')" using udp_panic [OF ok s'(1)] run udp_stays by blast
  then show ?thesis using s'(1) by blast
qed

end
