(* ===== verification/Simulation.thy ===== *)
theory Simulation
  imports Main
begin

text \<open>
  Refinement between step relations: a detailed one implements an abstract one when each of its steps, from a state
  that satisfies its invariant, is a sequence of abstract steps, none included.
\<close>

locale simulation =
  fixes step :: "'s \<Rightarrow> 's \<Rightarrow> bool"
    and abs_step :: "'a \<Rightarrow> 'a \<Rightarrow> bool"
    and abs_of :: "'s \<Rightarrow> 'a"
    and inv :: "'s \<Rightarrow> bool"
  assumes keeps: "inv s \<Longrightarrow> step s t \<Longrightarrow> inv t"
    and simulates: "inv s \<Longrightarrow> step s t \<Longrightarrow> abs_step\<^sup>*\<^sup>* (abs_of s) (abs_of t)"
begin

lemma run:
  assumes "step\<^sup>*\<^sup>* s t" "inv s"
  shows "inv t" "abs_step\<^sup>*\<^sup>* (abs_of s) (abs_of t)"
proof -
  have "inv t \<and> abs_step\<^sup>*\<^sup>* (abs_of s) (abs_of t)"
    using assms by (induction rule: rtranclp_induct) (auto intro: keeps rtranclp_trans dest: simulates)
  then show "inv t" "abs_step\<^sup>*\<^sup>* (abs_of s) (abs_of t)" by simp_all
qed

text \<open>What the abstract steps keep holds of every state that the detailed ones reach.\<close>

lemma carries:
  assumes "step\<^sup>*\<^sup>* s t" "inv s" "P (abs_of s)" and "\<And>a b. abs_step a b \<Longrightarrow> P a \<Longrightarrow> P b"
  shows "P (abs_of t)"
  using run(2) [OF assms(1,2)] assms(3) by (induction rule: rtranclp_induct) (auto intro: assms(4))

end

end
