(* ===== verification/Udp_Spec.thy ===== *)
theory Udp_Spec
  imports Udp_Relay Simulation
begin

text \<open>
  What the udp relay promises, as an abstract forwarder without registries, groups, program counters or a
  table, and the proof that the relay's tasks implement it in every interleaving.
\<close>

section \<open>The forwarder\<close>

text \<open>
  Its sessions are numbered; each is opened for one client, which owns it for ever, and is live until it is
  closed. \<open>fw_waiting\<close> holds the items that came in and were neither forwarded nor lost. The packets of
  \<open>fw_sent\<close> and \<open>fw_back\<close> are those on the wire, with the session they left on.
\<close>

record forwarder =
  fw_live :: "nat \<rightharpoonup> sock_addr"
  fw_owner :: "nat \<rightharpoonup> sock_addr"
  fw_recv :: "item list"
  fw_waiting :: "item multiset"
  fw_sent :: "(nat \<times> packet_ref) list"
  fw_lost :: "item list"
  fw_replies :: "(nat \<times> bytes) list"
  fw_back :: "(nat \<times> packet_ref) list"

definition fw_init :: forwarder where
  "fw_init = \<lparr>fw_live = (\<lambda>_. None), fw_owner = (\<lambda>_. None), fw_recv = [], fw_waiting = {#}, fw_sent = [],
     fw_lost = [], fw_replies = [], fw_back = []\<rparr>"

text \<open>
  Datagrams come in and wait for the first address that the remote resolves to. A session opens for a client that
  has no live one. It forwards waiting items of its own client only, in one go to one address, each with its bytes to
  the address it waits for; while it lives, answers come in on it, and the first ones of them go to its client.
\<close>

definition forwards :: "(nat \<rightharpoonup> sock_addr) \<Rightarrow> nat \<Rightarrow> packet_ref list \<Rightarrow> item multiset" where
  "forwards owner i prs = mset (map (wire_item owner) (map (Pair i) prs))"

inductive fw_step :: "forwarder \<Rightarrow> forwarder \<Rightarrow> bool" where
  fw_receive: "its = map (\<lambda>d. (dest_of resolved, datagram_entry d)) ds
    \<Longrightarrow> fw_step f (f\<lparr>fw_recv := fw_recv f @ its, fw_waiting := fw_waiting f + mset its\<rparr>)"
| fw_drop: "mset its \<subseteq># fw_waiting f
    \<Longrightarrow> fw_step f (f\<lparr>fw_lost := fw_lost f @ its, fw_waiting := fw_waiting f - mset its\<rparr>)"
| fw_open: "c \<notin> ran (fw_live f) \<Longrightarrow> fw_owner f i = None
    \<Longrightarrow> fw_step f (f\<lparr>fw_live := (fw_live f)(i \<mapsto> c), fw_owner := (fw_owner f)(i \<mapsto> c)\<rparr>)"
| fw_close: "fw_live f i = Some c \<Longrightarrow> fw_step f (f\<lparr>fw_live := (fw_live f)(i := None)\<rparr>)"
| fw_forward: "fw_owner f i = Some c \<Longrightarrow> \<forall>pr \<in> set prs. pr_addr pr = Some raddr \<Longrightarrow> forwards (fw_owner f) i prs \<subseteq># fw_waiting f
    \<Longrightarrow> fw_step f (f\<lparr>fw_sent := fw_sent f @ map (Pair i) prs, fw_waiting := fw_waiting f - forwards (fw_owner f) i prs\<rparr>)"
| fw_answer: "fw_live f i = Some c
    \<Longrightarrow> fw_step f (f\<lparr>fw_replies := fw_replies f @ map (Pair i) bss,
                       fw_back := fw_back f @ map (Pair i) (map (answer c) (take n bss))\<rparr>)"

text \<open>What every run of it keeps.\<close>

definition fw_sound :: "forwarder \<Rightarrow> bool" where
  "fw_sound f \<longleftrightarrow>
     fw_live f \<subseteq>\<^sub>m fw_owner f \<and> inj_on (fw_live f) (dom (fw_live f)) \<and>
     on_made (fw_owner f) (fw_sent f) \<and>
     mset (fw_recv f) = mset (map (wire_item (fw_owner f)) (fw_sent f)) + mset (fw_lost f) + fw_waiting f \<and>
     served (fw_owner f) (map (\<lambda>(i, pr). (i, pr_addr pr)) (fw_back f)) \<and>
     mset (map (\<lambda>(i, pr). (i, pr_buf pr)) (fw_back f)) \<subseteq># mset (fw_replies f)"

lemma fw_sound_init: "fw_sound fw_init"
  by (simp add: fw_sound_def fw_init_def)

lemma fw_step_sound:
  assumes "fw_step f g" "fw_sound f"
  shows "fw_sound g"
  using assms
proof (induction rule: fw_step.induct)
  case (fw_open c f i)
  have "inj_on ((fw_live f)(i \<mapsto> c)) (insert i (dom (fw_live f)))"
    using fw_open by (auto simp: fw_sound_def inj_on_def ran_def)
  moreover have "(fw_live f)(i \<mapsto> c) \<subseteq>\<^sub>m (fw_owner f)(i \<mapsto> c)"
    using fw_open by (auto simp: fw_sound_def map_le_def)
  moreover note le = map_le_fresh [where made = "fw_owner f" and i = i and a = c, OF fw_open(2)]
  have "on_made ((fw_owner f)(i \<mapsto> c)) (fw_sent f)" using on_made_mono [OF le] fw_open(3) by (simp add: fw_sound_def)
  moreover have "image_mset (wire_item ((fw_owner f)(i \<mapsto> c))) (mset (fw_sent f)) = image_mset (wire_item (fw_owner f)) (mset (fw_sent f))"
    using wire_items_mono [OF le] fw_open(3) by (simp add: fw_sound_def)
  moreover have "served ((fw_owner f)(i \<mapsto> c)) (map (\<lambda>(i, pr). (i, pr_addr pr)) (fw_back f))"
    using served_more [where made = "fw_owner f" and i = i] fw_open(2,3) by (simp add: fw_sound_def)
  ultimately show ?case using fw_open(3) by (simp add: fw_sound_def)
next
  case (fw_close f i c)
  then show ?case by (auto simp: fw_sound_def map_le_def inj_on_def)
next
  case (fw_forward f i c prs raddr)
  then have "on_made (fw_owner f) (map (Pair i) prs)" by (simp add: on_made_def)
  then show ?case using fw_forward by (simp add: fw_sound_def forwards_def)
next
  case (fw_answer f i c n bss)
  then have "fw_owner f i = Some c" by (metis domI fw_sound_def map_le_def)
  then have "served (fw_owner f) (map (\<lambda>(i, pr). (i, pr_addr pr)) (map (Pair i) (map (answer c) (take n bss))))"
    by (auto simp: served_def answer_def)
  then show ?case using fw_answer answers_received [of "fw_back f" "fw_replies f" i c n bss]
    by (simp add: fw_sound_def del: map_map)
qed (simp_all add: fw_sound_def)

section \<open>The relay as a forwarder\<close>

text \<open>
  A live session is a socket whose \<^verbatim>\<open>send_back\<close> task runs; what waits is what the main task still has to
  forward of its batch.
\<close>

definition fw_of :: "udp_state \<Rightarrow> forwarder" where
  "fw_of s =
     \<lparr>fw_live = (\<lambda>i. map_option bt_laddr (us_tasks s i)), fw_owner = us_made s, fw_recv = us_recv s,
      fw_waiting = mset (pending (us_pc s)), fw_sent = us_sent s, fw_lost = us_lost s, fw_replies = us_replies s,
      fw_back = us_back s\<rparr>"

lemma fw_of_start: "fw_of (udp_start batched) = fw_init"
  by (simp add: fw_of_def udp_start_def fw_init_def)

lemma fw_of_lost:
  assumes "mset dropped = mset (pending pc)"
  shows "fw_step (fw_of (s\<lparr>us_pc := pc\<rparr>)) (fw_of (restart batched dropped s))"
    and "fw_step (fw_of (s\<lparr>us_pc := pc\<rparr>)) (fw_of (crash p dropped s))"
proof -
  let ?f = "fw_of (s\<lparr>us_pc := pc\<rparr>)" and ?es = "dropped"
  have w: "fw_waiting ?f = mset ?es" using assms by (simp add: fw_of_def)
  have "fw_step ?f (?f\<lparr>fw_lost := fw_lost ?f @ ?es, fw_waiting := fw_waiting ?f - mset ?es\<rparr>)"
    by (rule fw_drop) (simp only: w subset_mset.order_refl)
  moreover have "?f\<lparr>fw_lost := fw_lost ?f @ ?es, fw_waiting := fw_waiting ?f - mset ?es\<rparr> = fw_of (restart batched dropped s)"
    and "?f\<lparr>fw_lost := fw_lost ?f @ ?es, fw_waiting := fw_waiting ?f - mset ?es\<rparr> = fw_of (crash p dropped s)"
    unfolding w by (simp_all add: fw_of_def restart_def crash_def)
  ultimately show "fw_step ?f (fw_of (restart batched dropped s))" "fw_step ?f (fw_of (crash p dropped s))"
    by simp_all
qed

lemma failed_batch_refines:
  assumes "us_pc s = AtRecv" "s1 = s\<lparr>us_reg := r, us_recv := us_recv s @ its\<rparr>"
    and "its = map (\<lambda>d. (dest_of resolved, datagram_entry d)) ds"
  shows "fw_step\<^sup>*\<^sup>* (fw_of s) (fw_of (restart batched its s1))" "fw_step\<^sup>*\<^sup>* (fw_of s) (fw_of (crash p its s1))"
proof -
  let ?f = "(fw_of s)\<lparr>fw_recv := fw_recv (fw_of s) @ its, fw_waiting := fw_waiting (fw_of s) + mset its\<rparr>"
  let ?g = "?f\<lparr>fw_lost := fw_lost ?f @ its, fw_waiting := fw_waiting ?f - mset its\<rparr>"
  have "fw_step (fw_of s) ?f" by (rule fw_receive [OF assms(3)])
  moreover have "fw_step ?f ?g" by (rule fw_drop) simp
  ultimately have "fw_step\<^sup>*\<^sup>* (fw_of s) ?g" by (rule converse_rtranclp_into_rtranclp [OF _ r_into_rtranclp])
  moreover have "?g = fw_of (restart batched its s1)" "?g = fw_of (crash p its s1)"
    using assms(1,2) by (simp_all add: fw_of_def restart_def crash_def)
  ultimately show "fw_step\<^sup>*\<^sup>* (fw_of s) (fw_of (restart batched its s1))" "fw_step\<^sup>*\<^sup>* (fw_of s) (fw_of (crash p its s1))"
    by simp_all
qed

lemma relay_recv_refines:
  assumes "udp_inv s" "relay_recv batched script resolved s = Some s'" "script_ok script"
  shows "fw_step\<^sup>*\<^sup>* (fw_of s) (fw_of s')"
proof -
  have pc: "us_pc s = AtRecv" using assms(2) by (auto simp: relay_recv_def split: if_splits)
  from assms show ?thesis
  proof (cases rule: relay_recv_cases)
    case failed
    then have "fw_of s' = fw_of s" using pc by (simp add: restart_def fw_of_def)
    then show ?thesis by simp
  next
    case (unresolved r its)
    then show ?thesis using failed_batch_refines [OF pc refl unresolved(2)] by blast
  next
    case (got r raddr gs)
    let ?its = "map (\<lambda>d. (dest_of resolved, datagram_entry d)) (delivered script)"
    have "fw_of s' = (fw_of s)\<lparr>fw_recv := fw_recv (fw_of s) @ ?its, fw_waiting := fw_waiting (fw_of s) + mset ?its\<rparr>"
      using got pc by (simp add: fw_of_def)
    then show ?thesis using fw_receive [OF refl, of "fw_of s" resolved "delivered script"] by (simp add: r_into_rtranclp)
  qed
qed

lemma relay_group_refines:
  assumes "udp_inv s" "udp_live s" "relay_group batched os o1 s = Some s'"
  shows "fw_step\<^sup>*\<^sup>* (fw_of s) (fw_of s')"
proof -
  obtain raddr gs where pc: "us_pc s = AtGroups raddr gs"
    using assms(3) by (auto simp: relay_group_def split: relay_pc.splits)
  then have s0: "s\<lparr>us_pc := AtGroups raddr gs\<rparr> = s" by simp
  show ?thesis
  proof (cases gs)
    case Nil
    then have "fw_of s' = fw_of s" using assms(3) pc by (auto simp: relay_group_def fw_of_def)
    then show ?thesis by simp
  next
    case (Cons pkts gs')
    then have "group_ok pkts" using assms(1) pc by (simp add: udp_inv_def)
    then obtain l where l: "group_laddr pkts = Inr l" using group_laddr_ok by blast
    consider (found) i where "sm_find (us_map s) l = Some i"
      | (failed) e where "sm_find (us_map s) l = None" "fst (udp_associate os raddr o1) = Some e"
      | (made) "sm_find (us_map s) l = None" "fst (udp_associate os raddr o1) = None"
      by fastforce
    then show ?thesis
    proof cases
      case found
      then have "fw_of s' = fw_of s" using assms(3) pc Cons l by (auto simp: relay_group_def fw_of_def)
      then show ?thesis by simp
    next
      case failed
      then have "s' = restart batched (pending (us_pc s)) s" using assms(3) pc Cons l by (simp add: relay_group_def)
      then show ?thesis using fw_of_lost(1) [where s = s and pc = "us_pc s" and dropped = "pending (us_pc s)" and batched = batched]
        by (auto intro: r_into_rtranclp)
    next
      case made
      let ?i = "us_next s"
      have s': "s' = (make_association batched l s)\<lparr>us_pc := AtInsert raddr l ?i pkts gs'\<rparr>"
        using assms(3) pc Cons l made by (simp add: relay_group_def)
      have "sm_find (us_map s) (bt_laddr t) = Some j" if "us_tasks s j = Some t" for j t
        using assms(2) that pc by (simp add: udp_live_def)
      then have "bt_laddr t \<noteq> l" if "us_tasks s j = Some t" for j t using that made(1) by fastforce
      then have "l \<notin> ran (fw_live (fw_of s))" by (auto simp: fw_of_def ran_def)
      moreover have "fw_owner (fw_of s) ?i = None" using assms(1) by (simp add: udp_inv_def fw_of_def)
      ultimately have "fw_step (fw_of s) ((fw_of s)\<lparr>fw_live := (fw_live (fw_of s))(?i \<mapsto> l), fw_owner := (fw_owner (fw_of s))(?i \<mapsto> l)\<rparr>)"
        by (rule fw_open)
      moreover have "fw_of s' = (fw_of s)\<lparr>fw_live := (fw_live (fw_of s))(?i \<mapsto> l), fw_owner := (fw_owner (fw_of s))(?i \<mapsto> l)\<rparr>"
        using pc Cons unfolding s' by (auto simp: fw_of_def make_association_def fun_eq_iff)
      ultimately show ?thesis by simp
    qed
  qed
qed

lemma relay_insert_refines: "relay_insert s = Some s' \<Longrightarrow> fw_of s' = fw_of s"
  by (auto simp: relay_insert_def fw_of_def split: relay_pc.splits)

lemma relay_send_refines:
  assumes "udp_inv s" "relay_send batched script s = Some s'"
  shows "fw_step\<^sup>*\<^sup>* (fw_of s) (fw_of s')"
  using assms
proof (cases rule: relay_send_cases)
  case (1 raddr i c pkts gs n s1)
  let ?prs = "map (ref_with_addr (Some raddr)) (take n pkts)" and ?rest = "map (item_of raddr) (drop n pkts @ concat gs)"
  let ?f = "fw_of (s1\<lparr>us_pc := AtSend raddr i (drop n pkts) gs\<rparr>)"
  have fw: "forwards (fw_owner (fw_of s)) i ?prs = mset (map (item_of raddr) (take n pkts))"
    using arg_cong [OF 1(6), of mset] by (simp add: forwards_def fw_of_def comp_assoc)
  have w: "fw_waiting (fw_of s) = mset (map (item_of raddr) (take n pkts)) + mset ?rest"
  proof -
    have "fw_waiting (fw_of s) = mset (map (item_of raddr) (pkts @ concat gs))" using 1(1) by (simp add: fw_of_def)
    also have "pkts @ concat gs = take n pkts @ (drop n pkts @ concat gs)" by simp
    finally show ?thesis by (simp only: map_append mset_append)
  qed
  have "fw_step (fw_of s) ((fw_of s)\<lparr>fw_sent := fw_sent (fw_of s) @ map (Pair i) ?prs,
      fw_waiting := fw_waiting (fw_of s) - forwards (fw_owner (fw_of s)) i ?prs\<rparr>)"
  proof (rule fw_forward)
    show "fw_owner (fw_of s) i = Some c" using 1(2) by (simp add: fw_of_def)
    show "\<forall>pr \<in> set ?prs. pr_addr pr = Some raddr" by (auto simp: ref_with_addr_def)
    show "forwards (fw_owner (fw_of s)) i ?prs \<subseteq># fw_waiting (fw_of s)" unfolding fw w by (rule mset_subset_eq_add_left)
  qed
  moreover have "(fw_of s)\<lparr>fw_sent := fw_sent (fw_of s) @ map (Pair i) ?prs,
      fw_waiting := fw_waiting (fw_of s) - forwards (fw_owner (fw_of s)) i ?prs\<rparr> = ?f"
    unfolding fw w 1(5) by (simp add: fw_of_def)
  ultimately have fwd: "fw_step (fw_of s) ?f" by simp
  show ?thesis using 1(7)
  proof
    assume s': "s' = restart batched ?rest s1"
    have "fw_step ?f (fw_of (restart batched ?rest s1))"
      by (rule fw_of_lost(1)) simp
    then show ?thesis using fwd s' by (simp add: converse_rtranclp_into_rtranclp r_into_rtranclp)
  next
    assume "length pkts \<le> n \<and> s' = s1\<lparr>us_pc := AtGroups raddr gs\<rparr>"
    then have "fw_of s' = ?f" by (simp add: fw_of_def)
    then show ?thesis using fwd by (simp add: r_into_rtranclp)
  qed
qed

lemma back_step_refines:
  assumes "udp_inv s" "back_step o1 i script expired sends s = Some s'" "script_ok script"
  shows "fw_step\<^sup>*\<^sup>* (fw_of s) (fw_of s')"
proof -
  obtain t0 t c bss n s1 where t: "us_tasks s i = Some t0" "bt_laddr t = bt_laddr t0"
    "s1 = s\<lparr>us_replies := us_replies s @ map (Pair i) bss, us_back := us_back s @ map (Pair i) (map (answer c) (take n bss))\<rparr>"
    "bt_laddr t0 = c" "s' = back_end i t s1 \<or> s' = s1\<lparr>us_tasks := (us_tasks s)(i \<mapsto> t)\<rparr>"
    using back_step_shape [OF assms] by metis
  have live: "fw_live (fw_of s) i = Some c" using t(1,4) by (simp add: fw_of_def)
  have "fw_of s1 = (fw_of s)\<lparr>fw_replies := fw_replies (fw_of s) @ map (Pair i) bss,
      fw_back := fw_back (fw_of s) @ map (Pair i) (map (answer c) (take n bss))\<rparr>" using t(3) by (simp add: fw_of_def)
  then have ans: "fw_step (fw_of s) (fw_of s1)" using fw_answer [OF live, of n bss] by simp
  have "fw_of (back_end i t s1) = (fw_of s1)\<lparr>fw_live := (fw_live (fw_of s1))(i := None)\<rparr>"
    by (auto simp: fw_of_def back_end_def)
  moreover have "fw_live (fw_of s1) i = Some c" using live t(3) by (simp add: fw_of_def)
  ultimately have close: "fw_step (fw_of s1) (fw_of (back_end i t s1))" using fw_close by simp
  show ?thesis using t(5)
  proof
    assume "s' = back_end i t s1"
    then show ?thesis using ans close by (simp add: converse_rtranclp_into_rtranclp r_into_rtranclp)
  next
    assume "s' = s1\<lparr>us_tasks := (us_tasks s)(i \<mapsto> t)\<rparr>"
    then have "fw_of s' = fw_of s1" using t(1-3) by (auto simp: fw_of_def)
    then show ?thesis using ans by (simp add: r_into_rtranclp)
  qed
qed

lemma udp_step_refines:
  assumes "udp_inv s" "udp_live s" "event_ok ev" "udp_step multi batched o1 ev s = Some s'"
  shows "fw_step\<^sup>*\<^sup>* (fw_of s) (fw_of s')"
proof -
  have e: "udp_event_step multi batched o1 ev s = Some s'" using assms(4) by (simp add: udp_step_def split: if_splits)
  show ?thesis
    using e assms(1-3) relay_recv_refines relay_group_refines relay_send_refines back_step_refines
    by (cases ev) (auto simp: relay_insert_refines split: if_splits)
qed

text \<open>The refinement, as an instance of the general one.\<close>

definition udp_moves :: "bool \<Rightarrow> bool \<Rightarrow> connect_opts \<Rightarrow> udp_state \<Rightarrow> udp_state \<Rightarrow> bool" where
  "udp_moves multi batched o1 s t \<longleftrightarrow> (\<exists>ev. event_ok ev \<and> udp_step multi batched o1 ev s = Some t)"

interpretation relay: simulation "udp_moves multi batched o1" fw_step fw_of "\<lambda>s. udp_inv s \<and> udp_live s"
  for multi batched o1
  by unfold_locales (auto simp: udp_moves_def intro: udp_step_inv udp_step_live udp_step_refines)

lemma udp_steps_moves: "udp_steps multi batched o1 s t \<Longrightarrow> (udp_moves multi batched o1)\<^sup>*\<^sup>* s t"
  by (induction rule: udp_steps.induct) (auto simp: udp_moves_def intro: rtranclp.rtrancl_into_rtrancl)

lemma udp_start_ok: "udp_inv (udp_start batched) \<and> udp_live (udp_start batched)"
  by (simp add: udp_inv_start udp_start_live)

text \<open>
  C25: The udp relay implements the abstract forwarder: every reachable state, with any number of threads, is one
  the forwarder reaches from the start, and each step of a task is a sequence of its steps (none when nothing
  observable happens). The forwarder's packets are the relay's packets on the wire. So what the forwarder keeps, the
  relay does: no client has two live sessions, what leaves on a session is what came from its client, for
  the resolved address, and a session answers its client, with answers that came in on it.
\<close>
theorem udp_refines_forwarder:
  assumes "udp_steps multi batched o1 (udp_start batched) s" "event_ok ev" "udp_step multi batched o1 ev s = Some s'"
  shows "fw_step\<^sup>*\<^sup>* fw_init (fw_of s) \<and> fw_step\<^sup>*\<^sup>* (fw_of s) (fw_of s') \<and> fw_sound (fw_of s')"
proof -
  note moves = udp_steps_moves [OF assms(1)]
  have move: "udp_moves multi batched o1 s s'" using assms(2,3) by (auto simp: udp_moves_def)
  have "fw_step\<^sup>*\<^sup>* fw_init (fw_of s)" using relay.run(2) [OF moves udp_start_ok] by (simp add: fw_of_start)
  moreover have "fw_step\<^sup>*\<^sup>* (fw_of s) (fw_of s')" by (rule relay.simulates [OF relay.run(1) [OF moves udp_start_ok] move])
  moreover have "fw_sound (fw_of s')"
    by (rule relay.carries [OF rtranclp.rtrancl_into_rtrancl [OF moves move] udp_start_ok])
      (auto simp: fw_of_start fw_sound_init intro: fw_step_sound)
  ultimately show ?thesis by simp
qed

theorem udp_refines_forwarder_witness:
  "\<exists>s'. udp_step True True (demo_opts BalOff) (EvRecv (RecvMany [SysOk [([1, 2], SockV4 1 1)]]) (Inr (NoLookup (SockV4 9 9))))
      (udp_start True) = Some s' \<and> fw_step\<^sup>*\<^sup>* fw_init (fw_of s') \<and>
      fw_recv (fw_of s') = [(Some (SockV4 9 9), Some (SockV4 1 1), [1, 2])]"
proof -
  let ?sc = "RecvMany [SysOk [([1, 2], SockV4 1 1)]]" and ?r = "Inr (NoLookup (SockV4 9 9))"
  have p: "us_pc (udp_start True) = AtRecv" "script_ok ?sc" "delivered ?sc \<noteq> []"
    by (simp_all add: udp_start_def MAX_PACKETS_def)
  obtain s' where s': "udp_step True True (demo_opts BalOff) (EvRecv ?sc ?r) (udp_start True) = Some s'"
    "us_recv s' = us_recv (udp_start True) @ map (\<lambda>d. (dest_of ?r, datagram_entry d)) (delivered ?sc)"
    using recv_step [OF udp_inv_start p, where multi = True and ?o1.0 = "demo_opts BalOff" and resolved = ?r] by blast
  then have "fw_recv (fw_of s') = [(Some (SockV4 9 9), Some (SockV4 1 1), [1, 2])]"
    by (simp add: fw_of_def udp_start_def datagram_entry_def PACKET_SIZE_def MAX_PACKETS_def dest_of_Inr)
  moreover have "event_ok (EvRecv ?sc ?r)" by simp
  from udp_refines_forwarder [OF udp_stays this s'(1)] have "fw_step\<^sup>*\<^sup>* fw_init (fw_of s')" by auto
  ultimately show ?thesis using s'(1) by blast
qed

end
