(* ===== verification/Raw_IO.thy ===== *)
theory Raw_IO
  imports Zero_Copy Udp_Batch
begin

text \<open>
  The system calls under the readiness loops, \<^verbatim>\<open>AsyncRawIO\<close> of \<^verbatim>\<open>hoorayhug_io/src/linux/mod.rs\<close> and the
  wrappers of \<^verbatim>\<open>linux/mmsg.rs\<close>: return values, \<^verbatim>\<open>errno\<close> and retries. The loops of \<open>Zero_Copy\<close> and
  \<open>Udp_Batch\<close>, which run on scripts of results, are shown to be what these calls give.
\<close>

section \<open>Sockets and readiness\<close>

text \<open>
  The sockets that implement the trait, and which readiness function of tokio each delegates to: the datagram
  sockets go through the \<^verbatim>\<open>workaround\<close> trait.
\<close>

datatype raw_socket = RawTcpStream | RawUnixStream | RawUdpSocket | RawUnixDatagram
datatype ready_fn = PollReadReady | PollWriteReady | PollRecvReady | PollSendReady
datatype io_interest = READABLE | WRITABLE

fun io_ready_read :: "raw_socket \<Rightarrow> ready_fn" where
  "io_ready_read RawUdpSocket = PollRecvReady"
| "io_ready_read RawUnixDatagram = PollRecvReady"
| "io_ready_read _ = PollReadReady"

fun io_ready_write :: "raw_socket \<Rightarrow> ready_fn" where
  "io_ready_write RawUdpSocket = PollSendReady"
| "io_ready_write RawUnixDatagram = PollSendReady"
| "io_ready_write _ = PollWriteReady"

text \<open>What the loops wait for and what they then try.\<close>

definition read_wait :: "raw_socket \<Rightarrow> ready_fn \<times> io_interest" where
  "read_wait s = (io_ready_read s, READABLE)"

definition write_wait :: "raw_socket \<Rightarrow> ready_fn \<times> io_interest" where
  "write_wait s = (io_ready_write s, WRITABLE)"

text \<open>A loop that waited for one direction and tried the other would spin.\<close>

fun ready_interest :: "ready_fn \<Rightarrow> io_interest" where
  "ready_interest PollReadReady = READABLE"
| "ready_interest PollRecvReady = READABLE"
| "ready_interest PollWriteReady = WRITABLE"
| "ready_interest PollSendReady = WRITABLE"

lemma waits_agree:
  "ready_interest (fst (read_wait s)) = snd (read_wait s)" "ready_interest (fst (write_wait s)) = snd (write_wait s)"
  by (cases s; simp add: read_wait_def write_wait_def)+

section \<open>The loop\<close>

text \<open>Linux's numbers; \<open>kind\<close> is the standard library's reading of the others.\<close>

definition EAGAIN :: int where "EAGAIN = 11"
definition EWOULDBLOCK :: int where "EWOULDBLOCK = 11"

definition check_wouldblock :: "(int \<Rightarrow> io_error) \<Rightarrow> int \<Rightarrow> io_error" where
  "check_wouldblock kind errno = (if errno = EWOULDBLOCK \<or> errno = EAGAIN then WouldBlock else kind errno)"

text \<open>
  What one turn of the loop meets: not ready; an error of the readiness; readiness lost before the call, for which
  tokio's \<^verbatim>\<open>try_io\<close> answers \<open>WouldBlock\<close> itself; or a call, with the kernel's side of it, from which
  \<open>syscall\<close> makes the return value and \<^verbatim>\<open>errno\<close>.
\<close>

datatype 'k raw_ev = NotReady | ReadyFails io_error | ReadyLost | Tried 'k

definition try_result :: "(int \<Rightarrow> io_error) \<Rightarrow> int \<times> int \<Rightarrow> nat io_result" where
  "try_result kind r = (case r of (x, errno) \<Rightarrow> if 0 \<le> x then Inr (nat x) else Inl (check_wouldblock kind errno))"

fun poll_raw :: "(int \<Rightarrow> io_error) \<Rightarrow> ('k \<Rightarrow> int \<times> int) \<Rightarrow> 'k raw_ev list \<Rightarrow> nat io_result poll \<times> 'k raw_ev list" where
  "poll_raw kind syscall [] = (Pending, [])"
| "poll_raw kind syscall (NotReady # es) = (Pending, es)"
| "poll_raw kind syscall (ReadyFails e # es) = (Ready (Inl e), es)"
| "poll_raw kind syscall (ReadyLost # es) = poll_raw kind syscall es"
| "poll_raw kind syscall (Tried k # es) =
     (case try_result kind (syscall k) of
        Inr n \<Rightarrow> (Ready (Inr n), es)
      | Inl e \<Rightarrow> if e = WouldBlock then poll_raw kind syscall es else (Ready (Inl e), es))"

lemma poll_raw_shorter: "poll_raw kind syscall es = (p, es') \<Longrightarrow> length es' \<le> length es \<and> (es \<noteq> [] \<longrightarrow> length es' < length es)"
  by (induction kind syscall es rule: poll_raw.induct) (auto split: sum.splits if_splits)

text \<open>Awaiting it: \<^verbatim>\<open>poll_fn\<close> polls until it is ready.\<close>

function await_raw :: "(int \<Rightarrow> io_error) \<Rightarrow> ('k \<Rightarrow> int \<times> int) \<Rightarrow> 'k raw_ev list \<Rightarrow> nat io_result poll \<times> 'k raw_ev list" where
  "await_raw kind syscall es =
     (if es = [] then (Pending, [])
      else case poll_raw kind syscall es of
             (Ready r, es') \<Rightarrow> (Ready r, es')
           | (Pending, es') \<Rightarrow> await_raw kind syscall es')"
  by pat_completeness auto
termination
  by (relation "measure (\<lambda>(kind, syscall, es). length es)") (auto dest: poll_raw_shorter [OF sym])

declare await_raw.simps [simp del]

section \<open>Message calls\<close>

text \<open>
  \<^verbatim>\<open>sendmmsg\<close> and \<^verbatim>\<open>recvmmsg\<close>: the descriptor, the number of headers as 32 bits, no flags and, for
  receiving, no timeout. They return 32 bits, which are widened.
\<close>

datatype mmsg_call = SendMmsg int u32 int | RecvMmsg int u32 int "nat option"

type_synonym 'k kernel = "mmsg_call \<Rightarrow> 'k \<Rightarrow> 32 word \<times> int"

definition sendmpkts :: "'k kernel \<Rightarrow> int \<Rightarrow> nat \<Rightarrow> 'k \<Rightarrow> 32 word \<times> int" where
  "sendmpkts sys fd npkts = sys (SendMmsg fd (of_nat npkts) 0)"

definition recvmpkts :: "'k kernel \<Rightarrow> int \<Rightarrow> nat \<Rightarrow> 'k \<Rightarrow> 32 word \<times> int" where
  "recvmpkts sys fd npkts = sys (RecvMmsg fd (of_nat npkts) 0 None)"

definition as_isize :: "32 word \<times> int \<Rightarrow> int \<times> int" where
  "as_isize r = (case r of (x, errno) \<Rightarrow> (sint x, errno))"

definition poll_sendmpkts ::
  "(int \<Rightarrow> io_error) \<Rightarrow> 'k kernel \<Rightarrow> int \<Rightarrow> nat \<Rightarrow> 'k raw_ev list \<Rightarrow> nat io_result poll \<times> 'k raw_ev list" where
  "poll_sendmpkts kind sys fd npkts = poll_raw kind (\<lambda>k. as_isize (sendmpkts sys fd npkts k))"

definition poll_recvmpkts ::
  "(int \<Rightarrow> io_error) \<Rightarrow> 'k kernel \<Rightarrow> int \<Rightarrow> nat \<Rightarrow> 'k raw_ev list \<Rightarrow> nat io_result poll \<times> 'k raw_ev list" where
  "poll_recvmpkts kind sys fd npkts = poll_raw kind (\<lambda>k. as_isize (recvmpkts sys fd npkts k))"

definition send_mul_pkts ::
  "(int \<Rightarrow> io_error) \<Rightarrow> 'k kernel \<Rightarrow> int \<Rightarrow> nat \<Rightarrow> 'k raw_ev list \<Rightarrow> nat io_result poll \<times> 'k raw_ev list" where
  "send_mul_pkts kind sys fd npkts = await_raw kind (\<lambda>k. as_isize (sendmpkts sys fd npkts k))"

definition recv_mul_pkts ::
  "(int \<Rightarrow> io_error) \<Rightarrow> 'k kernel \<Rightarrow> int \<Rightarrow> nat \<Rightarrow> 'k raw_ev list \<Rightarrow> nat io_result poll \<times> 'k raw_ev list" where
  "recv_mul_pkts kind sys fd npkts = await_raw kind (\<lambda>k. as_isize (recvmpkts sys fd npkts k))"

section \<open>The scripts they make\<close>

definition sys_of :: "(int \<Rightarrow> io_error) \<Rightarrow> ('k \<Rightarrow> int \<times> int) \<Rightarrow> 'k raw_ev \<Rightarrow> nat sys_ev" where
  "sys_of kind syscall ev =
     (case ev of
        NotReady \<Rightarrow> SysWait
      | ReadyFails e \<Rightarrow> SysErr e
      | ReadyLost \<Rightarrow> SysErr WouldBlock
      | Tried k \<Rightarrow> (case try_result kind (syscall k) of Inr n \<Rightarrow> SysOk n | Inl e \<Rightarrow> SysErr e))"

lemma raw_await_poll_raw:
  assumes "poll_raw kind syscall es = (p, es')" "ReadyFails WouldBlock \<notin> set es"
  shows "raw_await (map (sys_of kind syscall) es) =
    (case p of Pending \<Rightarrow> raw_await (map (sys_of kind syscall) es') | Ready r \<Rightarrow> (Ready r, map (sys_of kind syscall) es'))"
    and "set es' \<subseteq> set es"
proof -
  show "raw_await (map (sys_of kind syscall) es) =
    (case p of Pending \<Rightarrow> raw_await (map (sys_of kind syscall) es') | Ready r \<Rightarrow> (Ready r, map (sys_of kind syscall) es'))"
    using assms by (induction kind syscall es rule: poll_raw.induct) (auto simp: sys_of_def split: sum.splits if_splits)
  show "set es' \<subseteq> set es"
    using assms by (induction kind syscall es rule: poll_raw.induct) (auto split: sum.splits if_splits)
qed

lemma await_raw_refines:
  "ReadyFails WouldBlock \<notin> set es \<Longrightarrow>
     raw_await (map (sys_of kind syscall) es) = map_prod id (map (sys_of kind syscall)) (await_raw kind syscall es)"
proof (induction kind syscall es rule: await_raw.induct)
  case (1 kind syscall es)
  show ?case
  proof (cases "es = []")
    case True
    then show ?thesis by (simp add: await_raw.simps)
  next
    case False
    obtain p es' where p: "poll_raw kind syscall es = (p, es')" by (cases "poll_raw kind syscall es")
    note step = raw_await_poll_raw [OF p "1.prems"]
    show ?thesis
    proof (cases p)
      case Pending
      have "ReadyFails WouldBlock \<notin> set es'" using step(2) "1.prems" by blast
      from "1.IH" [OF False p [symmetric] Pending this] show ?thesis
        using step(1) False p Pending by (subst await_raw.simps) (simp add: id_def)
    next
      case (Ready r)
      then show ?thesis using step(1) False p by (subst await_raw.simps) simp
    qed
  qed
qed

text \<open>
  The read script of a stream, as the calls of \<^verbatim>\<open>splice_n\<close> into a pipe with room for \<open>room\<close> bytes:
  an error is a result of -1 with its number.
\<close>

fun raw_of_rd :: "rd_ev \<Rightarrow> rd_ev raw_ev" where
  "raw_of_rd RdPending = NotReady"
| "raw_of_rd ev = Tried ev"

fun splice_in :: "(io_error \<Rightarrow> int) \<Rightarrow> nat \<Rightarrow> rd_ev \<Rightarrow> int \<times> int" where
  "splice_in errno_of room (RdData bs) = (int (min room (length bs)), 0)"
| "splice_in errno_of room (RdErr e) = (-1, errno_of e)"
| "splice_in errno_of room RdPending = (-1, EAGAIN)"

fun spliced :: "bytes io_result poll \<Rightarrow> nat io_result poll" where
  "spliced Pending = Pending"
| "spliced (Ready (Inl e)) = Ready (Inl e)"
| "spliced (Ready (Inr bs)) = Ready (Inr (length bs))"

lemma poll_read_raw_refines:
  assumes "\<forall>e. RdErr e \<in> set (rd_evs s) \<longrightarrow> check_wouldblock kind (errno_of e) = e"
  shows "fst (poll_raw kind (splice_in errno_of room) (map raw_of_rd (rd_evs s))) = spliced (fst (poll_read_raw room s))"
  using assms
proof (induction "rd_evs s" arbitrary: s)
  case Nil
  then have "poll_read room s = (Pending, s)" by (simp add: poll_read_def flip: Nil)
  then show ?case using Nil by (subst poll_read_raw.simps) simp
next
  case (Cons ev evs)
  show ?case
  proof (cases ev)
    case RdPending
    then have "poll_read room s = (Pending, s\<lparr>rd_evs := evs\<rparr>)" by (simp add: poll_read_def flip: Cons.hyps(2))
    then show ?thesis using RdPending by (subst poll_read_raw.simps) (simp flip: Cons.hyps(2))
  next
    case (RdData bs)
    then have "fst (poll_read_raw room s) = Ready (Inr (take room bs))"
      by (subst poll_read_raw.simps) (simp add: poll_read_def flip: Cons.hyps(2))
    then show ?thesis using RdData by (simp add: try_result_def min.commute flip: Cons.hyps(2))
  next
    case (RdErr e)
    have e: "check_wouldblock kind (errno_of e) = e" using Cons.prems RdErr by (simp flip: Cons.hyps(2))
    have IH: "fst (poll_raw kind (splice_in errno_of room) (map raw_of_rd evs)) = spliced (fst (poll_read_raw room (s\<lparr>rd_evs := evs\<rparr>)))"
      using Cons.hyps(1) [of "s\<lparr>rd_evs := evs\<rparr>"] Cons.prems by (simp flip: Cons.hyps(2))
    have "poll_read room s = (Ready (Inl e), s\<lparr>rd_evs := evs\<rparr>)" using RdErr by (simp add: poll_read_def flip: Cons.hyps(2))
    then show ?thesis using RdErr e IH
      by (subst poll_read_raw.simps) (simp add: try_result_def flip: Cons.hyps(2))
  qed
qed

text \<open>The write script, as the calls from a pipe of which \<open>n\<close> bytes may go.\<close>

fun raw_of_wr :: "wr_ev \<Rightarrow> wr_ev raw_ev" where
  "raw_of_wr WrPending = NotReady"
| "raw_of_wr ev = Tried ev"

fun splice_out :: "(io_error \<Rightarrow> int) \<Rightarrow> nat \<Rightarrow> wr_ev \<Rightarrow> int \<times> int" where
  "splice_out errno_of n (WrAccept k) = (int (min k n), 0)"
| "splice_out errno_of n (WrClaim k) = (int k, 0)"
| "splice_out errno_of n (WrErr e) = (-1, errno_of e)"
| "splice_out errno_of n WrPending = (-1, EAGAIN)"

lemma poll_write_raw_refines:
  assumes "\<forall>e. WrErr e \<in> set (wr_evs s) \<longrightarrow> check_wouldblock kind (errno_of e) = e"
  shows "fst (poll_raw kind (splice_out errno_of (length bs)) (map raw_of_wr (wr_evs s))) = fst (poll_write_raw bs s)"
  using assms
proof (induction "wr_evs s" arbitrary: s)
  case Nil
  then have "poll_write bs s = (Pending, s)" by (simp add: poll_write_def flip: Nil)
  then show ?case using Nil by (subst poll_write_raw.simps) simp
next
  case (Cons ev evs)
  show ?case
  proof (cases ev)
    case (WrErr e)
    have e: "check_wouldblock kind (errno_of e) = e" using Cons.prems WrErr by (simp flip: Cons.hyps(2))
    have IH: "fst (poll_raw kind (splice_out errno_of (length bs)) (map raw_of_wr evs)) = fst (poll_write_raw bs (s\<lparr>wr_evs := evs\<rparr>))"
      using Cons.hyps(1) [of "s\<lparr>wr_evs := evs\<rparr>"] Cons.prems by (simp flip: Cons.hyps(2))
    have "poll_write bs s = (Ready (Inl e), s\<lparr>wr_evs := evs\<rparr>)" using WrErr by (simp add: poll_write_def flip: Cons.hyps(2))
    then show ?thesis using WrErr e IH
      by (subst poll_write_raw.simps) (simp add: try_result_def flip: Cons.hyps(2))
  qed (subst poll_write_raw.simps, simp add: poll_write_def try_result_def flip: Cons.hyps(2))+
qed

section \<open>Splicing\<close>

text \<open>
  The call \<^verbatim>\<open>splice\<close>: the two descriptors with their offsets, which are null, the number of bytes and the flags;
  and the two calls of a pipe's buffer, with the ends of the pipe they use.
\<close>

datatype splice_call = Splice int "nat option" int "nat option" nat u32

definition SPLICE_F_MOVE :: u32 where "SPLICE_F_MOVE = 1"
definition SPLICE_F_NONBLOCK :: u32 where "SPLICE_F_NONBLOCK = 2"

definition splice_n :: "(splice_call \<Rightarrow> 'k \<Rightarrow> int \<times> int) \<Rightarrow> int \<Rightarrow> int \<Rightarrow> nat \<Rightarrow> 'k \<Rightarrow> int \<times> int" where
  "splice_n sys r w n = sys (Splice r None w None n (or SPLICE_F_MOVE SPLICE_F_NONBLOCK))"

definition pipe_poll_read ::
  "(int \<Rightarrow> io_error) \<Rightarrow> (splice_call \<Rightarrow> 'k \<Rightarrow> int \<times> int) \<Rightarrow> int \<Rightarrow> pipe copy_buffer \<Rightarrow> 'k raw_ev list
     \<Rightarrow> nat io_result poll \<times> 'k raw_ev list" where
  "pipe_poll_read kind sys fd cb = poll_raw kind (splice_n sys fd (pp_wr (cb_buf cb)) (2 ^ 63 - 1))"

definition pipe_poll_write ::
  "(int \<Rightarrow> io_error) \<Rightarrow> (splice_call \<Rightarrow> 'k \<Rightarrow> int \<times> int) \<Rightarrow> int \<Rightarrow> pipe copy_buffer \<Rightarrow> 'k raw_ev list
     \<Rightarrow> nat io_result poll \<times> 'k raw_ev list" where
  "pipe_poll_write kind sys fd cb = poll_raw kind (splice_n sys (pp_rd (cb_buf cb)) fd (cb_cap cb - cb_pos cb))"

text \<open>
  The kernel's side, for a socket \<open>fd\<close> and a pipe: what goes into the pipe is bounded by its room, what comes out by what
  it holds; the wrong descriptor is the error 9 (\<^verbatim>\<open>EBADF\<close>).
\<close>

fun kernel_in :: "(io_error \<Rightarrow> int) \<Rightarrow> int \<Rightarrow> pipe \<Rightarrow> splice_call \<Rightarrow> rd_ev \<Rightarrow> int \<times> int" where
  "kernel_in errno_of fd p (Splice r _ w _ n fl) ev =
     (if r = fd \<and> w = pp_wr p then splice_in errno_of (min n (pp_cap p - length (pp_data p))) ev else (-1, 9))"

fun kernel_out :: "(io_error \<Rightarrow> int) \<Rightarrow> int \<Rightarrow> pipe \<Rightarrow> splice_call \<Rightarrow> wr_ev \<Rightarrow> int \<times> int" where
  "kernel_out errno_of fd p (Splice r _ w _ n fl) ev =
     (if r = pp_rd p \<and> w = fd then splice_out errno_of (min n (length (pp_data p))) ev else (-1, 9))"

lemma pipe_poll_read_refines:
  assumes "length (pp_data (cb_buf cb)) < pp_cap (cb_buf cb)" "pp_cap (cb_buf cb) < 2 ^ 63"
    and "\<forall>e. RdErr e \<in> set (rd_evs s) \<longrightarrow> check_wouldblock kind (errno_of e) = e"
  shows "fst (pipe_poll_read kind (kernel_in errno_of fd (cb_buf cb)) fd cb (map raw_of_rd (rd_evs s)))
    = fst (zc_poll_read_buf cb s)"
proof -
  define room where "room = pp_cap (cb_buf cb) - length (pp_data (cb_buf cb))"
  have "splice_n (kernel_in errno_of fd (cb_buf cb)) fd (pp_wr (cb_buf cb)) (2 ^ 63 - 1) = splice_in errno_of room"
    using assms(2) by (simp add: splice_n_def room_def fun_eq_iff)
  then have "fst (pipe_poll_read kind (kernel_in errno_of fd (cb_buf cb)) fd cb (map raw_of_rd (rd_evs s)))
      = spliced (fst (poll_read_raw room s))"
    using poll_read_raw_refines [OF assms(3)] by (simp add: pipe_poll_read_def)
  moreover have "fst (zc_poll_read_buf cb s) = spliced (fst (poll_read_raw room s))"
    using assms(1) by (auto simp: zc_poll_read_buf_def room_def Let_def split: prod.splits poll.splits sum.splits)
  ultimately show ?thesis by simp
qed

lemma pipe_poll_write_refines:
  assumes "\<forall>e. WrErr e \<in> set (wr_evs s) \<longrightarrow> check_wouldblock kind (errno_of e) = e"
  shows "fst (pipe_poll_write kind (kernel_out errno_of fd (cb_buf cb)) fd cb (map raw_of_wr (wr_evs s)))
    = fst (zc_poll_write_buf cb s)"
proof -
  define bs where "bs = take (cb_cap cb - cb_pos cb) (pp_data (cb_buf cb))"
  have "splice_n (kernel_out errno_of fd (cb_buf cb)) (pp_rd (cb_buf cb)) fd (cb_cap cb - cb_pos cb) = splice_out errno_of (length bs)"
    by (simp add: splice_n_def bs_def fun_eq_iff min.commute)
  then have "fst (pipe_poll_write kind (kernel_out errno_of fd (cb_buf cb)) fd cb (map raw_of_wr (wr_evs s)))
      = fst (poll_write_raw bs s)"
    using poll_write_raw_refines [OF assms] by (simp add: pipe_poll_write_def)
  moreover have "fst (zc_poll_write_buf cb s) = fst (poll_write_raw bs s)"
    by (auto simp: zc_poll_write_buf_def bs_def Let_def split: prod.splits poll.splits sum.splits)
  ultimately show ?thesis by simp
qed

text \<open>
  C17: The scripts that the models of the relays run on are what the system calls give, retries included:
  awaiting \<^verbatim>\<open>sendmmsg\<close> or \<^verbatim>\<open>recvmmsg\<close> at the level of return values and \<^verbatim>\<open>errno\<close> is awaiting
  the script of results; and the two operations of a pipe's buffer give what \<^verbatim>\<open>splice\<close> gives when it is called with
  the descriptors, the counts and the flags of the code, from the socket to the pipe's writing end and from its reading
  end to the socket.
\<close>
theorem raw_calls_refine:
  assumes "ReadyFails WouldBlock \<notin> set es"
    and "\<forall>e. RdErr e \<in> set (rd_evs s) \<or> WrErr e \<in> set (wr_evs s) \<longrightarrow> check_wouldblock kind (errno_of e) = e"
    and "length (pp_data (cb_buf cb)) < pp_cap (cb_buf cb)" "pp_cap (cb_buf cb) < 2 ^ 63"
  shows "map_prod id (map (sys_of kind (\<lambda>k. as_isize (sendmpkts sys fd n k)))) (send_mul_pkts kind sys fd n es)
      = raw_await (map (sys_of kind (\<lambda>k. as_isize (sendmpkts sys fd n k))) es) \<and>
    map_prod id (map (sys_of kind (\<lambda>k. as_isize (recvmpkts sys fd n k)))) (recv_mul_pkts kind sys fd n es)
      = raw_await (map (sys_of kind (\<lambda>k. as_isize (recvmpkts sys fd n k))) es) \<and>
    fst (pipe_poll_read kind (kernel_in errno_of fd (cb_buf cb)) fd cb (map raw_of_rd (rd_evs s)))
      = fst (zc_poll_read_buf cb s) \<and>
    fst (pipe_poll_write kind (kernel_out errno_of fd (cb_buf cb)) fd cb (map raw_of_wr (wr_evs s)))
      = fst (zc_poll_write_buf cb s)"
proof -
  have e: "\<forall>e. RdErr e \<in> set (rd_evs s) \<longrightarrow> check_wouldblock kind (errno_of e) = e"
    "\<forall>e. WrErr e \<in> set (wr_evs s) \<longrightarrow> check_wouldblock kind (errno_of e) = e"
    using assms(2) by blast+
  show ?thesis
    using await_raw_refines [OF assms(1)] pipe_poll_read_refines [OF assms(3,4) e(1)] pipe_poll_write_refines [OF e(2)]
    by (simp add: send_mul_pkts_def recv_mul_pkts_def)
qed

definition raw_demo :: "(int \<times> int) raw_ev list" where
  "raw_demo = [NotReady, Tried (-1, 11), ReadyLost, NotReady, Tried (7, 0), Tried (-1, 9)]"

definition raw_kernel :: "(int \<times> int) kernel" where
  "raw_kernel c k = (of_int (fst k), snd k)"

definition raw_kind :: "int \<Rightarrow> io_error" where
  "raw_kind n = OtherError ''other''"

definition raw_stream :: stream where
  "raw_stream = \<lparr>rd_evs = [RdErr WouldBlock, RdData [1, 2, 3]], wr_evs = [WrErr WouldBlock, WrAccept 2], fl_evs = [], sd_evs = [],
     rcvd = [], sent = [], flushed = 0, shut = False\<rparr>"

definition raw_pipe :: "pipe copy_buffer" where
  "raw_pipe = copy_buffer_new \<lparr>pp_rd = 3, pp_wr = 4, pp_cap = 2, pp_data = []\<rparr>"

theorem raw_calls_refine_witness:
  "fst (send_mul_pkts raw_kind raw_kernel 3 9 raw_demo) = Ready (Inr 7) \<and>
   fst (raw_await (map (sys_of raw_kind (\<lambda>k. as_isize (sendmpkts raw_kernel 3 9 k))) raw_demo)) = Ready (Inr 7) \<and>
   fst (pipe_poll_read raw_kind (kernel_in (\<lambda>_. 11) 3 (cb_buf raw_pipe)) 3 raw_pipe (map raw_of_rd (rd_evs raw_stream))) = Ready (Inr 2) \<and>
   fst (zc_poll_read_buf raw_pipe raw_stream) = Ready (Inr 2)"
proof -
  have p: "fst (send_mul_pkts raw_kind raw_kernel 3 9 raw_demo) = Ready (Inr 7)"
    by (simp add: send_mul_pkts_def raw_demo_def await_raw.simps try_result_def as_isize_def sendmpkts_def raw_kernel_def
        check_wouldblock_def EAGAIN_def EWOULDBLOCK_def)
  have q: "fst (zc_poll_read_buf raw_pipe raw_stream) = Ready (Inr 2)" by code_simp
  have h: "ReadyFails WouldBlock \<notin> set raw_demo"
    "\<forall>e. RdErr e \<in> set (rd_evs raw_stream) \<or> WrErr e \<in> set (wr_evs raw_stream) \<longrightarrow> check_wouldblock raw_kind ((\<lambda>_. 11) e) = e"
    "length (pp_data (cb_buf raw_pipe)) < pp_cap (cb_buf raw_pipe)" "pp_cap (cb_buf raw_pipe) < 2 ^ 63"
    by (simp_all add: raw_demo_def raw_stream_def raw_pipe_def copy_buffer_new_def check_wouldblock_def EAGAIN_def EWOULDBLOCK_def)
  from raw_calls_refine [OF h, where sys = raw_kernel and fd = 3 and n = 9] p q show ?thesis
    by (metis fst_map_prod id_apply)
qed

end
