(* ===== verification/Raw_Ref.thy ===== *)
theory Raw_Ref
  imports Tcp
begin

text \<open>
  The references of \<^verbatim>\<open>hoorayhug_core/src/trick.rs\<close>, which are raw pointers with no lifetime, and the life of
  the locals of \<^verbatim>\<open>run_tcp\<close> (\<^verbatim>\<open>tcp/mod.rs\<close>) that the connection tasks reach through them.
\<close>

section \<open>References\<close>

text \<open>Memory is a map from addresses to what lives there; reading freed memory is \<open>None\<close>.\<close>

datatype raw_ref = Ref nat

type_synonym 'v cells = "nat \<rightharpoonup> 'v"

definition ref_new :: "nat \<Rightarrow> raw_ref" where
  "ref_new x = Ref x"

fun deref :: "raw_ref \<Rightarrow> 'v cells \<Rightarrow> 'v option" where
  "deref (Ref x) m = m x"

text \<open>The locals of \<^verbatim>\<open>run_tcp\<close>, at three addresses of its future, and the references to them.\<close>

datatype local_val = RaddrVal remote_addr | OptsVal connect_opts | ExtraVal "remote_addr list"

record task_refs =
  rf_raddr :: raw_ref
  rf_conn_opts :: raw_ref
  rf_extra :: raw_ref

definition tcp_locals :: "endpoint \<Rightarrow> nat \<Rightarrow> local_val cells \<Rightarrow> task_refs \<times> local_val cells" where
  "tcp_locals e x m =
     (\<lparr>rf_raddr = ref_new x, rf_conn_opts = ref_new (x + 1), rf_extra = ref_new (x + 2)\<rparr>,
      m(x \<mapsto> RaddrVal (ep_raddr e), x + 1 \<mapsto> OptsVal (ep_conn_opts e), x + 2 \<mapsto> ExtraVal (ep_extra_raddrs e)))"

definition free_locals :: "nat \<Rightarrow> local_val cells \<Rightarrow> local_val cells" where
  "free_locals x m = m(x := None, x + 1 := None, x + 2 := None)"

section \<open>The life of a listener\<close>

text \<open>One turn of the accept loop: it ends, or goes on, with a new task or without.\<close>

definition accept_turn ::
  "(nat \<Rightarrow> tcp_keepalive \<Rightarrow> io_error option) \<Rightarrow> connect_opts \<Rightarrow> accept_ev \<Rightarrow> unit io_result + task option" where
  "accept_turn ka o1 ev =
     (case ev of
        AcceptErr e \<Rightarrow> if e = ConnectionAborted then Inr None else Inl (Inr ())
      | Accepted c addr \<Rightarrow>
          (case (case keepalive_build o1 of Some kpa \<Rightarrow> ka c kpa | None \<Rightarrow> None) of
             Some e \<Rightarrow> Inl (Inl e)
           | None \<Rightarrow> Inr (Some \<lparr>tk_conn = c, tk_addr = addr, tk_mode = mode_num (co_obfs o1)\<rparr>)))"

lemma accept_loop_turn:
  "accept_loop ka o1 (ev # evs) =
     (case accept_turn ka o1 ev of
        Inl r \<Rightarrow> (Ready r, [])
      | Inr t \<Rightarrow> (case accept_loop ka o1 evs of (r, ts) \<Rightarrow> (r, (case t of Some t \<Rightarrow> t # ts | None \<Rightarrow> ts))))"
  by (cases ev) (auto simp: accept_turn_def split: option.splits prod.splits)

text \<open>
  The listener: whether its loop still runs or what it returned, its memory, the tasks it spawned, and the number of
  reads of freed memory. A task's first poll reads the options; which of the locals a later one reads
  depends on how far it is.
\<close>

datatype task_phase = Spawned | Polled | Finished
datatype tcp_local = LocalRaddr | LocalOpts | LocalExtra

record tcp_life =
  tl_loop :: "unit io_result poll"
  tl_cells :: "local_val cells"
  tl_tasks :: "(task \<times> task_phase) list"
  tl_faults :: nat

datatype life_event = LifeAccept accept_ev | LifePoll nat "tcp_local list" bool

fun local_ref :: "task_refs \<Rightarrow> tcp_local \<Rightarrow> raw_ref" where
  "local_ref rs LocalRaddr = rf_raddr rs"
| "local_ref rs LocalOpts = rf_conn_opts rs"
| "local_ref rs LocalExtra = rf_extra rs"

definition poll_reads :: "task_phase \<Rightarrow> tcp_local list \<Rightarrow> tcp_local list" where
  "poll_reads ph reads = (if ph = Spawned then LocalOpts # reads else reads)"

definition life_start :: "endpoint \<Rightarrow> nat \<Rightarrow> tcp_life" where
  "life_start e x = \<lparr>tl_loop = Pending, tl_cells = snd (tcp_locals e x (\<lambda>_. None)), tl_tasks = [], tl_faults = 0\<rparr>"

text \<open>
  When the loop ends \<^verbatim>\<open>run_tcp\<close> returns and its locals are freed. The tasks it has spawned are the runtime's: it
  polls them, on any of its threads, until it is dropped, which \<^verbatim>\<open>main\<close> does when all workers have returned and it has seen
  that. So a task can be polled at any time until it has finished.
\<close>

fun life_step ::
  "(nat \<Rightarrow> tcp_keepalive \<Rightarrow> io_error option) \<Rightarrow> endpoint \<Rightarrow> nat \<Rightarrow> life_event \<Rightarrow> tcp_life \<Rightarrow> tcp_life option" where
  "life_step ka e x (LifeAccept ev) s =
     (if tl_loop s \<noteq> Pending then None
      else Some (case accept_turn ka (ep_conn_opts e) ev of
             Inl r \<Rightarrow> s\<lparr>tl_loop := Ready r, tl_cells := free_locals x (tl_cells s)\<rparr>
           | Inr None \<Rightarrow> s
           | Inr (Some t) \<Rightarrow> s\<lparr>tl_tasks := tl_tasks s @ [(t, Spawned)]\<rparr>))"
| "life_step ka e x (LifePoll i reads ends) s =
     (if i < length (tl_tasks s) \<and> snd (tl_tasks s ! i) \<noteq> Finished
      then let (t, ph) = tl_tasks s ! i;
               refs = map (local_ref (fst (tcp_locals e x (tl_cells s)))) (poll_reads ph reads);
               bad = filter (\<lambda>r. deref r (tl_cells s) = None) refs
           in Some (s\<lparr>tl_tasks := (tl_tasks s)[i := (t, if ends then Finished else Polled)],
                      tl_faults := tl_faults s + length bad\<rparr>)
      else None)"

inductive life_steps ::
  "(nat \<Rightarrow> tcp_keepalive \<Rightarrow> io_error option) \<Rightarrow> endpoint \<Rightarrow> nat \<Rightarrow> tcp_life \<Rightarrow> bool"
  for ka e x where
  life_begin: "life_steps ka e x (life_start e x)"
| life_more: "life_steps ka e x s \<Longrightarrow> life_step ka e x ev s = Some s' \<Longrightarrow> life_steps ka e x s'"

text \<open>
  While the loop runs a task sees the endpoint it was spawned for, which is what \<open>connect_and_relay\<close> is given; afterwards
  there is nothing at the addresses.
\<close>

definition life_ok :: "endpoint \<Rightarrow> nat \<Rightarrow> tcp_life \<Rightarrow> bool" where
  "life_ok e x s \<longleftrightarrow>
     (if tl_loop s = Pending then tl_cells s = snd (tcp_locals e x (\<lambda>_. None)) \<and> tl_faults s = 0
      else \<exists>m. tl_cells s = free_locals x m)"

lemma locals_live:
  "deref (local_ref (fst (tcp_locals e x m)) l) (snd (tcp_locals e x m')) =
     Some (case l of LocalRaddr \<Rightarrow> RaddrVal (ep_raddr e) | LocalOpts \<Rightarrow> OptsVal (ep_conn_opts e)
       | LocalExtra \<Rightarrow> ExtraVal (ep_extra_raddrs e))"
  by (cases l) (simp_all add: tcp_locals_def ref_new_def)

lemma locals_freed: "deref (local_ref (fst (tcp_locals e x m)) l) (free_locals x m') = None"
  by (cases l) (simp_all add: tcp_locals_def ref_new_def free_locals_def)

lemma poll_faults:
  assumes "life_ok e x s"
  shows "length (filter (\<lambda>r. deref r (tl_cells s) = None) (map (local_ref (fst (tcp_locals e x (tl_cells s)))) ls))
    = (if tl_loop s = Pending then 0 else length ls)"
  using assms by (induction ls) (auto simp: life_ok_def locals_live locals_freed split: if_splits)

lemma life_poll:
  assumes "life_ok e x s" "i < length (tl_tasks s)" "tl_tasks s ! i = (t, ph)" "ph \<noteq> Finished"
  shows "life_step ka e x (LifePoll i reads ends) s =
    Some (s\<lparr>tl_tasks := (tl_tasks s)[i := (t, if ends then Finished else Polled)],
            tl_faults := tl_faults s + (if tl_loop s = Pending then 0 else length (poll_reads ph reads))\<rparr>)"
  using assms(2-4) poll_faults [OF assms(1)] by simp

lemma life_steps_ok: "life_steps ka e x s \<Longrightarrow> life_ok e x s"
proof (induction rule: life_steps.induct)
  case life_begin
  then show ?case by (simp add: life_ok_def life_start_def)
next
  case (life_more s ev s')
  show ?case
  proof (cases ev)
    case (LifeAccept a)
    then show ?thesis using life_more by (auto simp: life_ok_def split: if_splits sum.splits option.splits)
  next
    case (LifePoll i reads ends)
    then have i: "i < length (tl_tasks s)" "snd (tl_tasks s ! i) \<noteq> Finished"
      using life_more.hyps(2) by (auto split: if_splits)
    then show ?thesis using life_more life_poll [OF life_more.IH i(1) surjective_pairing i(2)] LifePoll
      by (auto simp: life_ok_def split: if_splits)
  qed
qed

text \<open>
  C22: The references that connection tasks hold are good exactly while the accept loop runs. In every reachable state, with
  any interleaving, a task that has not finished can be polled; while the loop runs no such poll, before or now, has read
  freed memory, and after \<^verbatim>\<open>run_tcp\<close> has returned every read of the endpoint through a reference is one of freed
  memory. And an accept error other than an aborted connection leads there from every running state: the next poll of any task that
  is left, its first one at least, reads freed memory.
\<close>
theorem tcp_refs_dangle:
  assumes "life_steps ka e x s" "i < length (tl_tasks s)" "tl_tasks s ! i = (t, ph)" "ph \<noteq> Finished"
  shows "(\<exists>s'. life_step ka e x (LifePoll i reads ends) s = Some s' \<and>
        tl_faults s' = tl_faults s + (if tl_loop s = Pending then 0 else length (poll_reads ph reads))) \<and>
    (tl_loop s = Pending \<longrightarrow> tl_faults s = 0 \<and>
      (\<forall>err. err \<noteq> ConnectionAborted \<longrightarrow>
        (\<exists>s1 s2. life_step ka e x (LifeAccept (AcceptErr err)) s = Some s1 \<and>
           life_step ka e x (LifePoll i reads ends) s1 = Some s2 \<and> tl_faults s2 = length (poll_reads ph reads))))"
proof -
  note ok = life_steps_ok [OF assms(1)]
  have "\<exists>s1 s2. life_step ka e x (LifeAccept (AcceptErr err)) s = Some s1 \<and>
      life_step ka e x (LifePoll i reads ends) s1 = Some s2 \<and> tl_faults s2 = length (poll_reads ph reads)"
    if "tl_loop s = Pending" "err \<noteq> ConnectionAborted" for err
  proof -
    let ?s1 = "s\<lparr>tl_loop := Ready (Inr ()), tl_cells := free_locals x (tl_cells s)\<rparr>"
    have 1: "life_step ka e x (LifeAccept (AcceptErr err)) s = Some ?s1" using that by (simp add: accept_turn_def)
    have "life_ok e x ?s1" by (auto simp: life_ok_def)
    from life_poll [OF this, of i t ph] assms(2-4) 1 show ?thesis using ok that(1) by (auto simp: life_ok_def)
  qed
  then show ?thesis using life_poll [OF ok assms(2-4)] ok by (auto simp: life_ok_def)
qed

definition demo_listener :: endpoint where
  "demo_listener = \<lparr>ep_laddr = SockV4 0 80, ep_raddr = RemoteSock (SockV4 1 1),
     ep_bind_opts = \<lparr>bo_ipv6_only = False, bo_accept_mptcp = False, bo_bind_interface = None\<rparr>,
     ep_conn_opts = demo_opts BalOff, ep_extra_raddrs = []\<rparr>"

text \<open>One connection, an accept error, and a poll of the connection's task.\<close>

theorem tcp_refs_dangle_witness:
  "\<exists>s0 s1 s2. life_step (\<lambda>_ _. None) demo_listener 100 (LifeAccept (Accepted 7 (SockV4 3 3))) (life_start demo_listener 100)
       = Some s0 \<and>
     life_step (\<lambda>_ _. None) demo_listener 100 (LifeAccept (AcceptErr (OtherError ''EMFILE''))) s0 = Some s1 \<and>
     life_step (\<lambda>_ _. None) demo_listener 100 (LifePoll 0 [LocalRaddr] False) s1 = Some s2 \<and> tl_faults s2 = 2"
proof -
  have "\<exists>t. accept_turn (\<lambda>_ _. None) (ep_conn_opts demo_listener) (Accepted 7 (SockV4 3 3)) = Inr (Some t)"
    by (simp add: accept_turn_def split: option.split)
  then obtain t where t: "accept_turn (\<lambda>_ _. None) (ep_conn_opts demo_listener) (Accepted 7 (SockV4 3 3)) = Inr (Some t)"
    by blast
  let ?s0 = "(life_start demo_listener 100)\<lparr>tl_tasks := [(t, Spawned)]\<rparr>"
  have 0: "life_step (\<lambda>_ _. None) demo_listener 100 (LifeAccept (Accepted 7 (SockV4 3 3))) (life_start demo_listener 100) = Some ?s0"
    using t by (simp add: life_start_def)
  have r: "life_steps (\<lambda>_ _. None) demo_listener 100 ?s0" by (rule life_more [OF life_begin 0])
  have "OtherError ''EMFILE'' \<noteq> ConnectionAborted" "tl_loop ?s0 = Pending" by (simp_all add: life_start_def)
  with tcp_refs_dangle [OF r, of 0 t Spawned "[LocalRaddr]" False] 0 show ?thesis
    by (fastforce simp: poll_reads_def)
qed

end
