(* ===== verification/Conf_Base.thy ===== *)
theory Conf_Base
  imports Net_Addr
begin

text \<open>
  What the configuration types share: the macros \<^verbatim>\<open>rst!\<close>, \<^verbatim>\<open>take!\<close> of
  \<^verbatim>\<open>src/conf/mod.rs\<close>, the constants of \<^verbatim>\<open>src/consts.rs\<close>, parsed command lines, and the trait
  \<^verbatim>\<open>Config\<close> as a locale with the laws of overriding. A parsed command line (\<^verbatim>\<open>clap::ArgMatches\<close>) is
  what it answers: which flags are set and the value of an option.
\<close>

section \<open>Fields\<close>

text \<open>Override self if other is not empty; take other only if self is empty and other is not.\<close>

definition rst_field :: "'a option \<Rightarrow> 'a option \<Rightarrow> 'a option" where
  "rst_field this other = (if other \<noteq> None then other else this)"

definition take_field :: "'a option \<Rightarrow> 'a option \<Rightarrow> 'a option" where
  "take_field this other = (if this = None \<and> other \<noteq> None then other else this)"

lemma rst_field_simps [simp]:
  "rst_field x None = x"
  "rst_field x (Some y) = Some y"
  "rst_field None x = x"
  by (simp_all add: rst_field_def)

lemma rst_field_assoc: "rst_field (rst_field x y) z = rst_field x (rst_field y z)"
  by (cases z) simp_all

lemma take_field_rst: "take_field x y = rst_field y x"
  by (cases x; cases y) (simp_all add: take_field_def)

text \<open>\<^verbatim>\<open>empty!\<close>\<close>

definition all_none :: "bool list \<Rightarrow> bool" where
  "all_none nones = foldl (\<and>) True nones"

lemma foldl_conj: "foldl (\<and>) b bs \<longleftrightarrow> b \<and> list_all id bs"
  by (induction bs arbitrary: b) auto

lemma all_none_iff [simp]: "all_none bs \<longleftrightarrow> list_all id bs"
  by (simp add: all_none_def foldl_conj)

section \<open>The interface\<close>

text \<open>
  \<^verbatim>\<open>Config\<close>: \<open>none\<close> is the default value, \<open>rst self other\<close> is \<open>self\<close> after \<^verbatim>\<open>rst_field\<close>. The laws say
  that overriding is a monoid and that taking is overriding with the roles exchanged.
\<close>

locale config =
  fixes none :: 'c
    and rst :: "'c \<Rightarrow> 'c \<Rightarrow> 'c"
    and taking :: "'c \<Rightarrow> 'c \<Rightarrow> 'c"
  assumes rst_none_left: "rst none x = x"
    and rst_none_right: "rst x none = x"
    and rst_assoc: "rst (rst x y) z = rst x (rst y z)"
    and taking_rst: "taking x y = rst y x"
begin

text \<open>Taking the global options and then overriding by the command line: global, own, command line, in that order.\<close>

lemma take_then_rst: "rst (taking own global) cmd = rst (rst global own) cmd"
  by (simp add: taking_rst)

lemma taking_none: "taking none x = x" "taking x none = x"
  by (simp_all add: taking_rst rst_none_left rst_none_right)

lemma taking_assoc: "taking (taking x y) z = taking x (taking y z)"
  by (simp add: taking_rst rst_assoc)

text \<open>Parts read one after the other: the first one that has a field wins.\<close>

lemma fold_taking: "foldl taking x ys = taking x (foldr taking ys none)"
  by (induction ys arbitrary: x) (simp_all add: taking_assoc taking_none)

end

section \<open>Constants\<close>

definition DEFAULT_LOG_FILE :: string where "DEFAULT_LOG_FILE = ''stdout''"
definition TCP_TIMEOUT :: nat where "TCP_TIMEOUT = 5"
definition TCP_KEEPALIVE :: nat where "TCP_KEEPALIVE = 15"
definition TCP_KEEPALIVE_PROBE :: nat where "TCP_KEEPALIVE_PROBE = 3"
definition UDP_TIMEOUT :: nat where "UDP_TIMEOUT = 30"
definition PROXY_PROTOCOL_VERSION :: nat where "PROXY_PROTOCOL_VERSION = 2"
definition PROXY_PROTOCOL_TIMEOUT :: nat where "PROXY_PROTOCOL_TIMEOUT = 5"

record features =
  fe_mimalloc :: bool
  fe_jemalloc :: bool
  fe_multi_thread :: bool
  fe_hook :: bool
  fe_proxy :: bool
  fe_balance :: bool
  fe_transport :: bool
  fe_brutal_shutdown :: bool

text \<open>\<open>cfg\<close> is \<^verbatim>\<open>cfg!(feature = ...)\<close>.\<close>

definition FEATURES :: "(string \<Rightarrow> bool) \<Rightarrow> features" where
  "FEATURES cfg =
     \<lparr>fe_mimalloc = cfg ''mimalloc'', fe_jemalloc = cfg ''jemalloc'', fe_multi_thread = cfg ''multi-thread'',
      fe_hook = cfg ''hook'', fe_proxy = cfg ''proxy'', fe_balance = cfg ''balance'', fe_transport = cfg ''transport'',
      fe_brutal_shutdown = cfg ''brutal-shutdown''\<rparr>"

definition show_features :: "features \<Rightarrow> string" where
  "show_features f =
     (let disp = (\<lambda>b name. if b then ''['' @ name @ '']'' else []) in
      disp (fe_hook f) ''hook'' @ disp (fe_proxy f) ''proxy'' @ disp (fe_balance f) ''balance''
      @ disp (fe_brutal_shutdown f) ''brutal'' @ disp (fe_transport f) ''transport''
      @ disp (fe_multi_thread f) ''multi-thread'' @ disp (fe_mimalloc f) ''mimalloc'' @ disp (fe_jemalloc f) ''jemalloc'')"

section \<open>Parsed command lines\<close>

record arg_matches =
  get_flag :: "string \<Rightarrow> bool"
  get_one :: "string \<Rightarrow> string option"

text \<open>\<^verbatim>\<open>str::parse\<close> of \<^verbatim>\<open>usize\<close> (64 bit), \<^verbatim>\<open>u32\<close> and \<^verbatim>\<open>bool\<close>.\<close>

definition parse_usize :: "string \<Rightarrow> nat option" where
  "parse_usize = parse_uint (2 ^ 64)"

definition parse_u32 :: "string \<Rightarrow> nat option" where
  "parse_u32 = parse_uint (2 ^ 32)"

definition parse_bool :: "string \<Rightarrow> bool option" where
  "parse_bool s = (if s = ''true'' then Some True else if s = ''false'' then Some False else None)"

definition opt_arg :: "(string \<Rightarrow> 'a option) \<Rightarrow> string \<Rightarrow> arg_matches \<Rightarrow> 'a option" where
  "opt_arg parse key m = Option.bind (get_one m key) parse"

definition flag_arg :: "string \<Rightarrow> arg_matches \<Rightarrow> bool option" where
  "flag_arg key m = (if get_flag m key then Some True else None)"

end
