(* ===== verification/Conf_Net.thy ===== *)
theory Conf_Net
  imports Conf_Base Endpoint
begin

text \<open>
  The network options, \<^verbatim>\<open>src/conf/net.rs\<close>.
\<close>

record net_conf =
  nc_no_tcp :: "bool option"
  nc_use_udp :: "bool option"
  nc_ipv6_only :: "bool option"
  nc_send_mptcp :: "bool option"
  nc_accept_mptcp :: "bool option"
  nc_send_proxy :: "bool option"
  nc_accept_proxy :: "bool option"
  nc_send_proxy_version :: "nat option"
  nc_accept_proxy_timeout :: "nat option"
  nc_tcp_keepalive :: "nat option"
  nc_tcp_keepalive_probe :: "nat option"
  nc_tcp_timeout :: "nat option"
  nc_udp_timeout :: "nat option"

definition net_default :: net_conf where
  "net_default =
     \<lparr>nc_no_tcp = None, nc_use_udp = None, nc_ipv6_only = None, nc_send_mptcp = None, nc_accept_mptcp = None,
      nc_send_proxy = None, nc_accept_proxy = None, nc_send_proxy_version = None, nc_accept_proxy_timeout = None,
      nc_tcp_keepalive = None, nc_tcp_keepalive_probe = None, nc_tcp_timeout = None, nc_udp_timeout = None\<rparr>"

definition net_is_empty :: "net_conf \<Rightarrow> bool" where
  "net_is_empty c = all_none
     [nc_no_tcp c = None, nc_use_udp c = None, nc_ipv6_only c = None, nc_send_mptcp c = None, nc_accept_mptcp c = None,
      nc_send_proxy c = None, nc_accept_proxy c = None, nc_send_proxy_version c = None, nc_accept_proxy_timeout c = None,
      nc_tcp_keepalive c = None, nc_tcp_keepalive_probe c = None, nc_tcp_timeout c = None, nc_udp_timeout c = None]"

record net_info =
  ni_bind_opts :: bind_opts
  ni_conn_opts :: connect_opts
  ni_no_tcp :: bool
  ni_use_udp :: bool

definition unbox :: "'a \<Rightarrow> 'a option \<Rightarrow> 'a" where
  "unbox d x = (case x of Some y \<Rightarrow> y | None \<Rightarrow> d)"

lemma unbox_simps [simp]: "unbox d None = d" "unbox d (Some x) = x"
  by (simp_all add: unbox_def)

definition net_build :: "net_conf \<Rightarrow> net_info" where
  "net_build c =
     \<lparr>ni_bind_opts = \<lparr>bo_ipv6_only = unbox False (nc_ipv6_only c), bo_accept_mptcp = unbox False (nc_accept_mptcp c),
        bo_bind_interface = None\<rparr>,
      ni_conn_opts = \<lparr>co_send_mptcp = unbox False (nc_send_mptcp c),
        co_connect_timeout = unbox TCP_TIMEOUT (nc_tcp_timeout c),
        co_associate_timeout = unbox UDP_TIMEOUT (nc_udp_timeout c),
        co_tcp_keepalive = unbox TCP_KEEPALIVE (nc_tcp_keepalive c),
        co_tcp_keepalive_probe = unbox TCP_KEEPALIVE_PROBE (nc_tcp_keepalive_probe c),
        co_bind_address = None, co_bind_interface = None, co_obfs = [],
        co_proxy_opts = \<lparr>send_proxy = unbox False (nc_send_proxy c), accept_proxy = unbox False (nc_accept_proxy c),
          send_proxy_version = unbox PROXY_PROTOCOL_VERSION (nc_send_proxy_version c),
          accept_proxy_timeout = unbox PROXY_PROTOCOL_TIMEOUT (nc_accept_proxy_timeout c)\<rparr>,
        co_transport = None, co_balancer = BalOff\<rparr>,
      ni_no_tcp = unbox False (nc_no_tcp c),
      ni_use_udp = unbox False (nc_use_udp c)\<rparr>"

definition net_rst_field :: "net_conf \<Rightarrow> net_conf \<Rightarrow> net_conf" where
  "net_rst_field this other =
     \<lparr>nc_no_tcp = rst_field (nc_no_tcp this) (nc_no_tcp other),
      nc_use_udp = rst_field (nc_use_udp this) (nc_use_udp other),
      nc_ipv6_only = rst_field (nc_ipv6_only this) (nc_ipv6_only other),
      nc_send_mptcp = rst_field (nc_send_mptcp this) (nc_send_mptcp other),
      nc_accept_mptcp = rst_field (nc_accept_mptcp this) (nc_accept_mptcp other),
      nc_send_proxy = rst_field (nc_send_proxy this) (nc_send_proxy other),
      nc_accept_proxy = rst_field (nc_accept_proxy this) (nc_accept_proxy other),
      nc_send_proxy_version = rst_field (nc_send_proxy_version this) (nc_send_proxy_version other),
      nc_accept_proxy_timeout = rst_field (nc_accept_proxy_timeout this) (nc_accept_proxy_timeout other),
      nc_tcp_keepalive = rst_field (nc_tcp_keepalive this) (nc_tcp_keepalive other),
      nc_tcp_keepalive_probe = rst_field (nc_tcp_keepalive_probe this) (nc_tcp_keepalive_probe other),
      nc_tcp_timeout = rst_field (nc_tcp_timeout this) (nc_tcp_timeout other),
      nc_udp_timeout = rst_field (nc_udp_timeout this) (nc_udp_timeout other)\<rparr>"

definition net_take_field :: "net_conf \<Rightarrow> net_conf \<Rightarrow> net_conf" where
  "net_take_field this other =
     \<lparr>nc_no_tcp = take_field (nc_no_tcp this) (nc_no_tcp other),
      nc_use_udp = take_field (nc_use_udp this) (nc_use_udp other),
      nc_ipv6_only = take_field (nc_ipv6_only this) (nc_ipv6_only other),
      nc_send_mptcp = take_field (nc_send_mptcp this) (nc_send_mptcp other),
      nc_accept_mptcp = take_field (nc_accept_mptcp this) (nc_accept_mptcp other),
      nc_send_proxy = take_field (nc_send_proxy this) (nc_send_proxy other),
      nc_accept_proxy = take_field (nc_accept_proxy this) (nc_accept_proxy other),
      nc_send_proxy_version = take_field (nc_send_proxy_version this) (nc_send_proxy_version other),
      nc_accept_proxy_timeout = take_field (nc_accept_proxy_timeout this) (nc_accept_proxy_timeout other),
      nc_tcp_keepalive = take_field (nc_tcp_keepalive this) (nc_tcp_keepalive other),
      nc_tcp_keepalive_probe = take_field (nc_tcp_keepalive_probe this) (nc_tcp_keepalive_probe other),
      nc_tcp_timeout = take_field (nc_tcp_timeout this) (nc_tcp_timeout other),
      nc_udp_timeout = take_field (nc_udp_timeout this) (nc_udp_timeout other)\<rparr>"

interpretation net: config net_default net_rst_field net_take_field
  by unfold_locales
    (simp_all add: net_default_def net_rst_field_def net_take_field_def rst_field_assoc take_field_rst)

lemma net_is_empty_iff: "net_is_empty c \<longleftrightarrow> c = net_default"
  by (cases c) (auto simp: net_is_empty_def net_default_def)

text \<open>
  The command line. The number of keepalive probes is read from the option \<^verbatim>\<open>tcp_keepalive\<close>, as in the code.
\<close>

definition net_from_cmd_args :: "arg_matches \<Rightarrow> net_conf" where
  "net_from_cmd_args m =
     (let use_mptcp = flag_arg ''use_mptcp'' m in
      \<lparr>nc_no_tcp = flag_arg ''no_tcp'' m, nc_use_udp = flag_arg ''use_udp'' m, nc_ipv6_only = flag_arg ''ipv6_only'' m,
       nc_send_mptcp = use_mptcp, nc_accept_mptcp = use_mptcp,
       nc_send_proxy = opt_arg parse_bool ''send_proxy'' m, nc_accept_proxy = opt_arg parse_bool ''accept_proxy'' m,
       nc_send_proxy_version = opt_arg parse_usize ''send_proxy_version'' m,
       nc_accept_proxy_timeout = opt_arg parse_usize ''accept_proxy_timeout'' m,
       nc_tcp_keepalive = opt_arg parse_usize ''tcp_keepalive'' m,
       nc_tcp_keepalive_probe = opt_arg parse_usize ''tcp_keepalive'' m,
       nc_tcp_timeout = opt_arg parse_usize ''tcp_timeout'' m, nc_udp_timeout = opt_arg parse_usize ''udp_timeout'' m\<rparr>)"

end
