(* ===== verification/Addr_Parse.thy ===== *)
theory Addr_Parse
  imports Net_Addr
begin

text \<open>
  Parsing addresses, as \<^verbatim>\<open>std::net\<close> does it (\<^verbatim>\<open>str::parse\<close> of \<^verbatim>\<open>SocketAddr\<close> and
  \<^verbatim>\<open>IpAddr\<close>, \<^verbatim>\<open>to_socket_addrs\<close>). A reader takes a prefix of its input and returns the rest; the
  system's name lookup is a parameter.
\<close>

type_synonym 'a reader = "string \<Rightarrow> ('a \<times> string) option"

fun read_char :: "char \<Rightarrow> unit reader" where
  "read_char c [] = None"
| "read_char c (x # s) = (if x = c then Some ((), s) else None)"

definition hex_val :: "char \<Rightarrow> nat option" where
  "hex_val c =
     (let n = of_char c :: nat in
      if is_digit c then Some (n - 48)
      else if 97 \<le> n \<and> n \<le> 102 then Some (n - 87)
      else if 65 \<le> n \<and> n \<le> 70 then Some (n - 55)
      else None)"

definition dec_val :: "char \<Rightarrow> nat option" where
  "dec_val c = (if is_digit c then Some (digit_val c) else None)"

text \<open>
  A number: its digits, at least one, at most \<open>digits\<close> when that is given, no leading zero unless allowed, and a
  value below the bound of the type.
\<close>

definition read_number :: "nat \<Rightarrow> (char \<Rightarrow> nat option) \<Rightarrow> nat option \<Rightarrow> bool \<Rightarrow> nat \<Rightarrow> nat reader" where
  "read_number radix val digits zero_prefix bound s =
     (let ds = takeWhile (\<lambda>c. val c \<noteq> None) s;
          n = foldl (\<lambda>a c. radix * a + the (val c)) 0 ds
      in if ds = [] \<or> (case digits of Some k \<Rightarrow> k < length ds | None \<Rightarrow> False) \<or> bound \<le> n
            \<or> \<not> zero_prefix \<and> hd ds = CHR ''0'' \<and> 1 < length ds
         then None else Some (n, drop (length ds) s))"

definition read_sep :: "char \<Rightarrow> nat \<Rightarrow> 'a reader \<Rightarrow> 'a reader" where
  "read_sep sep i inner s = (if i = 0 then inner s else Option.bind (read_char sep s) (\<lambda>(_, r). inner r))"

definition read_octet :: "nat reader" where
  "read_octet = read_number 10 dec_val (Some 3) False 256"

definition read_ip4 :: "u32 reader" where
  "read_ip4 s =
     Option.bind (read_sep CHR ''.'' 0 read_octet s) (\<lambda>(a, s).
     Option.bind (read_sep CHR ''.'' 1 read_octet s) (\<lambda>(b, s).
     Option.bind (read_sep CHR ''.'' 2 read_octet s) (\<lambda>(c, s).
     Option.bind (read_sep CHR ''.'' 3 read_octet s) (\<lambda>(d, s).
       Some (of_nat (a * 2 ^ 24 + b * 2 ^ 16 + c * 2 ^ 8 + d), s)))))"

text \<open>
  The groups of a version 6 address: at most \<open>limit\<close>, an embedded version 4 address being two of them, the last ones.
\<close>

function read_groups :: "nat \<Rightarrow> nat \<Rightarrow> string \<Rightarrow> nat list \<times> bool \<times> string" where
  "read_groups limit i s =
     (if limit \<le> i then ([], False, s)
      else case (if i < limit - 1 then read_sep CHR '':'' i read_ip4 s else None) of
             Some (a, r) \<Rightarrow> ([unat (drop_bit 16 a), unat a mod 2 ^ 16], True, r)
           | None \<Rightarrow>
               (case read_sep CHR '':'' i (read_number 16 hex_val (Some 4) True (2 ^ 16)) s of
                  Some (g, r) \<Rightarrow> (case read_groups limit (i + 1) r of (gs, v4, r') \<Rightarrow> (g # gs, v4, r'))
                | None \<Rightarrow> ([], False, s)))"
  by pat_completeness auto
termination by (relation "measure (\<lambda>(limit, i, s). limit - i)") auto

declare read_groups.simps [simp del]

definition ip6_of_groups :: "nat list \<Rightarrow> 128 word" where
  "ip6_of_groups gs = of_nat (foldl (\<lambda>a g. 2 ^ 16 * a + g) 0 gs)"

definition read_ip6 :: "(128 word) reader" where
  "read_ip6 s =
     (case read_groups 8 0 s of (head, v4, r) \<Rightarrow>
        if length head = 8 then Some (ip6_of_groups head, r)
        else if v4 then None
        else Option.bind (read_char CHR '':'' r) (\<lambda>(_, r).
             Option.bind (read_char CHR '':'' r) (\<lambda>(_, r).
               case read_groups (8 - (length head + 1)) 0 r of (tail, _, r) \<Rightarrow>
                 Some (ip6_of_groups (head @ replicate (8 - length head - length tail) 0 @ tail), r))))"

definition read_port :: "u16 reader" where
  "read_port s =
     Option.bind (read_char CHR '':'' s) (\<lambda>(_, r).
     Option.bind (read_number 10 dec_val None True (2 ^ 16) r) (\<lambda>(n, r). Some (of_nat n, r)))"

definition read_scope :: "u32 reader" where
  "read_scope s =
     Option.bind (read_char CHR ''%'' s) (\<lambda>(_, r).
     Option.bind (read_number 10 dec_val None True (2 ^ 32) r) (\<lambda>(n, r). Some (of_nat n, r)))"

definition read_sock4 :: "sock_addr reader" where
  "read_sock4 s = Option.bind (read_ip4 s) (\<lambda>(a, r). Option.bind (read_port r) (\<lambda>(p, r). Some (SockV4 a p, r)))"

definition read_sock6 :: "sock_addr reader" where
  "read_sock6 s =
     Option.bind (read_char (CHR ''['') s) (\<lambda>(_, r).
     Option.bind (read_ip6 r) (\<lambda>(a, r).
       let (scope, r) = (case read_scope r of Some (n, r') \<Rightarrow> (n, r') | None \<Rightarrow> (0, r)) in
       Option.bind (read_char (CHR '']'') r) (\<lambda>(_, r).
       Option.bind (read_port r) (\<lambda>(p, r). Some (SockV6 a p 0 scope, r)))))"

text \<open>The whole input must be read; a reader that fails leaves it, so the next one starts anew.\<close>

definition parse_with :: "'a reader \<Rightarrow> string \<Rightarrow> 'a option" where
  "parse_with rd s = (case rd s of Some (x, []) \<Rightarrow> Some x | _ \<Rightarrow> None)"

definition read_or :: "'a reader \<Rightarrow> 'a reader \<Rightarrow> 'a reader" where
  "read_or p q s = (case p s of Some x \<Rightarrow> Some x | None \<Rightarrow> q s)"

definition parse_sock :: "string \<Rightarrow> sock_addr option" where
  "parse_sock = parse_with (read_or read_sock4 read_sock6)"

definition parse_ip :: "string \<Rightarrow> ip_addr option" where
  "parse_ip = parse_with (read_or (\<lambda>s. map_option (\<lambda>(a, r). (IpV4 a, r)) (read_ip4 s))
                                  (\<lambda>s. map_option (\<lambda>(a, r). (IpV6 a, r)) (read_ip6 s)))"

text \<open>Before and after the last occurrence: \<^verbatim>\<open>rsplit_once\<close>.\<close>

definition rsplit_once :: "char \<Rightarrow> string \<Rightarrow> (string \<times> string) option" where
  "rsplit_once c s = map_option (\<lambda>(b, a). (rev a, rev b)) (split_once c (rev s))"

definition parse_u16 :: "string \<Rightarrow> nat option" where
  "parse_u16 = parse_uint (2 ^ 16)"

definition to_socket_addrs :: "(string \<Rightarrow> u16 \<Rightarrow> sock_addr list io_result) \<Rightarrow> string \<Rightarrow> sock_addr list io_result" where
  "to_socket_addrs sys_lookup s =
     (case parse_sock s of
        Some a \<Rightarrow> Inr [a]
      | None \<Rightarrow>
          (case rsplit_once CHR '':'' s of
             None \<Rightarrow> Inl InvalidInput
           | Some (host, port) \<Rightarrow>
               (case parse_u16 port of
                  None \<Rightarrow> Inl InvalidInput
                | Some p \<Rightarrow> sys_lookup host (of_nat p))))"

section \<open>Reading what was printed\<close>

lemma show_nat_hd: "0 < n \<Longrightarrow> hd (show_nat n) \<noteq> CHR ''0''"
proof (induction n rule: show_nat.induct)
  case (1 n)
  show ?case
  proof (cases "n < 10")
    case True
    have "digit_val (digit_char n) = n" using True by simp
    then have "digit_char n \<noteq> CHR ''0''" using 1(2) by (auto simp: digit_val_def)
    then show ?thesis using True by (simp add: show_nat.simps [of n])
  next
    case False
    then have "hd (show_nat (n div 10)) \<noteq> CHR ''0''" using 1 by simp
    then show ?thesis using False by (simp add: show_nat.simps [of n])
  qed
qed

lemma show_nat_length: "n < 10 ^ Suc k \<Longrightarrow> length (show_nat n) \<le> Suc k"
proof (induction k arbitrary: n)
  case 0
  then show ?case by (simp add: show_nat.simps [of n])
next
  case (Suc k)
  show ?case
  proof (cases "n < 10")
    case True
    then show ?thesis by (simp add: show_nat.simps [of n])
  next
    case False
    have "n div 10 < 10 ^ Suc k" using Suc.prems by (simp add: less_mult_imp_div_less)
    then show ?thesis using False Suc.IH [of "n div 10"] by (simp add: show_nat.simps [of n])
  qed
qed

lemma dec_val_digits: "list_all is_digit ds \<Longrightarrow> foldl (\<lambda>a c. 10 * a + the (dec_val c)) b ds = foldl (\<lambda>a c. 10 * a + digit_val c) b ds"
  by (induction ds arbitrary: b) (auto simp: dec_val_def)

text \<open>A printed number is read back, when what follows is no digit.\<close>

lemma read_show_nat:
  assumes "n < bound" "case digits of Some k \<Rightarrow> length (show_nat n) \<le> k | None \<Rightarrow> True"
    and "case r of c # _ \<Rightarrow> \<not> is_digit c | [] \<Rightarrow> True"
  shows "read_number 10 dec_val digits z bound (show_nat n @ r) = Some (n, r)"
proof -
  have all: "list_all is_digit (show_nat n)" by (rule show_nat_digits)
  then have tw: "takeWhile (\<lambda>c. dec_val c \<noteq> None) (show_nat n @ r) = show_nat n"
    using assms(3) by (auto simp: takeWhile_append list_all_iff dec_val_def split: list.splits)
  have n: "foldl (\<lambda>a c. 10 * a + the (dec_val c)) 0 (show_nat n) = n"
    using dec_val_digits [OF all, of 0] digits_val_show_nat [of n] by (simp add: digits_val_def)
  have z: "hd (show_nat n) = CHR ''0'' \<Longrightarrow> length (show_nat n) = 1"
    using show_nat_hd [of n] by (cases "n = 0") (simp_all add: show_nat.simps [of 0])
  show ?thesis
    unfolding read_number_def Let_def tw n using assms(1,2) z by (auto split: option.splits)
qed

lemma of_nat_unat_id: "of_nat (unat a) = (a :: u32)"
  by simp

lemma octet_recompose:
  "of_nat (unat (ucast (drop_bit 24 a) :: u8) * 2 ^ 24 + unat (ucast (drop_bit 16 a) :: u8) * 2 ^ 16 +
     unat (ucast (drop_bit 8 a) :: u8) * 2 ^ 8 + unat (ucast a :: u8)) = (a :: u32)"
proof -
  have o: "unat (ucast (drop_bit k a) :: u8) = unat a div 2 ^ k mod 2 ^ 8" for k
    by (simp add: unsigned_ucast_eq unat_drop_bit_eq take_bit_eq_mod) (simp add: drop_bit_eq_div)
  have o0: "unat (ucast a :: u8) = unat a mod 2 ^ 8"
    by (simp add: unsigned_ucast_eq take_bit_eq_mod)
  have lt: "unat a < 2 ^ 32" using unsigned_less [of a] by simp
  have "n div 2 ^ 24 mod 2 ^ 8 * 2 ^ 24 + n div 2 ^ 16 mod 2 ^ 8 * 2 ^ 16 + n div 2 ^ 8 mod 2 ^ 8 * 2 ^ 8 + n mod 2 ^ 8 = n"
    if "n < 2 ^ 32" for n :: nat
  proof -
    have "n div 2 ^ 16 = n div 2 ^ 8 div 2 ^ 8" "n div 2 ^ 24 = n div 2 ^ 8 div 2 ^ 8 div 2 ^ 8"
      by (simp_all flip: div_mult2_eq)
    moreover have "n div 2 ^ 24 mod 2 ^ 8 = n div 2 ^ 24" using that by (simp add: less_mult_imp_div_less)
    moreover have lin: "q3 * 16777216 + r2 * 65536 + r1 * 256 + r0 = n"
      if "q1 * 256 + r0 = n" "q2 * 256 + r1 = q1" "q3 * 256 + r2 = q2" for q1 q2 q3 r0 r1 r2 :: nat
      using that by linarith
    ultimately show ?thesis
      using lin [of "n div 256" "n mod 256" "n div 256 div 256" "n div 256 mod 256" "n div 256 div 256 div 256"
          "n div 256 div 256 mod 256"] by simp
  qed
  from this [OF lt] show ?thesis unfolding o o0 by (simp only: of_nat_unat_id)
qed

lemma read_octet_show:
  assumes "case r of c # _ \<Rightarrow> \<not> is_digit c | [] \<Rightarrow> True"
  shows "read_octet (show_nat (unat (b :: u8)) @ r) = Some (unat b, r)"
proof -
  have b: "unat b < 256" using unsigned_less [of b] by simp
  then have "length (show_nat (unat b)) \<le> 3" using show_nat_length [of "unat b" 2] by (simp add: numeral_3_eq_3)
  then show ?thesis using read_show_nat [of "unat b" 256 "Some 3" r False] b assms by (simp add: read_octet_def)
qed

lemma read_ip4_show:
  assumes "case r of c # _ \<Rightarrow> \<not> is_digit c | [] \<Rightarrow> True"
  shows "read_ip4 (show_ip4 a @ r) = Some (a, r)"
proof -
  have dot: "\<not> is_digit CHR ''.''" by (simp add: is_digit_def)
  show ?thesis
    using assms octet_recompose [of a]
    by (simp add: show_ip4_def octets4_def read_ip4_def read_sep_def read_octet_show dot del: of_nat_add of_nat_mult)
qed

lemma parse_sock_show4: "parse_sock (show_sock (SockV4 a p)) = Some (SockV4 a p)"
proof -
  have c: "\<not> is_digit CHR '':''" by (simp add: is_digit_def)
  have p: "unat p < 2 ^ 16" using unsigned_less [of p] by simp
  have "read_port ('':'' @ show_nat (unat p)) = Some (p, [])"
    using read_show_nat [of "unat p" "2 ^ 16" None "[]" True] p by (simp add: read_port_def)
  then have "read_sock4 (show_sock (SockV4 a p)) = Some (SockV4 a p, [])"
    using read_ip4_show [of "'':'' @ show_nat (unat p)" a] c by (simp add: read_sock4_def)
  then show ?thesis by (simp add: parse_sock_def parse_with_def read_or_def)
qed

lemma split_once_rev: "c \<notin> set s \<Longrightarrow> rsplit_once c (h @ c # s) = Some (h, s)"
  by (simp add: rsplit_once_def split_once_append)

lemma parse_u16_show: "parse_u16 (show_nat (unat (p :: u16))) = Some (unat p)"
proof -
  have "unat p < 2 ^ 16" using unsigned_less [of p] by simp
  then show ?thesis unfolding parse_u16_def by (rule parse_show_nat)
qed

end
