(* ===== verification/Conf_Endpoint.thy ===== *)
theory Conf_Endpoint
  imports Conf_Net Addr_Parse
begin

text \<open>
  The endpoint options, \<^verbatim>\<open>src/conf/endpoint.rs\<close>, with the default features. The transport's parsers and
  constructors come from the crate kaminari: they are parameters, as are the system's name lookup and the
  sorting routine of the balancer.
\<close>

record endpoint_conf =
  ec_listen :: string
  ec_remote :: string
  ec_extra_remotes :: "string list"
  ec_obfs :: "string option"
  ec_balance :: "string option"
  ec_through :: "string option"
  ec_interface :: "string option"
  ec_listen_interface :: "string option"
  ec_listen_transport :: "string option"
  ec_remote_transport :: "string option"
  ec_network :: net_conf

record ('ws, 'ts, 'tc) build_env =
  be_lookup :: "string \<Rightarrow> u16 \<Rightarrow> sock_addr list io_result"
  be_sort :: "ip_node list \<Rightarrow> ip_node list"
  be_ws :: "string \<Rightarrow> 'ws option"
  be_tls_server :: "string \<Rightarrow> 'ts option"
  be_tls_client :: "string \<Rightarrow> 'tc option"
  be_accept :: "'ws option \<Rightarrow> 'ts option \<Rightarrow> mix_accept"
  be_connect :: "'ws option \<Rightarrow> 'tc option \<Rightarrow> mix_connect"

definition build_local :: "('ws, 'ts, 'tc) build_env \<Rightarrow> endpoint_conf \<Rightarrow> sock_addr checked" where
  "build_local env c =
     (case to_socket_addrs (be_lookup env) (ec_listen c) of
        Inl e \<Rightarrow> Inl (Panic ''invalid local address'')
      | Inr [] \<Rightarrow> Inl (Panic ''next().unwrap()'')
      | Inr (a # _) \<Rightarrow> Inr a)"

text \<open>
  A socket address, or what is before and after the last colon; the port is read first.
\<close>

definition build_remote_x :: "string \<Rightarrow> remote_addr checked" where
  "build_remote_x remote =
     (case parse_sock remote of
        Some a \<Rightarrow> Inr (RemoteSock a)
      | None \<Rightarrow>
          (let (host, port) = (case rsplit_once CHR '':'' remote of Some (h, p) \<Rightarrow> (Some h, p) | None \<Rightarrow> (None, remote)) in
           case parse_u16 port of
             None \<Rightarrow> Inl (Panic ''parse::<u16>().unwrap()'')
           | Some p \<Rightarrow> (case host of None \<Rightarrow> Inl (Panic ''next().unwrap()'') | Some h \<Rightarrow> Inr (DomainName h (of_nat p)))))"

definition build_remote :: "endpoint_conf \<Rightarrow> remote_addr checked" where
  "build_remote c = build_remote_x (ec_remote c)"

definition build_send_through :: "('ws, 'ts, 'tc) build_env \<Rightarrow> endpoint_conf \<Rightarrow> sock_addr option checked" where
  "build_send_through env c =
     (case ec_through c of
        None \<Rightarrow> Inr None
      | Some through \<Rightarrow>
          (case to_socket_addrs (be_lookup env) through of
             Inr [] \<Rightarrow> Inl (Panic ''next().unwrap()'')
           | Inr (a # _) \<Rightarrow> Inr (Some a)
           | Inl e \<Rightarrow> Inr (map_option (\<lambda>ip. sock_new ip 0)
                       (parse_ip (filter (\<lambda>c. c \<noteq> CHR ''['' \<and> c \<noteq> CHR '']'') through)))))"

definition build_balancer :: "('ws, 'ts, 'tc) build_env \<Rightarrow> endpoint_conf \<Rightarrow> balancer checked" where
  "build_balancer env c = (case ec_balance c of Some s \<Rightarrow> parse_from_str (be_sort env) s | None \<Rightarrow> Inr balancer_default)"

definition build_transport :: "('ws, 'ts, 'tc) build_env \<Rightarrow> endpoint_conf \<Rightarrow> (mix_accept \<times> mix_connect) option" where
  "build_transport env c =
     (let listen_ws = Option.bind (ec_listen_transport c) (be_ws env);
          listen_tls = Option.bind (ec_listen_transport c) (be_tls_server env);
          remote_ws = Option.bind (ec_remote_transport c) (be_ws env);
          remote_tls = Option.bind (ec_remote_transport c) (be_tls_client env)
      in if listen_ws = None \<and> listen_tls = None \<and> remote_ws = None \<and> remote_tls = None then None
         else Some (be_accept env listen_ws listen_tls, be_connect env remote_ws remote_tls))"

record endpoint_info =
  ei_no_tcp :: bool
  ei_use_udp :: bool
  ei_endpoint :: endpoint

definition endpoint_build :: "('ws, 'ts, 'tc) build_env \<Rightarrow> endpoint_conf \<Rightarrow> endpoint_info checked" where
  "endpoint_build env c =
     bind_sum (build_local env c) (\<lambda>laddr.
     bind_sum (build_remote c) (\<lambda>raddr.
     bind_sum (mapM_sum build_remote_x (ec_extra_remotes c)) (\<lambda>extra.
     let info = net_build (ec_network c) in
     bind_sum (build_balancer env c) (\<lambda>b.
     let transport = build_transport env c in
     bind_sum (build_send_through env c) (\<lambda>through.
       Inr \<lparr>ei_no_tcp = ni_no_tcp info, ei_use_udp = ni_use_udp info,
            ei_endpoint = \<lparr>ep_laddr = laddr, ep_raddr = raddr,
              ep_bind_opts = (ni_bind_opts info)\<lparr>bo_bind_interface := ec_listen_interface c\<rparr>,
              ep_conn_opts = (ni_conn_opts info)\<lparr>co_balancer := b, co_transport := transport, co_bind_address := through,
                co_bind_interface := ec_interface c,
                co_obfs := ascii_lower (case ec_obfs c of Some s \<Rightarrow> s | None \<Rightarrow> [])\<rparr>,
              ep_extra_raddrs = extra\<rparr>\<rparr>)))))"

text \<open>An endpoint is never empty, and is not overridden as a whole: those methods are unreachable.\<close>

definition endpoint_is_empty :: "endpoint_conf \<Rightarrow> bool" where
  "endpoint_is_empty c = False"

definition endpoint_rst_field :: "endpoint_conf \<Rightarrow> endpoint_conf \<Rightarrow> endpoint_conf checked" where
  "endpoint_rst_field this other = Inl (Panic ''unreachable!'')"

definition endpoint_take_field :: "endpoint_conf \<Rightarrow> endpoint_conf \<Rightarrow> endpoint_conf checked" where
  "endpoint_take_field this other = Inl (Panic ''unreachable!'')"

definition plain_endpoint :: "string \<Rightarrow> string \<Rightarrow> endpoint_conf" where
  "plain_endpoint listen remote =
     \<lparr>ec_listen = listen, ec_remote = remote, ec_extra_remotes = [], ec_obfs = None, ec_balance = None, ec_through = None,
      ec_interface = None, ec_listen_interface = None, ec_listen_transport = None, ec_remote_transport = None,
      ec_network = net_default\<rparr>"

definition endpoint_from_cmd_args :: "arg_matches \<Rightarrow> endpoint_conf checked" where
  "endpoint_from_cmd_args m =
     (case get_one m ''local'' of
        None \<Rightarrow> Inl (Panic ''unwrap'')
      | Some l \<Rightarrow>
          (case get_one m ''remote'' of
             None \<Rightarrow> Inl (Panic ''unwrap'')
           | Some r \<Rightarrow>
               Inr ((plain_endpoint l r)\<lparr>ec_through := get_one m ''through'', ec_interface := get_one m ''interface'',
                 ec_listen_interface := get_one m ''listen_interface'',
                 ec_listen_transport := get_one m ''listen_transport'',
                 ec_remote_transport := get_one m ''remote_transport''\<rparr>)))"

section \<open>What a printed remote address is read as\<close>

lemma colon_no_digit: "CHR '':'' \<notin> set (show_nat n)"
  by (rule show_nat_no_nondigit) (simp add: is_digit_def)

lemma build_remote_domain:
  assumes "parse_sock (host @ '':'' @ show_nat (unat (port :: u16))) = None"
  shows "build_remote_x (show_remote (DomainName host port)) = Inr (DomainName host port)"
proof -
  have "rsplit_once CHR '':'' (host @ '':'' @ show_nat (unat port)) = Some (host, show_nat (unat port))"
    using split_once_rev [OF colon_no_digit, of host "unat port"] by simp
  then show ?thesis using assms by (simp add: build_remote_x_def parse_u16_show)
qed

text \<open>
  A name whose first label is no number is no address: a reader of version 4 stops at the first character.
\<close>

lemma read_sock4_letter: "\<not> is_digit c \<Longrightarrow> read_sock4 (c # s) = None"
  by (simp add: read_sock4_def read_ip4_def read_sep_def read_octet_def read_number_def dec_val_def)

lemma read_sock6_no_bracket: "c \<noteq> CHR ''['' \<Longrightarrow> read_sock6 (c # s) = None"
  by (simp add: read_sock6_def)

lemma parse_sock_letter: "\<not> is_digit c \<Longrightarrow> c \<noteq> CHR ''['' \<Longrightarrow> parse_sock (c # s) = None"
  by (simp add: parse_sock_def parse_with_def read_or_def read_sock4_letter read_sock6_no_bracket)

lemma build_remote_show:
  assumes "case r of RemoteSock a \<Rightarrow> is_ipv4 a
    | DomainName host port \<Rightarrow> (case host of c # _ \<Rightarrow> \<not> is_digit c \<and> c \<noteq> CHR ''['' | [] \<Rightarrow> False)"
  shows "build_remote_x (show_remote r) = Inr r"
proof (cases r)
  case (RemoteSock a)
  then obtain ip p where "a = SockV4 ip p" using assms by (cases a) auto
  then show ?thesis using RemoteSock parse_sock_show4 [of ip p] by (simp add: build_remote_x_def)
next
  case (DomainName host port)
  then obtain c h where h: "host = c # h" "\<not> is_digit c" "c \<noteq> CHR ''[''" using assms by (cases host) auto
  then have "parse_sock (host @ '':'' @ show_nat (unat port)) = None" using parse_sock_letter by simp
  then show ?thesis using build_remote_domain DomainName by simp
qed

section \<open>Properties\<close>

text \<open>
  C38: A printed remote address is read back: for a version 4 address and for a domain name that starts with neither a
  digit nor a bracket, the remote of an endpoint configured with the printed text is the address itself.
\<close>
theorem remote_roundtrip:
  assumes "case r of RemoteSock a \<Rightarrow> is_ipv4 a
    | DomainName host port \<Rightarrow> (case host of c # _ \<Rightarrow> \<not> is_digit c \<and> c \<noteq> CHR ''['' | [] \<Rightarrow> False)"
  shows "build_remote ((plain_endpoint l s)\<lparr>ec_remote := show_remote r\<rparr>) = Inr r"
  using build_remote_show [OF assms] by (simp add: build_remote_def)

theorem remote_roundtrip_witness:
  "build_remote ((plain_endpoint [] [])\<lparr>ec_remote := ''127.0.0.1:5201''\<rparr>) = Inr (RemoteSock (SockV4 0x7F000001 5201)) \<and>
   build_remote ((plain_endpoint [] [])\<lparr>ec_remote := ''example.com:443''\<rparr>) = Inr (DomainName ''example.com'' 443)"
proof -
  have "show_remote (RemoteSock (SockV4 0x7F000001 5201)) = ''127.0.0.1:5201''"
    "show_remote (DomainName ''example.com'' 443) = ''example.com:443''"
    by (simp_all add: show_ip4_def octets4_def show_nat.simps digit_char_def char_of_def bit_0)
  moreover have "build_remote ((plain_endpoint [] [])\<lparr>ec_remote := show_remote (RemoteSock (SockV4 0x7F000001 5201))\<rparr>)
      = Inr (RemoteSock (SockV4 0x7F000001 5201))"
    by (rule remote_roundtrip) simp
  moreover have "build_remote ((plain_endpoint [] [])\<lparr>ec_remote := show_remote (DomainName ''example.com'' 443)\<rparr>)
      = Inr (DomainName ''example.com'' 443)"
    by (rule remote_roundtrip) (simp add: is_digit_def)
  ultimately show ?thesis by simp
qed

end
