(* ===== verification/Conf_Log_Dns.thy ===== *)
theory Conf_Log_Dns
  imports Conf_Base Addr_Parse
begin

text \<open>
  The log and dns options, \<^verbatim>\<open>src/conf/log.rs\<close> and \<^verbatim>\<open>src/conf/dns.rs\<close>: their enumerations with
  their names, the overriding of the fields, and what is built from them. The types of the resolver crate are
  modelled as far as the code fills them; its defaults and the system's name servers are parameters.
\<close>

section \<open>Logging\<close>

datatype log_level = LogOff | LogError | LogWarn | LogInfo | LogDebug | LogTrace
datatype level_filter = FilterOff | FilterError | FilterWarn | FilterInfo | FilterDebug | FilterTrace

text \<open>
  The filters are ordered by how much they let through; a line of a level is evaluated when its level is at most the
  configured filter.
\<close>

fun level_rank :: "level_filter \<Rightarrow> nat" where
  "level_rank FilterOff = 0"
| "level_rank FilterError = 1"
| "level_rank FilterWarn = 2"
| "level_rank FilterInfo = 3"
| "level_rank FilterDebug = 4"
| "level_rank FilterTrace = 5"

lemma level_rank_inj: "level_rank l = level_rank m \<Longrightarrow> l = m"
  by (cases l; cases m) simp_all

instantiation level_filter :: linorder
begin

definition less_eq_level_filter :: "level_filter \<Rightarrow> level_filter \<Rightarrow> bool" where
  "l \<le> m \<longleftrightarrow> level_rank l \<le> level_rank m"

definition less_level_filter :: "level_filter \<Rightarrow> level_filter \<Rightarrow> bool" where
  "l < m \<longleftrightarrow> level_rank l < level_rank m"

instance
  by standard (auto simp: less_eq_level_filter_def less_level_filter_def intro: level_rank_inj)

end

definition log_enabled :: "level_filter \<Rightarrow> level_filter \<Rightarrow> bool" where
  "log_enabled configured level = (level \<le> configured)"

definition log_level_from :: "string \<Rightarrow> log_level" where
  "log_level_from x =
     (let s = ascii_lower x in
      if s = ''off'' then LogOff else if s = ''error'' then LogError else if s = ''warn'' then LogWarn
      else if s = ''info'' then LogInfo else if s = ''debug'' then LogDebug else if s = ''trace'' then LogTrace
      else LogOff)"

fun level_filter_from :: "log_level \<Rightarrow> level_filter" where
  "level_filter_from LogOff = FilterOff"
| "level_filter_from LogError = FilterError"
| "level_filter_from LogWarn = FilterWarn"
| "level_filter_from LogInfo = FilterInfo"
| "level_filter_from LogDebug = FilterDebug"
| "level_filter_from LogTrace = FilterTrace"

fun show_log_level :: "log_level \<Rightarrow> string" where
  "show_log_level LogOff = ''off''"
| "show_log_level LogError = ''error''"
| "show_log_level LogWarn = ''warn''"
| "show_log_level LogInfo = ''info''"
| "show_log_level LogDebug = ''debug''"
| "show_log_level LogTrace = ''trace''"

record log_conf =
  lc_level :: "log_level option"
  lc_output :: "string option"

definition log_default :: log_conf where
  "log_default = \<lparr>lc_level = None, lc_output = None\<rparr>"

definition log_is_empty :: "log_conf \<Rightarrow> bool" where
  "log_is_empty c = all_none [lc_level c = None, lc_output c = None]"

datatype log_output = OutStdout | OutStderr | OutFile string

text \<open>\<open>open_log\<close> is the opening of the file for appending: its error, if any.\<close>

definition log_build :: "(string \<Rightarrow> io_error option) \<Rightarrow> log_conf \<Rightarrow> (level_filter \<times> log_output) checked" where
  "log_build open_log c =
     (let level = (case lc_level c of Some l \<Rightarrow> l | None \<Rightarrow> LogOff);
          output = (case lc_output c of Some x \<Rightarrow> x | None \<Rightarrow> DEFAULT_LOG_FILE)
      in bind_sum
           (if output = ''stdout'' then Inr OutStdout else if output = ''stderr'' then Inr OutStderr
            else case open_log output of None \<Rightarrow> Inr (OutFile output) | Some e \<Rightarrow> Inl (Panic (''failed to open '' @ output)))
           (\<lambda>out. Inr (level_filter_from level, out)))"

definition log_rst_field :: "log_conf \<Rightarrow> log_conf \<Rightarrow> log_conf" where
  "log_rst_field this other =
     \<lparr>lc_level = rst_field (lc_level this) (lc_level other), lc_output = rst_field (lc_output this) (lc_output other)\<rparr>"

definition log_take_field :: "log_conf \<Rightarrow> log_conf \<Rightarrow> log_conf" where
  "log_take_field this other =
     \<lparr>lc_level = take_field (lc_level this) (lc_level other), lc_output = take_field (lc_output this) (lc_output other)\<rparr>"

interpretation logc: config log_default log_rst_field log_take_field
  by unfold_locales (simp_all add: log_default_def log_rst_field_def log_take_field_def rst_field_assoc take_field_rst)

definition log_from_cmd_args :: "arg_matches \<Rightarrow> log_conf" where
  "log_from_cmd_args m =
     \<lparr>lc_level = map_option log_level_from (get_one m ''log_level''), lc_output = get_one m ''log_output''\<rparr>"

definition show_log_conf :: "log_conf \<Rightarrow> string" where
  "show_log_conf c =
     ''level='' @ show_log_level (case lc_level c of Some l \<Rightarrow> l | None \<Rightarrow> LogOff)
     @ '', output='' @ (case lc_output c of Some x \<Rightarrow> x | None \<Rightarrow> ''stdout'')"

lemma log_level_show: "log_level_from (show_log_level l) = l"
  by (cases l) (simp_all add: log_level_from_def ascii_lower_def lower_char_def)

section \<open>Name resolution\<close>

datatype dns_mode = Ipv4Only | Ipv6Only | Ipv4AndIpv6 | Ipv4ThenIpv6 | Ipv6ThenIpv4
datatype ip_strategy = StratIpv4Only | StratIpv6Only | StratIpv4AndIpv6 | StratIpv4thenIpv6 | StratIpv6thenIpv4

fun show_dns_mode :: "dns_mode \<Rightarrow> string" where
  "show_dns_mode Ipv4Only = ''ipv4_only''"
| "show_dns_mode Ipv6Only = ''ipv6_only''"
| "show_dns_mode Ipv4AndIpv6 = ''ipv4_and_ipv6''"
| "show_dns_mode Ipv4ThenIpv6 = ''ipv4_then_ipv6''"
| "show_dns_mode Ipv6ThenIpv4 = ''ipv6_then_ipv4''"

definition dns_mode_from :: "string \<Rightarrow> dns_mode" where
  "dns_mode_from x =
     (let s = ascii_lower x in
      if s = ''ipv4_only'' then Ipv4Only else if s = ''ipv6_only'' then Ipv6Only
      else if s = ''ipv4_and_ipv6'' then Ipv4AndIpv6 else if s = ''ipv4_then_ipv6'' then Ipv4ThenIpv6
      else if s = ''ipv6_then_ipv4'' then Ipv6ThenIpv4 else Ipv4AndIpv6)"

fun ip_strategy_from :: "dns_mode \<Rightarrow> ip_strategy" where
  "ip_strategy_from Ipv4Only = StratIpv4Only"
| "ip_strategy_from Ipv6Only = StratIpv6Only"
| "ip_strategy_from Ipv4AndIpv6 = StratIpv4AndIpv6"
| "ip_strategy_from Ipv4ThenIpv6 = StratIpv4thenIpv6"
| "ip_strategy_from Ipv6ThenIpv4 = StratIpv6thenIpv4"

lemma dns_mode_show: "dns_mode_from (show_dns_mode m) = m"
  by (cases m) (simp_all add: dns_mode_from_def ascii_lower_def lower_char_def)

datatype dns_protocol = DnsTcp | DnsUdp | DnsTcpAndUdp
datatype ns_protocol = NsTcp | NsUdp

fun show_dns_protocol :: "dns_protocol \<Rightarrow> string" where
  "show_dns_protocol DnsTcp = ''tcp''"
| "show_dns_protocol DnsUdp = ''udp''"
| "show_dns_protocol DnsTcpAndUdp = ''tcp+udp''"

definition dns_protocol_from :: "string \<Rightarrow> dns_protocol" where
  "dns_protocol_from x =
     (let s = ascii_lower x in if s = ''tcp'' then DnsTcp else if s = ''udp'' then DnsUdp else DnsTcpAndUdp)"

fun ns_protocols :: "dns_protocol \<Rightarrow> ns_protocol list" where
  "ns_protocols DnsTcp = [NsTcp]"
| "ns_protocols DnsUdp = [NsUdp]"
| "ns_protocols DnsTcpAndUdp = [NsTcp, NsUdp]"

lemma dns_protocol_show: "dns_protocol_from (show_dns_protocol p) = p"
  by (cases p) (simp_all add: dns_protocol_from_def ascii_lower_def lower_char_def)

record dns_options =
  do_mode :: "dns_mode option"
  do_min_ttl :: "nat option"
  do_max_ttl :: "nat option"
  do_cache_size :: "nat option"
  do_protocol :: "dns_protocol option"
  do_nameservers :: "string list option"

definition dns_default :: dns_options where
  "dns_default = \<lparr>do_mode = None, do_min_ttl = None, do_max_ttl = None, do_cache_size = None, do_protocol = None,
     do_nameservers = None\<rparr>"

definition show_dns_options :: "dns_options \<Rightarrow> string" where
  "show_dns_options c =
     ''mode='' @ show_dns_mode (case do_mode c of Some x \<Rightarrow> x | None \<Rightarrow> Ipv4AndIpv6)
     @ '', protocol='' @ show_dns_protocol (case do_protocol c of Some x \<Rightarrow> x | None \<Rightarrow> DnsTcpAndUdp)
     @ '', min-ttl='' @ show_nat (case do_min_ttl c of Some x \<Rightarrow> x | None \<Rightarrow> 0)
     @ '', max-ttl='' @ show_nat (case do_max_ttl c of Some x \<Rightarrow> x | None \<Rightarrow> 86400)
     @ '', cache-size='' @ show_nat (case do_cache_size c of Some x \<Rightarrow> x | None \<Rightarrow> 32)
     @ '', servers='' @ (case do_nameservers c of Some s \<Rightarrow> join '', '' s | None \<Rightarrow> ''system'')"

text \<open>What the code fills of \<^verbatim>\<open>ResolverOpts\<close>; \<open>'r\<close> is the rest.\<close>

record 'r resolver_opts =
  ro_ip_strategy :: ip_strategy
  ro_positive_min_ttl :: "nat option"
  ro_positive_max_ttl :: "nat option"
  ro_cache_size :: nat
  ro_rest :: 'r

record name_server =
  ns_addr :: sock_addr
  ns_protocol :: ns_protocol
  ns_trust_negative :: bool

text \<open>
  The defaults of the crate (\<open>opts0\<close>, \<open>strat0\<close>) and of the system (\<open>sys_servers\<close>, the addresses of its name servers).
\<close>

definition dns_build_opts :: "'r resolver_opts \<Rightarrow> ip_strategy \<Rightarrow> dns_options \<Rightarrow> 'r resolver_opts option" where
  "dns_build_opts opts0 strat0 c =
     (if all_none [do_mode c = None, do_min_ttl c = None, do_max_ttl c = None, do_cache_size c = None] then None
      else Some (opts0\<lparr>ro_ip_strategy := (case do_mode c of Some m \<Rightarrow> ip_strategy_from m | None \<Rightarrow> strat0),
                       ro_positive_min_ttl := do_min_ttl c, ro_positive_max_ttl := do_max_ttl c,
                       ro_cache_size := (case do_cache_size c of Some n \<Rightarrow> n | None \<Rightarrow> ro_cache_size opts0)\<rparr>))"

definition first_addr :: "sock_addr list io_result \<Rightarrow> sock_addr checked" where
  "first_addr r =
     (case r of
        Inr (a # _) \<Rightarrow> Inr a
      | Inr [] \<Rightarrow> Inl (Panic ''next().unwrap()'')
      | Inl e \<Rightarrow> Inl (Panic ''to_socket_addrs().unwrap()''))"

definition add_name_servers :: "sock_addr list \<Rightarrow> ns_protocol list \<Rightarrow> name_server list" where
  "add_name_servers addrs protocols =
     concat (map (\<lambda>a. map (\<lambda>p. \<lparr>ns_addr = a, ns_protocol = p, ns_trust_negative = True\<rparr>) protocols) addrs)"

definition dns_conf_build ::
  "'r resolver_opts \<Rightarrow> ip_strategy \<Rightarrow> sock_addr list \<Rightarrow> (string \<Rightarrow> sock_addr list io_result) \<Rightarrow> dns_options
     \<Rightarrow> (name_server list option \<times> 'r resolver_opts option) checked" where
  "dns_conf_build opts0 strat0 sys_servers to_addrs c =
     (let opts = dns_build_opts opts0 strat0 c;
          protocol = (case do_protocol c of Some p \<Rightarrow> p | None \<Rightarrow> DnsTcpAndUdp)
      in if do_nameservers c = None \<and> protocol = DnsTcpAndUdp then Inr (None, opts)
         else bind_sum
           (case do_nameservers c of
              Some addrs \<Rightarrow> mapM_sum (\<lambda>x. first_addr (to_addrs x)) addrs
            | None \<Rightarrow> Inr (remdups_adj sys_servers))
           (\<lambda>addrs. Inr (Some (add_name_servers addrs (ns_protocols protocol)), opts)))"

definition dns_rst_field :: "dns_options \<Rightarrow> dns_options \<Rightarrow> dns_options" where
  "dns_rst_field this other =
     \<lparr>do_mode = rst_field (do_mode this) (do_mode other),
      do_min_ttl = rst_field (do_min_ttl this) (do_min_ttl other),
      do_max_ttl = rst_field (do_max_ttl this) (do_max_ttl other),
      do_cache_size = rst_field (do_cache_size this) (do_cache_size other),
      do_protocol = rst_field (do_protocol this) (do_protocol other),
      do_nameservers = rst_field (do_nameservers this) (do_nameservers other)\<rparr>"

definition dns_take_field :: "dns_options \<Rightarrow> dns_options \<Rightarrow> dns_options" where
  "dns_take_field this other =
     \<lparr>do_mode = take_field (do_mode this) (do_mode other),
      do_min_ttl = take_field (do_min_ttl this) (do_min_ttl other),
      do_max_ttl = take_field (do_max_ttl this) (do_max_ttl other),
      do_cache_size = take_field (do_cache_size this) (do_cache_size other),
      do_protocol = take_field (do_protocol this) (do_protocol other),
      do_nameservers = take_field (do_nameservers this) (do_nameservers other)\<rparr>"

interpretation dnsc: config dns_default dns_rst_field dns_take_field
  by unfold_locales (simp_all add: dns_default_def dns_rst_field_def dns_take_field_def rst_field_assoc take_field_rst)

definition dns_from_cmd_args :: "arg_matches \<Rightarrow> dns_options" where
  "dns_from_cmd_args m =
     \<lparr>do_mode = map_option dns_mode_from (get_one m ''dns_mode''),
      do_min_ttl = opt_arg parse_u32 ''dns_min_ttl'' m, do_max_ttl = opt_arg parse_u32 ''dns_max_ttl'' m,
      do_cache_size = opt_arg parse_usize ''dns_cache_size'' m,
      do_protocol = map_option dns_protocol_from (get_one m ''dns_protocol''),
      do_nameservers = map_option (split_on CHR '','') (get_one m ''dns_servers'')\<rparr>"

definition dns_is_empty :: "dns_options \<Rightarrow> bool" where
  "dns_is_empty c = all_none [do_mode c = None, do_min_ttl c = None, do_max_ttl c = None, do_cache_size c = None]"

text \<open>
  What the check leaves out: options with name servers count as empty, and are then not written when a configuration
  is serialized.
\<close>

lemma dns_is_empty_misses:
  "dns_is_empty (dns_default\<lparr>do_nameservers := Some [''1.1.1.1:53'']\<rparr>)"
  "dns_default\<lparr>do_nameservers := Some [''1.1.1.1:53'']\<rparr> \<noteq> dns_default"
  by (simp_all add: dns_is_empty_def dns_default_def)

text \<open>The servers that are asked: every address with every protocol, in the order of the addresses.\<close>

lemma dns_conf_build_servers:
  assumes "dns_conf_build opts0 strat0 sys_servers to_addrs c = Inr (Some servers, opts)"
    and "do_nameservers c = Some xs"
  shows "\<exists>addrs. list_all2 (\<lambda>x a. \<exists>r. to_addrs x = Inr (a # r)) xs addrs \<and>
    servers = add_name_servers addrs (ns_protocols (case do_protocol c of Some p \<Rightarrow> p | None \<Rightarrow> DnsTcpAndUdp))"
proof -
  obtain addrs where a: "mapM_sum (\<lambda>x. first_addr (to_addrs x)) xs = Inr addrs"
    "servers = add_name_servers addrs (ns_protocols (case do_protocol c of Some p \<Rightarrow> p | None \<Rightarrow> DnsTcpAndUdp))"
    using assms by (auto simp: dns_conf_build_def Let_def bind_sum_Inr_iff)
  have "list_all2 (\<lambda>x a. \<exists>r. to_addrs x = Inr (a # r)) xs addrs" using a(1)
  proof (induction xs arbitrary: addrs)
    case (Cons x xs)
    then show ?case
      by (auto simp: bind_sum_Inr_iff first_addr_def split: sum.splits list.splits)
  qed simp
  with a(2) show ?thesis by blast
qed

end
