(* ===== verification/Conf.thy ===== *)
theory Conf
  imports Conf_Endpoint Conf_Log_Dns
begin

text \<open>
  Whole configurations, \<^verbatim>\<open>src/conf/mod.rs\<close>, and the old format, \<^verbatim>\<open>src/conf/legacy/mod.rs\<close>. The
  parsers of toml and json and the file system are parameters.
\<close>

section \<open>The old format\<close>

record legacy_conf =
  listen_addrs :: "string list"
  listen_ports :: "string list"
  remote_addrs :: "string list"
  remote_ports :: "string list"

definition unwrap_port :: "string \<Rightarrow> u16 checked" where
  "unwrap_port s = (case parse_u16 s of Some n \<Rightarrow> Inr (of_nat n) | None \<Rightarrow> Inl (Panic ''parse::<u16>().unwrap()''))"

text \<open>
  \<^verbatim>\<open>n + 1\<close>: it overflows for the last port, where a build with overflow checks panics and a release
  build wraps. A range whose end is not above its start is empty.
\<close>

definition port_succ :: "bool \<Rightarrow> u16 \<Rightarrow> u16 checked" where
  "port_succ overflow_checks n =
     (if overflow_checks \<and> n = - 1 then Inl (Panic ''attempt to add with overflow'') else Inr (n + 1))"

definition port_range :: "u16 \<Rightarrow> u16 \<Rightarrow> u16 list" where
  "port_range s e = map of_nat [unat s..<unat e]"

definition flatten_range :: "bool \<Rightarrow> string \<Rightarrow> u16 list checked" where
  "flatten_range overflow_checks rg =
     (case split_on CHR ''-'' rg of
        start # stop # _ \<Rightarrow>
          bind_sum (unwrap_port start) (\<lambda>s. bind_sum (unwrap_port stop) (\<lambda>e.
            bind_sum (port_succ overflow_checks e) (\<lambda>e. Inr (port_range s e))))
      | [start] \<Rightarrow>
          bind_sum (unwrap_port start) (\<lambda>s. bind_sum (unwrap_port start) (\<lambda>e.
            bind_sum (port_succ overflow_checks e) (\<lambda>e. Inr (port_range s e))))
      | [] \<Rightarrow> Inl (Panic ''failed to parse ports''))"

definition flatten_ports :: "bool \<Rightarrow> string list \<Rightarrow> u16 list checked" where
  "flatten_ports overflow_checks ports = bind_sum (mapM_sum (flatten_range overflow_checks) ports) (\<lambda>xs. Inr (concat xs))"

text \<open>The list, cut or filled up with its first element; an empty list panics.\<close>

definition pad_to :: "nat \<Rightarrow> 'a list \<Rightarrow> 'a list checked" where
  "pad_to len xs =
     (case xs of [] \<Rightarrow> Inl (Panic ''index out of bounds'')
      | x # _ \<Rightarrow> Inr (take len (take len xs @ replicate len x)))"

definition join_addr_port :: "string list \<Rightarrow> u16 list \<Rightarrow> nat \<Rightarrow> string list checked" where
  "join_addr_port addrs ports len =
     bind_sum (pad_to len ports) (\<lambda>ps. bind_sum (pad_to len addrs) (\<lambda>as.
       Inr (map (\<lambda>(addr, port). addr @ '':'' @ show_nat (unat port)) (zip as ps))))"

section \<open>Configurations\<close>

record full_conf =
  fc_log :: log_conf
  fc_dns :: dns_options
  fc_network :: net_conf
  fc_endpoints :: "endpoint_conf list"

definition full_default :: full_conf where
  "full_default = \<lparr>fc_log = log_default, fc_dns = dns_default, fc_network = net_default, fc_endpoints = []\<rparr>"

definition full_new :: "log_conf \<Rightarrow> dns_options \<Rightarrow> net_conf \<Rightarrow> endpoint_conf list \<Rightarrow> full_conf" where
  "full_new l d n es = \<lparr>fc_log = l, fc_dns = d, fc_network = n, fc_endpoints = es\<rparr>"

definition from_legacy :: "bool \<Rightarrow> legacy_conf \<Rightarrow> full_conf checked" where
  "from_legacy overflow_checks x =
     bind_sum (flatten_ports overflow_checks (listen_ports x)) (\<lambda>lports.
     bind_sum (flatten_ports overflow_checks (remote_ports x)) (\<lambda>rports.
     let len = length lports in
     bind_sum (join_addr_port (listen_addrs x) lports len) (\<lambda>listen.
     bind_sum (join_addr_port (remote_addrs x) rports len) (\<lambda>remote.
       Inr (full_default\<lparr>fc_endpoints := map (\<lambda>(l, r). plain_endpoint l r) (zip listen remote)\<rparr>)))))"

record conf_parsers =
  cp_toml :: "string \<Rightarrow> full_conf option"
  cp_json :: "string \<Rightarrow> full_conf option"
  cp_legacy :: "string \<Rightarrow> legacy_conf option"
  cp_overflow_checks :: bool

text \<open>The formats are tried in order; \<open>Inr (Inl e)\<close> is the error when none fits.\<close>

definition from_conf_str :: "conf_parsers \<Rightarrow> string \<Rightarrow> full_conf io_result checked" where
  "from_conf_str cp s =
     (case cp_toml cp s of
        Some x \<Rightarrow> Inr (Inr x)
      | None \<Rightarrow>
          (case cp_json cp s of
             Some x \<Rightarrow> Inr (Inr x)
           | None \<Rightarrow>
               (case cp_legacy cp s of
                  Some x \<Rightarrow> bind_sum (from_legacy (cp_overflow_checks cp) x) (\<lambda>c. Inr (Inr c))
                | None \<Rightarrow> Inr (Inl (OtherError ''parse as toml; parse as json; parse as legacy'')))))"

definition take_fields :: "full_conf \<Rightarrow> full_conf \<Rightarrow> full_conf" where
  "take_fields this other =
     this\<lparr>fc_log := log_take_field (fc_log this) (fc_log other),
          fc_dns := dns_take_field (fc_dns this) (fc_dns other),
          fc_network := net_take_field (fc_network this) (fc_network other),
          fc_endpoints := fc_endpoints this @ fc_endpoints other\<rparr>"

definition add_endpoint :: "full_conf \<Rightarrow> endpoint_conf \<Rightarrow> full_conf" where
  "add_endpoint this e = this\<lparr>fc_endpoints := fc_endpoints this @ [e]\<rparr>"

record cmd_override =
  ov_log :: log_conf
  ov_dns :: dns_options
  ov_network :: net_conf

definition apply_cmd_opts :: "full_conf \<Rightarrow> cmd_override \<Rightarrow> full_conf" where
  "apply_cmd_opts this opts =
     this\<lparr>fc_log := log_rst_field (fc_log this) (ov_log opts),
          fc_dns := dns_rst_field (fc_dns this) (ov_dns opts),
          fc_endpoints := map (\<lambda>x. x\<lparr>ec_network := net_rst_field (ec_network x) (ov_network opts)\<rparr>) (fc_endpoints this)\<rparr>"

definition apply_global_opts :: "full_conf \<Rightarrow> full_conf" where
  "apply_global_opts this =
     this\<lparr>fc_endpoints := map (\<lambda>x. x\<lparr>ec_network := net_take_field (ec_network x) (fc_network this)\<rparr>) (fc_endpoints this)\<rparr>"

section \<open>Files and directories\<close>

text \<open>
  A file with its contents (\<open>None\<close> when it cannot be read), a directory with its entries in the order the system
  lists them, or an entry that cannot be examined. Hidden entries and everything below them are left out: this is
  also asked of the path that was given.
\<close>

datatype fs_tree = FsFile string "string option" | FsDir string "fs_tree list" | FsBroken

definition hidden :: "string \<Rightarrow> bool" where
  "hidden name = (case name of c # _ \<Rightarrow> c = CHR ''.'' | [] \<Rightarrow> False)"

definition extension :: "string \<Rightarrow> string option" where
  "extension name =
     (case rsplit_once CHR ''.'' name of None \<Rightarrow> None | Some (stem, ext) \<Rightarrow> if stem = [] then None else Some ext)"

fun walk :: "fs_tree \<Rightarrow> (string \<times> string option) list" where
  "walk FsBroken = []"
| "walk (FsFile name content) = (if hidden name then [] else [(name, content)])"
| "walk (FsDir name entries) = (if hidden name then [] else concat (map walk entries))"

definition conf_files :: "fs_tree \<Rightarrow> (string \<times> string option) list" where
  "conf_files t = filter (\<lambda>(name, _). extension name \<in> {Some ''toml'', Some ''json''}) (walk t)"

definition read_conf :: "conf_parsers \<Rightarrow> string \<times> string option \<Rightarrow> full_conf checked" where
  "read_conf cp f =
     (case f of
        (name, None) \<Rightarrow> Inl (Panic (''failed to open '' @ name))
      | (name, Some s) \<Rightarrow>
          bind_sum (from_conf_str cp s) (\<lambda>r.
            case r of Inl e \<Rightarrow> Inl (Panic (''failed to parse '' @ name)) | Inr c \<Rightarrow> Inr c))"

fun take_parts :: "conf_parsers \<Rightarrow> full_conf \<Rightarrow> (string \<times> string option) list \<Rightarrow> full_conf checked" where
  "take_parts cp c [] = Inr c"
| "take_parts cp c (f # fs) = bind_sum (read_conf cp f) (\<lambda>part. take_parts cp (take_fields c part) fs)"

definition from_conf_file :: "conf_parsers \<Rightarrow> fs_tree \<Rightarrow> full_conf checked" where
  "from_conf_file cp t =
     (case t of
        FsBroken \<Rightarrow> Inl (Panic ''failed to open'')
      | FsFile name content \<Rightarrow> read_conf cp (name, content)
      | FsDir _ _ \<Rightarrow> take_parts cp full_default (conf_files t))"

text \<open>
  The path itself is asked too: a directory whose name starts with a dot gives no options and no endpoints.
\<close>

lemma hidden_root_ignored: "hidden name \<Longrightarrow> from_conf_file cp (FsDir name entries) = Inr full_default"
  by (simp add: from_conf_file_def conf_files_def)

section \<open>Which option wins\<close>

text \<open>The reference: the first of some sources that has a value.\<close>

fun first_some :: "'a option list \<Rightarrow> 'a option" where
  "first_some [] = None"
| "first_some (Some x # xs) = Some x"
| "first_some (None # xs) = first_some xs"

definition pick :: "(net_conf \<Rightarrow> 'a option) \<Rightarrow> net_conf list \<Rightarrow> 'a option" where
  "pick f cs = first_some (map f cs)"

definition net_first :: "net_conf list \<Rightarrow> net_conf" where
  "net_first cs =
     \<lparr>nc_no_tcp = pick nc_no_tcp cs, nc_use_udp = pick nc_use_udp cs, nc_ipv6_only = pick nc_ipv6_only cs,
      nc_send_mptcp = pick nc_send_mptcp cs, nc_accept_mptcp = pick nc_accept_mptcp cs, nc_send_proxy = pick nc_send_proxy cs,
      nc_accept_proxy = pick nc_accept_proxy cs, nc_send_proxy_version = pick nc_send_proxy_version cs,
      nc_accept_proxy_timeout = pick nc_accept_proxy_timeout cs, nc_tcp_keepalive = pick nc_tcp_keepalive cs,
      nc_tcp_keepalive_probe = pick nc_tcp_keepalive_probe cs, nc_tcp_timeout = pick nc_tcp_timeout cs,
      nc_udp_timeout = pick nc_udp_timeout cs\<rparr>"

lemma first_some_Cons: "first_some (x # xs) = rst_field (first_some xs) x"
  by (cases x) simp_all

lemma net_first_Nil [simp]: "net_first [] = net_default"
  by (simp add: net_first_def net_default_def pick_def)

lemma net_first_Cons [simp]: "net_first (c # cs) = net_rst_field (net_first cs) c"
  by (simp add: net_first_def net_rst_field_def pick_def first_some_Cons)

lemma network_precedence:
  "map ec_network (fc_endpoints (apply_cmd_opts (apply_global_opts c) opts)) =
     map (\<lambda>e. net_first [ov_network opts, ec_network e, fc_network c]) (fc_endpoints c)"
  by (simp add: apply_cmd_opts_def apply_global_opts_def net.take_then_rst net.rst_none_left net.taking_rst)

text \<open>Parts of a directory: the first file that has an option wins, the endpoints are put together.\<close>

lemma take_parts_spec:
  "take_parts cp c fs = Inr d \<Longrightarrow>
     \<exists>parts. mapM_sum (read_conf cp) fs = Inr parts \<and>
       fc_network d = net_first (fc_network c # map fc_network parts) \<and>
       fc_endpoints d = fc_endpoints c @ concat (map fc_endpoints parts)"
proof (induction fs arbitrary: c)
  case Nil
  then show ?case by (simp add: net.rst_none_left)
next
  case (Cons f fs)
  then obtain part where p: "read_conf cp f = Inr part" "take_parts cp (take_fields c part) fs = Inr d"
    by (auto simp: bind_sum_Inr_iff)
  from Cons.IH [OF p(2)] obtain parts where i: "mapM_sum (read_conf cp) fs = Inr parts"
    "fc_network d = net_first (fc_network (take_fields c part) # map fc_network parts)"
    "fc_endpoints d = fc_endpoints (take_fields c part) @ concat (map fc_endpoints parts)" by blast
  show ?case
    by (rule exI [where x = "part # parts"])
       (use p(1) i in \<open>simp add: take_fields_def net.taking_rst net.rst_assoc\<close>)
qed

section \<open>The old format, read\<close>

lemma pad_to_spec:
  assumes "xs \<noteq> []"
  shows "pad_to n xs = Inr (map (\<lambda>i. if i < length xs then xs ! i else hd xs) [0..<n])"
proof -
  obtain x r where x: "xs = x # r" using assms by (cases xs) auto
  have "take n (take n xs @ replicate n x) = map (\<lambda>i. if i < length xs then xs ! i else hd xs) [0..<n]"
    by (rule nth_equalityI) (auto simp: x nth_append)
  then show ?thesis by (simp add: pad_to_def x)
qed

lemma join_addr_port_spec:
  assumes "addrs \<noteq> []" "ports \<noteq> []"
  shows "join_addr_port addrs ports n =
    Inr (map (\<lambda>i. (if i < length addrs then addrs ! i else hd addrs) @ '':''
                @ show_nat (unat (if i < length ports then ports ! i else hd ports))) [0..<n])"
  by (simp add: join_addr_port_def pad_to_spec assms zip_map_map zip_same_conv_map)

text \<open>
  The last port is lost in a release build: its range is empty.
\<close>

lemma legacy_last_port:
  "flatten_ports False [''65535''] = Inr []"
  "flatten_ports False [''65534-65535''] = Inr []"
  "\<exists>p. flatten_ports True [''65535''] = Inl p"
  by (simp_all add: flatten_ports_def flatten_range_def unwrap_port_def parse_u16_def parse_uint_def is_digit_def
      digits_val_def digit_val_def port_succ_def port_range_def)

definition nth_or_hd :: "'a list \<Rightarrow> nat \<Rightarrow> 'a" where
  "nth_or_hd xs i = (if i < length xs then xs ! i else hd xs)"

definition at_port :: "string \<Rightarrow> u16 \<Rightarrow> string" where
  "at_port addr port = addr @ '':'' @ show_nat (unat port)"

section \<open>Properties\<close>

text \<open>
  C36: Which network option wins, for a directory of configuration files: for every endpoint of every file each
  option is that of the command line, or else the endpoint's own, or else that of the first file that gives it
  globally; no endpoint is lost, and none is added.
\<close>
theorem config_precedence:
  assumes "from_conf_file cp (FsDir name entries) = Inr c"
  shows "\<exists>parts. mapM_sum (read_conf cp) (conf_files (FsDir name entries)) = Inr parts \<and>
    map ec_network (fc_endpoints (apply_cmd_opts (apply_global_opts c) opts)) =
      map (\<lambda>e. net_first (ov_network opts # ec_network e # map fc_network parts)) (concat (map fc_endpoints parts))"
proof -
  obtain parts where p: "mapM_sum (read_conf cp) (conf_files (FsDir name entries)) = Inr parts"
    "fc_network c = net_first (net_default # map fc_network parts)"
    "fc_endpoints c = concat (map fc_endpoints parts)"
    using take_parts_spec [of cp full_default "conf_files (FsDir name entries)" c] assms
    by (auto simp: from_conf_file_def full_default_def)
  have "fc_network c = net_first (map fc_network parts)" using p(2) by (simp add: net.rst_none_right)
  then have eq: "net_first [ov_network opts, ec_network e, fc_network c]
      = net_first (ov_network opts # ec_network e # map fc_network parts)" for e
    by (simp add: net.rst_none_left)
  show ?thesis unfolding network_precedence
    by (rule exI [where x = parts], rule conjI, fact p(1), simp only: eq p(3))
qed

definition demo_parsers :: conf_parsers where
  "demo_parsers =
     \<lparr>cp_toml = (\<lambda>s. if s = ''a'' then Some (full_default\<lparr>fc_network := net_default\<lparr>nc_tcp_timeout := Some 7\<rparr>,
                       fc_endpoints := [plain_endpoint ''l'' ''r'']\<rparr>)
                  else if s = ''b'' then Some (full_default\<lparr>fc_network := net_default\<lparr>nc_tcp_timeout := Some 9, nc_use_udp := Some True\<rparr>\<rparr>)
                  else None),
      cp_json = (\<lambda>_. None), cp_legacy = (\<lambda>_. None), cp_overflow_checks = False\<rparr>"

theorem config_precedence_witness:
  "\<exists>c. from_conf_file demo_parsers (FsDir ''conf'' [FsFile ''a.toml'' (Some ''a''), FsFile ''.b.toml'' None, FsFile ''b.json'' (Some ''b'')])
       = Inr c \<and>
     map ec_network (fc_endpoints (apply_cmd_opts (apply_global_opts c)
       \<lparr>ov_log = log_default, ov_dns = dns_default, ov_network = net_default\<lparr>nc_no_tcp := Some True\<rparr>\<rparr>)) =
     [net_default\<lparr>nc_no_tcp := Some True, nc_use_udp := Some True, nc_tcp_timeout := Some 7\<rparr>]"
proof -
  let ?t = "[FsFile ''a.toml'' (Some ''a''), FsFile ''.b.toml'' None, FsFile ''b.json'' (Some ''b'')]"
  let ?o = "\<lparr>ov_log = log_default, ov_dns = dns_default, ov_network = net_default\<lparr>nc_no_tcp := Some True\<rparr>\<rparr>"
  have files: "conf_files (FsDir ''conf'' ?t) = [(''a.toml'', Some ''a''), (''b.json'', Some ''b'')]"
    by (simp add: conf_files_def hidden_def extension_def rsplit_once_def)
  obtain c where c: "from_conf_file demo_parsers (FsDir ''conf'' ?t) = Inr c"
    using files by (simp add: from_conf_file_def read_conf_def from_conf_str_def demo_parsers_def)
  from config_precedence [OF this, of ?o] c files show ?thesis
    by (auto simp: read_conf_def from_conf_str_def demo_parsers_def full_default_def plain_endpoint_def net_rst_field_def
        net_default_def)
qed

text \<open>
  C39: Reading the old format: when the port lists can be read, the conversion panics exactly when a
  list is empty, and otherwise there is one endpoint per listening port; where the other lists are shorter
  their first element is used.
\<close>
theorem legacy_convert:
  assumes "flatten_ports oc (listen_ports x) = Inr lp" "flatten_ports oc (remote_ports x) = Inr rp"
  shows "from_legacy oc x =
    (if lp = [] \<or> rp = [] \<or> listen_addrs x = [] \<or> remote_addrs x = [] then Inl (Panic ''index out of bounds'')
     else Inr (full_default\<lparr>fc_endpoints := map (\<lambda>i. plain_endpoint (at_port (nth_or_hd (listen_addrs x) i) (nth_or_hd lp i))
                                                    (at_port (nth_or_hd (remote_addrs x) i) (nth_or_hd rp i)))
                                            [0..<length lp]\<rparr>))"
proof -
  have j: "join_addr_port as ps n = (if as = [] \<or> ps = [] then Inl (Panic ''index out of bounds'')
      else Inr (map (\<lambda>i. at_port (nth_or_hd as i) (nth_or_hd ps i)) [0..<n]))" for as and ps :: "u16 list" and n
    using join_addr_port_spec [of as ps n]
    by (auto simp: at_port_def nth_or_hd_def) (auto simp: join_addr_port_def pad_to_def split: list.splits)
  show ?thesis using assms
    by (auto simp: from_legacy_def j Let_def zip_map_map zip_same_conv_map)
qed

theorem legacy_convert_witness:
  "\<exists>c. from_legacy False \<lparr>listen_addrs = [''0.0.0.0''], listen_ports = [''80-81''], remote_addrs = [''a.com'', ''b.com''],
       remote_ports = [''443'']\<rparr> = Inr c \<and>
     map ec_listen (fc_endpoints c) = [''0.0.0.0:80'', ''0.0.0.0:81''] \<and>
     map ec_remote (fc_endpoints c) = [''a.com:443'', ''b.com:443'']"
proof -
  let ?x = "\<lparr>listen_addrs = [''0.0.0.0''], listen_ports = [''80-81''], remote_addrs = [''a.com'', ''b.com''],
       remote_ports = [''443'']\<rparr>"
  have "flatten_ports False (listen_ports ?x) = Inr [80, 81]" "flatten_ports False (remote_ports ?x) = Inr [443]"
    by (simp_all add: flatten_ports_def flatten_range_def unwrap_port_def parse_u16_def parse_uint_def is_digit_def
        digits_val_def digit_val_def port_succ_def port_range_def upt_conv_Cons)
  from legacy_convert [OF this] show ?thesis
    by (simp add: at_port_def nth_or_hd_def plain_endpoint_def show_nat.simps digit_char_def char_of_def bit_0 full_default_def)
qed

end
