(* ===== verification/Syscall.thy ===== *)
theory Syscall
  imports Net_Addr
begin

text \<open>
  The system calls of \<^verbatim>\<open>hoorayhug_syscall/src\<close>: which sockets are asked for (\<^verbatim>\<open>socket.rs\<close>), the limit on
  open files (\<^verbatim>\<open>nofile.rs\<close>) and the move to the background (\<^verbatim>\<open>daemon.rs\<close>). The kernel's answers are parameters.
\<close>

section \<open>Sockets\<close>

datatype sock_domain = DomainV4 | DomainV6
datatype sock_type = TypeStream | TypeDgram
datatype sock_protocol = ProtoTcp | ProtoMptcp | ProtoUdp

text \<open>
  The one call of the Linux version: the type carries \<^verbatim>\<open>SOCK_NONBLOCK\<close> and \<^verbatim>\<open>SOCK_CLOEXEC\<close>. A negative
  result is the error of the call.
\<close>

record socket_req =
  sr_domain :: sock_domain
  sr_type :: sock_type
  sr_nonblock :: bool
  sr_cloexec :: bool
  sr_protocol :: sock_protocol

definition new_socket ::
  "(socket_req \<Rightarrow> int) \<Rightarrow> io_error \<Rightarrow> sock_domain \<Rightarrow> sock_type \<Rightarrow> sock_protocol \<Rightarrow> int io_result" where
  "new_socket sys errno d t p =
     (let fd = sys \<lparr>sr_domain = d, sr_type = t, sr_nonblock = True, sr_cloexec = True, sr_protocol = p\<rparr>
      in if fd < 0 then Inl errno else Inr fd)"

text \<open>
  The version of the systems without these flags: the socket is made first and set non-blocking by a second call. When
  that fails the socket is dropped, which closes it. The descriptors that are open and non-blocking are the state.
\<close>

record fd_state =
  fs_open :: "int set"
  fs_nonblock :: "int set"

definition new_socket_portable ::
  "(sock_domain \<Rightarrow> sock_type \<Rightarrow> sock_protocol option \<Rightarrow> int io_result) \<Rightarrow> (int \<Rightarrow> bool \<Rightarrow> unit io_result)
     \<Rightarrow> sock_domain \<Rightarrow> sock_type \<Rightarrow> sock_protocol \<Rightarrow> fd_state \<Rightarrow> int io_result \<times> fd_state" where
  "new_socket_portable socket set_nonblocking d t p s =
     (case socket d t (Some p) of
        Inl e \<Rightarrow> (Inl e, s)
      | Inr fd \<Rightarrow>
          (let s1 = s\<lparr>fs_open := insert fd (fs_open s)\<rparr> in
           case set_nonblocking fd True of
             Inl e \<Rightarrow> (Inl e, s1\<lparr>fs_open := fs_open s1 - {fd}\<rparr>)
           | Inr _ \<Rightarrow> (Inr fd, s1\<lparr>fs_nonblock := insert fd (fs_nonblock s1)\<rparr>)))"

text \<open>No descriptor is left behind by an error, and what is returned is open and does not block.\<close>

lemma new_socket_portable_spec:
  assumes "new_socket_portable socket set_nonblocking d t p s = (r, s')"
    and "\<forall>fd. socket d t (Some p) = Inr fd \<longrightarrow> fd \<notin> fs_open s"
  shows "case r of
      Inl e \<Rightarrow> s' = s
    | Inr fd \<Rightarrow> fs_open s' = insert fd (fs_open s) \<and> fd \<in> fs_nonblock s' \<and> fd \<notin> fs_open s"
  using assms by (auto simp: new_socket_portable_def Let_def split: sum.splits)

definition domain_of :: "sock_addr \<Rightarrow> sock_domain" where
  "domain_of addr = (case addr of SockV4 _ _ \<Rightarrow> DomainV4 | SockV6 _ _ _ _ \<Rightarrow> DomainV6)"

definition new_tcp_socket :: "(socket_req \<Rightarrow> int) \<Rightarrow> io_error \<Rightarrow> sock_addr \<Rightarrow> int io_result" where
  "new_tcp_socket sys errno addr = new_socket sys errno (domain_of addr) TypeStream ProtoTcp"

definition new_mptcp_socket :: "(socket_req \<Rightarrow> int) \<Rightarrow> io_error \<Rightarrow> sock_addr \<Rightarrow> int io_result" where
  "new_mptcp_socket sys errno addr = new_socket sys errno (domain_of addr) TypeStream ProtoMptcp"

definition new_udp_socket :: "(socket_req \<Rightarrow> int) \<Rightarrow> io_error \<Rightarrow> sock_addr \<Rightarrow> int io_result" where
  "new_udp_socket sys errno addr = new_socket sys errno (domain_of addr) TypeDgram ProtoUdp"

text \<open>The choice of \<^verbatim>\<open>tcp/socket.rs\<close> on Linux.\<close>

definition tcp_new_socket :: "(socket_req \<Rightarrow> int) \<Rightarrow> io_error \<Rightarrow> sock_addr \<Rightarrow> bool \<Rightarrow> int io_result" where
  "tcp_new_socket sys errno addr mptcp = (if mptcp then new_mptcp_socket sys errno addr else new_tcp_socket sys errno addr)"

text \<open>
  Every socket of the program is made by one call, non-blocking and closed on exec, for the family of its address.
\<close>

lemma sockets_asked_for:
  assumes "f \<in> {\<lambda>sys. tcp_new_socket sys errno addr mptcp, \<lambda>sys. new_udp_socket sys errno addr}"
  shows "\<exists>q. sr_nonblock q \<and> sr_cloexec q \<and> sr_domain q = domain_of addr \<and> (\<forall>sys. f sys = (if sys q < 0 then Inl errno else Inr (sys q)))"
  using assms
  by (cases mptcp)
    (auto simp: tcp_new_socket_def new_mptcp_socket_def new_tcp_socket_def new_udp_socket_def new_socket_def Let_def
      intro: exI [of _ "\<lparr>sr_domain = domain_of addr, sr_type = ty, sr_nonblock = True, sr_cloexec = True, sr_protocol = pr\<rparr>"
        for ty pr])

text \<open>
  \<^verbatim>\<open>setsockopt\<close> with the bytes of the interface's name and their number.
\<close>

definition bind_to_device :: "(int \<Rightarrow> bytes \<Rightarrow> nat \<Rightarrow> int) \<Rightarrow> io_error \<Rightarrow> int \<Rightarrow> string \<Rightarrow> unit io_result" where
  "bind_to_device setsockopt errno fd iface =
     (let iface_bytes = str_bytes iface
      in if setsockopt fd iface_bytes (length iface_bytes) < 0 then Inl errno else Inr ())"

section \<open>The limit on open files\<close>

record rlimit =
  rlim_cur :: u64
  rlim_max :: u64

text \<open>
  The limit is the state; \<open>deny\<close> says which settings the kernel refuses, with its error.
\<close>

definition set_nofile_limit :: "(rlimit \<Rightarrow> rlimit \<Rightarrow> io_error option) \<Rightarrow> u64 \<Rightarrow> rlimit \<Rightarrow> unit io_result \<times> rlimit" where
  "set_nofile_limit deny nofile lim =
     (let lim' = \<lparr>rlim_cur = nofile, rlim_max = nofile\<rparr>
      in case deny lim lim' of Some e \<Rightarrow> (Inl e, lim) | None \<Rightarrow> (Inr (), lim'))"

definition get_nofile_limit :: "io_error option \<Rightarrow> rlimit \<Rightarrow> (u64 \<times> u64) io_result" where
  "get_nofile_limit fails lim =
     (case fails of Some e \<Rightarrow> Inl e | None \<Rightarrow> Inr (rlim_cur lim, rlim_max lim))"

definition bump_nofile_limit ::
  "io_error option \<Rightarrow> (rlimit \<Rightarrow> rlimit \<Rightarrow> io_error option) \<Rightarrow> rlimit \<Rightarrow> unit io_result \<times> rlimit" where
  "bump_nofile_limit fails deny lim =
     (case get_nofile_limit fails lim of
        Inl e \<Rightarrow> (Inl e, lim)
      | Inr (cur, hard) \<Rightarrow> if cur < hard then set_nofile_limit deny hard lim else (Inr (), lim))"

lemma bump_nofile_limit_ok:
  assumes "bump_nofile_limit fails deny lim = (Inr (), lim')"
  shows "rlim_max lim' = rlim_max lim \<and> rlim_cur lim' = max (rlim_cur lim) (rlim_max lim)"
  using assms
  by (auto simp: bump_nofile_limit_def get_nofile_limit_def set_nofile_limit_def Let_def max_def
      split: option.splits if_splits)

lemma bump_nofile_limit_err: "bump_nofile_limit fails deny lim = (Inl e, lim') \<Longrightarrow> lim' = lim"
  by (auto simp: bump_nofile_limit_def get_nofile_limit_def set_nofile_limit_def Let_def
      split: option.splits if_splits)

section \<open>The daemon\<close>

text \<open>
  \<^verbatim>\<open>daemonize\<close>, seen by the process that goes on: \<open>start\<close> is the crate's, which ends the parent and
  returns in the child, or fails (with the printed form of its error). The working directory is made canonical first;
  that either fails is a panic. The line that is printed is kept with the stream it goes to.
\<close>

record daemon_opts =
  dm_umask :: nat
  dm_working_directory :: string

record daemon_env =
  de_current_dir :: "string io_result"
  de_canonicalize :: "string \<Rightarrow> string io_result"
  de_start :: "daemon_opts \<Rightarrow> string + unit"

datatype printed = Stdout string | Stderr string

definition unwrap_io :: "string \<Rightarrow> 'a io_result \<Rightarrow> 'a checked" where
  "unwrap_io what r = (case r of Inl e \<Rightarrow> Inl (Panic what) | Inr x \<Rightarrow> Inr x)"

definition daemonize :: "daemon_env \<Rightarrow> string \<Rightarrow> (bool \<times> printed) checked" where
  "daemonize env msg =
     bind_sum (unwrap_io ''current_dir().unwrap()'' (de_current_dir env)) (\<lambda>dir.
     bind_sum (unwrap_io ''canonicalize().unwrap()'' (de_canonicalize env dir)) (\<lambda>pwd.
       Inr (case de_start env \<lparr>dm_umask = 0, dm_working_directory = pwd\<rparr> of
              Inr _ \<Rightarrow> (True, Stdout msg)
            | Inl e \<Rightarrow> (False, Stderr (''failed to daemonize: '' @ e)))))"

text \<open>
  A daemon keeps the directory it was started in; a start that fails is not an error of the caller, which goes on in the
  foreground; only a directory that is gone is a panic.
\<close>

lemma daemonize_cases:
  "daemonize env msg = Inr (d, out) \<longleftrightarrow>
     (\<exists>dir pwd. de_current_dir env = Inr dir \<and> de_canonicalize env dir = Inr pwd \<and>
        (case de_start env \<lparr>dm_umask = 0, dm_working_directory = pwd\<rparr> of
           Inr _ \<Rightarrow> d \<and> out = Stdout msg
         | Inl e \<Rightarrow> \<not> d \<and> out = Stderr (''failed to daemonize: '' @ e)))"
  by (cases "de_current_dir env"; cases "de_canonicalize env (projr (de_current_dir env))")
    (auto simp: daemonize_def unwrap_io_def split: sum.splits)

end
