(* ===== verification/Cmd.thy ===== *)
theory Cmd
  imports Conf Syscall
begin

text \<open>
  The command line, \<^verbatim>\<open>src/cmd\<close>: the declared options as data (\<^verbatim>\<open>flag.rs\<close>), what is done with a parsed
  command line (\<^verbatim>\<open>mod.rs\<close>), the conversion of old configurations (\<^verbatim>\<open>sub.rs\<close>), and the loading of the
  pre-connect hook (\<^verbatim>\<open>hoorayhug_hook/src/pre_conn.rs\<close>). Parsing itself is the crate clap's.
\<close>

section \<open>The options\<close>

datatype arg_action = SetTrue | SetValue

record arg_decl =
  ad_id :: string
  ad_short :: "char option"
  ad_long :: string
  ad_action :: arg_action

definition flag_decl :: "string \<Rightarrow> char \<Rightarrow> string \<Rightarrow> arg_decl" where
  "flag_decl i s l = \<lparr>ad_id = i, ad_short = Some s, ad_long = l, ad_action = SetTrue\<rparr>"

definition opt_decl :: "string \<Rightarrow> char \<Rightarrow> string \<Rightarrow> arg_decl" where
  "opt_decl i s l = \<lparr>ad_id = i, ad_short = Some s, ad_long = l, ad_action = SetValue\<rparr>"

definition long_decl :: "string \<Rightarrow> string \<Rightarrow> arg_decl" where
  "long_decl i l = \<lparr>ad_id = i, ad_short = None, ad_long = l, ad_action = SetValue\<rparr>"

definition add_flags :: "arg_decl list \<Rightarrow> arg_decl list" where
  "add_flags app = app @
     [flag_decl ''help'' CHR ''h'' ''help'', flag_decl ''version'' CHR ''v'' ''version'',
      flag_decl ''daemon'' CHR ''d'' ''daemon'', flag_decl ''use_udp'' CHR ''u'' ''udp'',
      flag_decl ''use_mptcp'' CHR ''m'' ''mtcp'', flag_decl ''no_tcp'' CHR ''t'' ''ntcp'',
      flag_decl ''ipv6_only'' CHR ''6'' ''ipv6'', flag_decl ''fast_open'' CHR ''f'' ''tfo'',
      flag_decl ''zero_copy'' CHR ''z'' ''splice'']"

definition add_options :: "arg_decl list \<Rightarrow> arg_decl list" where
  "add_options app = app @
     [opt_decl ''config'' CHR ''c'' ''config'', opt_decl ''local'' CHR ''l'' ''listen'',
      opt_decl ''remote'' CHR ''r'' ''remote'', opt_decl ''through'' CHR ''x'' ''through'',
      opt_decl ''interface'' CHR ''i'' ''interface'', opt_decl ''listen_interface'' CHR ''e'' ''listen-interface'',
      opt_decl ''listen_transport'' CHR ''a'' ''listen-transport'',
      opt_decl ''remote_transport'' CHR ''b'' ''remote-transport'']"

definition add_global_options :: "arg_decl list \<Rightarrow> arg_decl list" where
  "add_global_options app = app @
     [opt_decl ''nofile'' CHR ''n'' ''nofile'', opt_decl ''pipe_page'' CHR ''p'' ''pipe-page'',
      opt_decl ''pre_conn_hook'' CHR ''j'' ''pre-conn-hook'']
     @ [long_decl ''log_level'' ''log-level'', long_decl ''log_output'' ''log-output'']
     @ [long_decl ''dns_mode'' ''dns-mode'', long_decl ''dns_min_ttl'' ''dns-min-ttl'',
        long_decl ''dns_max_ttl'' ''dns-max-ttl'', long_decl ''dns_cache_size'' ''dns-cache-size'',
        long_decl ''dns_protocol'' ''dns-protocol'', long_decl ''dns_servers'' ''dns-servers'']
     @ [long_decl ''send_proxy'' ''send-proxy'', long_decl ''send_proxy_version'' ''send-proxy-version'',
        long_decl ''accept_proxy'' ''accept-proxy'', long_decl ''accept_proxy_timeout'' ''accept-proxy-timeout'']
     @ [long_decl ''tcp_timeout'' ''tcp-timeout'', long_decl ''udp_timeout'' ''udp-timeout'',
        long_decl ''tcp_keepalive'' ''tcp-keepalive'', long_decl ''tcp_keepalive_probe'' ''tcp-keepalive-probe'']"

definition add_all :: "arg_decl list \<Rightarrow> arg_decl list" where
  "add_all app = add_global_options (add_options (add_flags app))"

definition declared :: "arg_action \<Rightarrow> string list" where
  "declared a = map ad_id (filter (\<lambda>d. ad_action d = a) (add_all []))"

section \<open>The hook\<close>

text \<open>
  The library that is loaded, if any. Loading fails (and panics) when the file cannot be loaded, or a second time.
\<close>

definition load_dylib :: "(string \<Rightarrow> bool) \<Rightarrow> string \<Rightarrow> string option \<Rightarrow> string option checked" where
  "load_dylib loadable path loaded =
     (if \<not> loadable path then Inl (Panic ''Library::new().unwrap()'')
      else case loaded of Some _ \<Rightarrow> Inl (Panic ''DYLIB.set().unwrap()'') | None \<Rightarrow> Inr (Some path))"

definition is_loaded :: "string option \<Rightarrow> bool" where
  "is_loaded loaded = (loaded \<noteq> None)"

section \<open>A parsed command line\<close>

text \<open>What the process is before it starts: daemon or not, the limit on open files, the size of pipes, the hook.\<close>

record sys_state =
  sy_daemon :: bool
  sy_rlimit :: rlimit
  sy_pipe_size :: u64
  sy_hook :: "string option"

record sys_env =
  se_rlimit_fails :: "io_error option"
  se_rlimit_deny :: "rlimit \<Rightarrow> rlimit \<Rightarrow> io_error option"
  se_hook_feature :: bool
  se_loadable :: "string \<Rightarrow> bool"
  se_daemon :: daemon_env

datatype cmd_input = CmdConfig string cmd_override | CmdEndpoint endpoint_conf cmd_override | CmdNone

definition parse_global_opts :: "arg_matches \<Rightarrow> cmd_override" where
  "parse_global_opts m =
     \<lparr>ov_log = log_from_cmd_args m, ov_dns = dns_from_cmd_args m, ov_network = net_from_cmd_args m\<rparr>"

definition parse_u64 :: "string \<Rightarrow> nat option" where
  "parse_u64 = parse_uint (2 ^ 64)"

definition apply_nofile :: "sys_env \<Rightarrow> arg_matches \<Rightarrow> rlimit \<Rightarrow> rlimit" where
  "apply_nofile env m lim =
     (case get_one m ''nofile'' of
        Some s \<Rightarrow> (case parse_u64 s of Some n \<Rightarrow> snd (set_nofile_limit (se_rlimit_deny env) (of_nat n) lim) | None \<Rightarrow> lim)
      | None \<Rightarrow> snd (bump_nofile_limit (se_rlimit_fails env) (se_rlimit_deny env) lim))"

text \<open>The number of pages is multiplied by their size in \<^verbatim>\<open>usize\<close>, which wraps in a release build.\<close>

definition apply_pipe :: "arg_matches \<Rightarrow> u64 \<Rightarrow> u64" where
  "apply_pipe m sz =
     (case Option.bind (get_one m ''pipe_page'') parse_usize of Some page \<Rightarrow> of_nat page * 0x1000 | None \<Rightarrow> sz)"

text \<open>The static \<^verbatim>\<open>PIPE_SIZE\<close>.\<close>

definition pipe_size :: "sys_state \<Rightarrow> u64" where
  "pipe_size s = sy_pipe_size s"

definition set_pipe_size :: "u64 \<Rightarrow> sys_state \<Rightarrow> sys_state" where
  "set_pipe_size n s = s\<lparr>sy_pipe_size := n\<rparr>"

definition handle_matches :: "sys_env \<Rightarrow> arg_matches \<Rightarrow> sys_state \<Rightarrow> (cmd_input \<times> sys_state) checked" where
  "handle_matches env m s0 =
     bind_sum
       (if get_flag m ''daemon''
        then bind_sum (daemonize (se_daemon env) ''hoorayhug is running in the background'')
               (\<lambda>(d, _). Inr (s0\<lparr>sy_daemon := d\<rparr>))
        else Inr s0)
     (\<lambda>s. let s = s\<lparr>sy_rlimit := apply_nofile env m (sy_rlimit s)\<rparr>;
          s = set_pipe_size (apply_pipe m (pipe_size s)) s
      in bind_sum
           (case (if se_hook_feature env then get_one m ''pre_conn_hook'' else None) of
              Some path \<Rightarrow> bind_sum (load_dylib (se_loadable env) path (sy_hook s)) (\<lambda>h. Inr (s\<lparr>sy_hook := h\<rparr>))
            | None \<Rightarrow> Inr s)
           (\<lambda>s. let opts = parse_global_opts m in
              case get_one m ''config'' of
                Some path \<Rightarrow> Inr (CmdConfig path opts, s)
              | None \<Rightarrow>
                  if get_one m ''local'' \<noteq> None \<and> get_one m ''remote'' \<noteq> None
                  then bind_sum (endpoint_from_cmd_args m) (\<lambda>ep. Inr (CmdEndpoint ep opts, s))
                  else Inr (CmdNone, s)))"

text \<open>
  The subcommand \<^verbatim>\<open>convert\<close>: reading, converting and writing; the writers of the formats are parameters. The
  type of the output is not checked before it is used.
\<close>

record convert_env =
  cv_read :: "string \<Rightarrow> string option"
  cv_legacy :: "string \<Rightarrow> legacy_conf option"
  cv_to_toml :: "full_conf \<Rightarrow> string option"
  cv_to_json :: "full_conf \<Rightarrow> string option"
  cv_overflow_checks :: bool
  cv_write :: "string \<Rightarrow> string \<Rightarrow> bool"

definition unwrap :: "string \<Rightarrow> 'a option \<Rightarrow> 'a checked" where
  "unwrap what x = (case x of Some y \<Rightarrow> Inr y | None \<Rightarrow> Inl (Panic what))"

definition handle_convert :: "convert_env \<Rightarrow> arg_matches \<Rightarrow> (string option \<times> string) checked" where
  "handle_convert env m =
     bind_sum (unwrap ''config'' (get_one m ''config'')) (\<lambda>old.
     bind_sum (unwrap ''fs::read().unwrap()'' (cv_read env old)) (\<lambda>old.
     bind_sum (unwrap ''from_slice().unwrap()'' (cv_legacy env old)) (\<lambda>data.
     bind_sum (from_legacy (cv_overflow_checks env) data) (\<lambda>data.
     bind_sum (unwrap ''type'' (get_one m ''type'')) (\<lambda>type.
     bind_sum
       (if type = ''toml'' then unwrap ''to_string().unwrap()'' (cv_to_toml env data)
        else if type = ''json'' then unwrap ''to_string().unwrap()'' (cv_to_json env data)
        else Inl (Panic ''unreachable!''))
       (\<lambda>data.
          case get_one m ''output'' of
            Some out \<Rightarrow> if cv_write env out data then Inr (Some out, data) else Inl (Panic ''fs::write().unwrap()'')
          | None \<Rightarrow> Inr (None, data)))))))"

text \<open>
  Its declaration: a required position, and two options of which one has a default. clap gives a value for what is
  required or has a default (\<open>args_present\<close>), so the two \<^verbatim>\<open>unwrap\<close> of options never panic.
\<close>

record sub_arg =
  sa_id :: string
  sa_short :: "char option"
  sa_required :: bool
  sa_default :: "string option"

type_synonym sub_commands = "(string \<times> sub_arg list) list"

definition add_convert :: "sub_commands \<Rightarrow> sub_commands" where
  "add_convert app = app @
     [(''convert'',
       [\<lparr>sa_id = ''config'', sa_short = None, sa_required = True, sa_default = None\<rparr>,
        \<lparr>sa_id = ''type'', sa_short = Some CHR ''t'', sa_required = False, sa_default = Some ''toml''\<rparr>,
        \<lparr>sa_id = ''output'', sa_short = Some CHR ''o'', sa_required = False, sa_default = None\<rparr>])]"

definition sub_add_all :: "sub_commands \<Rightarrow> sub_commands" where
  "sub_add_all app = add_convert app"

definition args_present :: "sub_commands \<Rightarrow> string \<Rightarrow> arg_matches \<Rightarrow> bool" where
  "args_present app name m =
     (case map_of app name of
        None \<Rightarrow> False
      | Some args \<Rightarrow> list_all (\<lambda>a. sa_required a \<or> sa_default a \<noteq> None \<longrightarrow> get_one m (sa_id a) \<noteq> None) args)"

lemma convert_args_present:
  assumes "args_present (sub_add_all []) ''convert'' m"
  shows "get_one m ''config'' \<noteq> None \<and> get_one m ''type'' \<noteq> None"
  using assms by (auto simp: args_present_def sub_add_all_def add_convert_def)

lemma handle_convert_unreachable:
  assumes "get_one m ''config'' = Some f" "cv_read env f = Some s" "cv_legacy env s = Some l"
    and "from_legacy (cv_overflow_checks env) l = Inr c" "get_one m ''type'' = Some ''yaml''"
  shows "handle_convert env m = Inl (Panic ''unreachable!'')"
  using assms by (simp add: handle_convert_def unwrap_def)

text \<open>
  \<^verbatim>\<open>scan\<close>: \<open>sub\<close> is the subcommand with its own parsed arguments. The text is printed, or the conversion's
  output, and nothing is started then.
\<close>

definition cmd_scan ::
  "sys_env \<Rightarrow> convert_env \<Rightarrow> arg_matches \<Rightarrow> (string \<times> arg_matches) option \<Rightarrow> sys_state
     \<Rightarrow> (cmd_input \<times> sys_state) checked" where
  "cmd_scan env cv m sub s =
     (if get_flag m ''help'' then Inr (CmdNone, s)
      else if get_flag m ''version'' then Inr (CmdNone, s)
      else case sub of
             Some (name, sm) \<Rightarrow>
               if name = ''convert'' then bind_sum (handle_convert cv sm) (\<lambda>_. Inr (CmdNone, s)) else handle_matches env m s
           | None \<Rightarrow> handle_matches env m s)"

section \<open>What is read\<close>

definition same_on :: "arg_matches \<Rightarrow> arg_matches \<Rightarrow> bool" where
  "same_on m m' \<longleftrightarrow>
     list_all (\<lambda>i. get_flag m i = get_flag m' i) (declared SetTrue) \<and>
     list_all (\<lambda>i. get_one m i = get_one m' i) (declared SetValue)"

lemmas declared_simps = declared_def add_all_def add_flags_def add_options_def add_global_options_def flag_decl_def
  opt_decl_def long_decl_def

lemma declared_lists:
  "declared SetTrue = [''help'', ''version'', ''daemon'', ''use_udp'', ''use_mptcp'', ''no_tcp'', ''ipv6_only'', ''fast_open'',
     ''zero_copy'']"
  "declared SetValue = [''config'', ''local'', ''remote'', ''through'', ''interface'', ''listen_interface'', ''listen_transport'',
     ''remote_transport'', ''nofile'', ''pipe_page'', ''pre_conn_hook'', ''log_level'', ''log_output'', ''dns_mode'', ''dns_min_ttl'',
     ''dns_max_ttl'', ''dns_cache_size'', ''dns_protocol'', ''dns_servers'', ''send_proxy'', ''send_proxy_version'', ''accept_proxy'',
     ''accept_proxy_timeout'', ''tcp_timeout'', ''udp_timeout'', ''tcp_keepalive'', ''tcp_keepalive_probe'']"
  by (simp_all add: declared_simps)

lemma same_on_config:
  assumes "same_on m m'"
  shows "net_from_cmd_args m = net_from_cmd_args m'" "log_from_cmd_args m = log_from_cmd_args m'"
    and "dns_from_cmd_args m = dns_from_cmd_args m'" "endpoint_from_cmd_args m = endpoint_from_cmd_args m'"
  using assms
  by (simp_all add: same_on_def declared_lists net_from_cmd_args_def log_from_cmd_args_def dns_from_cmd_args_def
      endpoint_from_cmd_args_def flag_arg_def opt_arg_def cong: option.case_cong)

lemma cmd_scan_cong:
  assumes c: "net_from_cmd_args m = net_from_cmd_args m'" "log_from_cmd_args m = log_from_cmd_args m'"
    "dns_from_cmd_args m = dns_from_cmd_args m'" "endpoint_from_cmd_args m = endpoint_from_cmd_args m'"
    and k: "get_one m ''nofile'' = get_one m' ''nofile''" "get_one m ''pipe_page'' = get_one m' ''pipe_page''"
    "get_one m ''pre_conn_hook'' = get_one m' ''pre_conn_hook''" "get_one m ''config'' = get_one m' ''config''"
    "get_one m ''local'' = get_one m' ''local''" "get_one m ''remote'' = get_one m' ''remote''"
    "get_flag m ''daemon'' = get_flag m' ''daemon''" "get_flag m ''help'' = get_flag m' ''help''"
    "get_flag m ''version'' = get_flag m' ''version''"
  shows "cmd_scan env cv m sub s = cmd_scan env cv m' sub s"
proof -
  have h: "handle_matches env m s = handle_matches env m' s"
    unfolding handle_matches_def apply_nofile_def apply_pipe_def parse_global_opts_def k c ..
  show ?thesis unfolding cmd_scan_def k h ..
qed

lemma same_on_scan:
  assumes "same_on m m'"
  shows "cmd_scan env cv m sub s = cmd_scan env cv m' sub s"
  by (rule cmd_scan_cong) (use assms same_on_config [OF assms] in \<open>simp_all add: same_on_def declared_lists\<close>)

section \<open>Properties\<close>

text \<open>
  C40: The declarations fit their use: no two options share an identifier, a letter or a long name, and what the
  program does with a command line depends only on declared options, flags read as flags and values as values.
\<close>
theorem cmd_options_declared:
  "distinct (map ad_id (add_all [])) \<and> distinct (map ad_long (add_all [])) \<and>
   distinct (filter (\<lambda>c. c \<noteq> None) (map ad_short (add_all []))) \<and>
   {(m, m'). same_on m m'} \<subseteq> {(m, m'). cmd_scan env cv m sub s = cmd_scan env cv m' sub s}"
proof -
  have "distinct (map ad_id (add_all []))" "distinct (map ad_long (add_all []))"
    "distinct (filter (\<lambda>c. c \<noteq> None) (map ad_short (add_all [])))"
    by (simp_all add: declared_simps)
  then show ?thesis using same_on_scan by blast
qed

text \<open>
  The number of keepalive probes cannot be set on the command line: its option has no effect at all, and
  the option for the keepalive time sets both.
\<close>
lemma cmd_keepalive_probe_ignored:
  "cmd_scan env cv (m\<lparr>get_one := (get_one m)(''tcp_keepalive_probe'' := x)\<rparr>) sub s = cmd_scan env cv m sub s \<and>
   nc_tcp_keepalive_probe (net_from_cmd_args m) = nc_tcp_keepalive (net_from_cmd_args m)"
proof -
  let ?m = "m\<lparr>get_one := (get_one m)(''tcp_keepalive_probe'' := x)\<rparr>"
  have c: "net_from_cmd_args ?m = net_from_cmd_args m" "log_from_cmd_args ?m = log_from_cmd_args m"
    "dns_from_cmd_args ?m = dns_from_cmd_args m" "endpoint_from_cmd_args ?m = endpoint_from_cmd_args m"
    by (simp_all add: net_from_cmd_args_def log_from_cmd_args_def dns_from_cmd_args_def endpoint_from_cmd_args_def
        flag_arg_def opt_arg_def cong: option.case_cong)
  have "cmd_scan env cv ?m sub s = cmd_scan env cv m sub s"
    by (rule cmd_scan_cong [OF c]) simp_all
  then show ?thesis by (simp add: net_from_cmd_args_def Let_def)
qed

end
