(* ===== verification/Main_Bin.thy ===== *)
theory Main_Bin
  imports Cmd Dns
begin

text \<open>
  The program's start, \<^verbatim>\<open>src/bin.rs\<close>: where the configuration comes from, what is set up, and which workers
  run. A worker is the udp or the tcp relay of an endpoint (theories Udp and Tcp); of the runtime that runs them there is
  which one is asked for, one thread or several.
\<close>

datatype worker = RunUdp endpoint | RunTcp endpoint
datatype runtime_flavor = CurrentThread | MultiThread

record ('ws, 'ts, 'tc, 'r) main_env =
  me_build :: "('ws, 'ts, 'tc) build_env"
  me_parsers :: conf_parsers
  me_files :: "string \<Rightarrow> fs_tree"
  me_open_log :: "string \<Rightarrow> io_error option"
  me_opts0 :: "'r resolver_opts"
  me_strat0 :: ip_strategy
  me_sys_servers :: "sock_addr list"
  me_system_conf :: "string + name_server list \<times> 'r resolver_opts"
  me_resolver_defaults :: "name_server list \<times> 'r resolver_opts"
  me_transport :: bool
  me_multi_thread :: bool
  me_runtime :: "runtime_flavor \<Rightarrow> bool"

text \<open>What runs in the end.\<close>

record 'r started =
  sd_runtime :: runtime_flavor
  sd_workers :: "worker list"
  sd_log :: "level_filter \<times> log_output"
  sd_dns :: "(name_server list, 'r resolver_opts) dns_state"
  sd_tls_provider :: bool

text \<open>
  \<open>env_conf\<close> is the value of the environment variable. A configuration from it is used as it is; when it
  cannot be read the command line decides. \<open>None\<close> is the exit without a configuration.
\<close>

definition main_conf ::
  "('ws, 'ts, 'tc, 'r) main_env \<Rightarrow> string option \<Rightarrow> (cmd_input \<times> sys_state) checked \<Rightarrow> full_conf option checked" where
  "main_conf env env_conf scan =
     bind_sum
       (case env_conf of
          None \<Rightarrow> Inr None
        | Some s \<Rightarrow> bind_sum (from_conf_str (me_parsers env) s) (\<lambda>r. Inr (case r of Inr c \<Rightarrow> Some c | Inl _ \<Rightarrow> None)))
       (\<lambda>from_env.
          case from_env of
            Some c \<Rightarrow> Inr (Some c)
          | None \<Rightarrow>
              bind_sum scan (\<lambda>(input, _).
                case input of
                  CmdEndpoint ep opts \<Rightarrow>
                    Inr (Some (apply_cmd_opts (apply_global_opts (add_endpoint full_default ep)) opts))
                | CmdConfig path opts \<Rightarrow>
                    bind_sum (from_conf_file (me_parsers env) (me_files env path)) (\<lambda>c.
                      Inr (Some (apply_cmd_opts (apply_global_opts c) opts)))
                | CmdNone \<Rightarrow> Inr None))"

text \<open>The global network options of a configuration from the environment are not passed to its endpoints.\<close>

lemma env_conf_skips_globals:
  "from_conf_str (me_parsers env) s = Inr (Inr c) \<Longrightarrow> main_conf env (Some s) scan = Inr (Some c)"
  by (simp add: main_conf_def)

definition setup_log :: "('ws, 'ts, 'tc, 'r) main_env \<Rightarrow> log_conf \<Rightarrow> (level_filter \<times> log_output) checked" where
  "setup_log env c = log_build (me_open_log env) c"

definition setup_dns ::
  "('ws, 'ts, 'tc, 'r) main_env \<Rightarrow> dns_options \<Rightarrow> (name_server list, 'r resolver_opts) dns_state
     \<Rightarrow> (name_server list, 'r resolver_opts) dns_state checked" where
  "setup_dns env c s =
     bind_sum (dns_conf_build (me_opts0 env) (me_strat0 env) (me_sys_servers env)
                 (to_socket_addrs (be_lookup (me_build env))) c) (\<lambda>(conf, opts).
       build_lazy (dns_conf_default (me_system_conf env) (me_resolver_defaults env)) conf opts s)"

fun run_workers :: "endpoint_info list \<Rightarrow> worker list" where
  "run_workers [] = []"
| "run_workers (e # es) =
     (if ei_use_udp e then [RunUdp (ei_endpoint e)] else [])
     @ (if \<not> ei_no_tcp e then [RunTcp (ei_endpoint e)] else [])
     @ run_workers es"

text \<open>With the feature \<^verbatim>\<open>transport\<close> the provider of TLS is installed.\<close>

definition setup_transport :: "('ws, 'ts, 'tc, 'r) main_env \<Rightarrow> bool \<Rightarrow> bool" where
  "setup_transport env installed = (installed \<or> me_transport env)"

definition execute :: "('ws, 'ts, 'tc, 'r) main_env \<Rightarrow> endpoint_info list \<Rightarrow> (runtime_flavor \<times> worker list) checked" where
  "execute env eps =
     (let flavor = (if me_multi_thread env then MultiThread else CurrentThread)
      in if me_runtime env flavor then Inr (flavor, run_workers eps) else Inl (Panic ''Builder::build().unwrap()''))"

definition start_from_conf :: "('ws, 'ts, 'tc, 'r) main_env \<Rightarrow> full_conf \<Rightarrow> 'r started checked" where
  "start_from_conf env full =
     bind_sum (setup_log env (fc_log full)) (\<lambda>lg.
     bind_sum (setup_dns env (fc_dns full) dns_start) (\<lambda>dns.
     let tls = setup_transport env False in
     bind_sum (mapM_sum (endpoint_build (me_build env)) (fc_endpoints full)) (\<lambda>eps.
     bind_sum (execute env eps) (\<lambda>(flavor, ws).
       Inr \<lparr>sd_runtime = flavor, sd_workers = ws, sd_log = lg, sd_dns = dns, sd_tls_provider = tls\<rparr>))))"

definition main_start ::
  "('ws, 'ts, 'tc, 'r) main_env \<Rightarrow> string option \<Rightarrow> (cmd_input \<times> sys_state) checked \<Rightarrow> 'r started option checked" where
  "main_start env env_conf scan =
     bind_sum (main_conf env env_conf scan) (\<lambda>c.
       case c of None \<Rightarrow> Inr None | Some c \<Rightarrow> bind_sum (start_from_conf env c) (\<lambda>r. Inr (Some r)))"

section \<open>The workers of a configuration\<close>

text \<open>What the workers of an endpoint are, from its options.\<close>

definition wants_udp :: "net_conf \<Rightarrow> bool" where
  "wants_udp c = (nc_use_udp c = Some True)"

definition wants_tcp :: "net_conf \<Rightarrow> bool" where
  "wants_tcp c = (nc_no_tcp c \<noteq> Some True)"

lemma endpoint_build_wants:
  assumes "endpoint_build be e = Inr i"
  shows "ei_use_udp i = wants_udp (ec_network e)" "ei_no_tcp i = (\<not> wants_tcp (ec_network e))"
proof -
  have "ei_use_udp i = ni_use_udp (net_build (ec_network e))" "ei_no_tcp i = ni_no_tcp (net_build (ec_network e))"
    using assms by (auto simp: endpoint_build_def bind_sum_Inr_iff Let_def)
  then show "ei_use_udp i = wants_udp (ec_network e)" "ei_no_tcp i = (\<not> wants_tcp (ec_network e))"
    by (simp_all add: net_build_def wants_udp_def wants_tcp_def unbox_def split: option.splits)
qed

definition workers_of :: "bool \<Rightarrow> bool \<Rightarrow> endpoint \<Rightarrow> worker list" where
  "workers_of udp tcp ep = (if udp then [RunUdp ep] else []) @ (if tcp then [RunTcp ep] else [])"

lemma mapM_sum_Inr_all2: "mapM_sum f xs = Inr ys \<Longrightarrow> list_all2 (\<lambda>x y. f x = Inr y) xs ys"
  by (induction xs arbitrary: ys) (auto simp: bind_sum_Inr_iff)

lemma run_workers_spec:
  "mapM_sum (endpoint_build be) es = Inr eps \<Longrightarrow>
     run_workers eps = concat (map (\<lambda>(e, i). workers_of (wants_udp (ec_network e)) (wants_tcp (ec_network e)) (ei_endpoint i))
       (zip es eps))"
proof (induction es arbitrary: eps)
  case (Cons e es)
  then obtain i js where i: "endpoint_build be e = Inr i" "mapM_sum (endpoint_build be) es = Inr js" "eps = i # js"
    by (auto simp: bind_sum_Inr_iff)
  then show ?case using Cons.IH [OF i(2)] endpoint_build_wants [OF i(1)] by (simp add: workers_of_def)
qed simp

lemma wants_cmd:
  "wants_udp (net_rst_field c (net_from_cmd_args m)) = (get_flag m ''use_udp'' \<or> wants_udp c)"
  "wants_tcp (net_rst_field c (net_from_cmd_args m)) = (\<not> get_flag m ''no_tcp'' \<and> wants_tcp c)"
  by (auto simp: wants_udp_def wants_tcp_def net_rst_field_def net_from_cmd_args_def flag_arg_def Let_def)

section \<open>Properties\<close>

text \<open>
  C37: The workers, when the program starts from a configuration file or directory: one udp relay for each endpoint that
  the command line's flag or its options (its own, or else the global ones) ask it for, one tcp relay for
  each that they do not forbid it, in the order of the endpoints, each for what \<open>build\<close> makes of its own endpoint with these
  options; all on the runtime
  of the feature \<^verbatim>\<open>multi-thread\<close>, which could be made.
\<close>
theorem start_workers:
  assumes "main_start env None (Inr (CmdConfig path (parse_global_opts m), s)) = Inr (Some st)"
  shows "\<exists>c infos. from_conf_file (me_parsers env) (me_files env path) = Inr c \<and>
    list_all2 (\<lambda>e i. endpoint_build (me_build env)
        (e\<lparr>ec_network := net_rst_field (net_first [ec_network e, fc_network c]) (net_from_cmd_args m)\<rparr>) = Inr i) (fc_endpoints c) infos \<and>
    sd_runtime st = (if me_multi_thread env then MultiThread else CurrentThread) \<and> me_runtime env (sd_runtime st) \<and>
    sd_workers st = concat (map (\<lambda>(e, i). workers_of (get_flag m ''use_udp'' \<or> wants_udp (net_first [ec_network e, fc_network c]))
                                       (\<not> get_flag m ''no_tcp'' \<and> wants_tcp (net_first [ec_network e, fc_network c]))
                                       (ei_endpoint i))
                 (zip (fc_endpoints c) infos))"
proof -
  obtain c where c: "from_conf_file (me_parsers env) (me_files env path) = Inr c"
    "start_from_conf env (apply_cmd_opts (apply_global_opts c) (parse_global_opts m)) = Inr st"
    using assms by (auto simp: main_start_def main_conf_def bind_sum_Inr_iff)
  let ?net = "\<lambda>e. net_rst_field (net_first [ec_network e, fc_network c]) (net_from_cmd_args m)"
  have es: "fc_endpoints (apply_cmd_opts (apply_global_opts c) (parse_global_opts m))
      = map (\<lambda>e. e\<lparr>ec_network := ?net e\<rparr>) (fc_endpoints c)"
    by (simp add: apply_cmd_opts_def apply_global_opts_def parse_global_opts_def net.taking_rst net.rst_none_left)
  from c(2) obtain infos where i: "mapM_sum (endpoint_build (me_build env)) (map (\<lambda>e. e\<lparr>ec_network := ?net e\<rparr>) (fc_endpoints c)) = Inr infos"
    "execute env infos = Inr (sd_runtime st, sd_workers st)"
    by (auto simp: start_from_conf_def bind_sum_Inr_iff es)
  then have x: "sd_workers st = run_workers infos" "sd_runtime st = (if me_multi_thread env then MultiThread else CurrentThread)"
    "me_runtime env (sd_runtime st)"
    by (auto simp: execute_def Let_def split: if_splits)
  have "list_all2 (\<lambda>e i. endpoint_build (me_build env) (e\<lparr>ec_network := ?net e\<rparr>) = Inr i) (fc_endpoints c) infos"
    using mapM_sum_Inr_all2 [OF i(1)] by (simp add: list_all2_map1)
  moreover have "sd_workers st = concat (map (\<lambda>(e, i). workers_of (get_flag m ''use_udp'' \<or> wants_udp (net_first [ec_network e, fc_network c]))
        (\<not> get_flag m ''no_tcp'' \<and> wants_tcp (net_first [ec_network e, fc_network c])) (ei_endpoint i)) (zip (fc_endpoints c) infos))"
    unfolding x(1) run_workers_spec [OF i(1)]
    by (simp add: zip_map1 case_prod_unfold comp_def wants_cmd del: net_first_Cons)
  ultimately show ?thesis using c(1) x(2,3) by blast
qed

definition demo_conf :: full_conf where
  "demo_conf = full_default\<lparr>fc_network := net_default\<lparr>nc_no_tcp := Some True\<rparr>,
     fc_endpoints := [plain_endpoint ''l:1'' ''r:2'',
       (plain_endpoint ''l:3'' ''r:4'')\<lparr>ec_network := net_default\<lparr>nc_no_tcp := Some False\<rparr>\<rparr>]\<rparr>"

text \<open>The transport is not used: its constructors are never called.\<close>

definition demo_main :: "(unit, unit, unit, unit) main_env" where
  "demo_main =
     \<lparr>me_build = \<lparr>be_lookup = (\<lambda>h p. Inr [SockV4 1 p]), be_sort = sort_key in_hash, be_ws = (\<lambda>_. None),
        be_tls_server = (\<lambda>_. None), be_tls_client = (\<lambda>_. None), be_accept = undefined, be_connect = undefined\<rparr>,
      me_parsers = \<lparr>cp_toml = (\<lambda>_. Some demo_conf), cp_json = (\<lambda>_. None), cp_legacy = (\<lambda>_. None), cp_overflow_checks = False\<rparr>,
      me_files = (\<lambda>path. FsFile path (Some [])), me_open_log = (\<lambda>_. None),
      me_opts0 = \<lparr>ro_ip_strategy = StratIpv4thenIpv6, ro_positive_min_ttl = None, ro_positive_max_ttl = None, ro_cache_size = 32,
        ro_rest = ()\<rparr>,
      me_strat0 = StratIpv4thenIpv6, me_sys_servers = [],
      me_system_conf = Inl ''no such file'',
      me_resolver_defaults = ([], \<lparr>ro_ip_strategy = StratIpv4thenIpv6, ro_positive_min_ttl = None, ro_positive_max_ttl = None,
        ro_cache_size = 32, ro_rest = ()\<rparr>),
      me_transport = True, me_multi_thread = False, me_runtime = (\<lambda>_. True)\<rparr>"

definition demo_args :: arg_matches where
  "demo_args = \<lparr>get_flag = (\<lambda>i. i = ''use_udp''), get_one = (\<lambda>_. None)\<rparr>"

lemma demo_addr:
  "to_socket_addrs (\<lambda>h p. Inr [SockV4 1 p]) ''l:1'' = Inr [SockV4 1 1]"
  "to_socket_addrs (\<lambda>h p. Inr [SockV4 1 p]) ''l:3'' = Inr [SockV4 1 3]"
  "build_remote_x ''r:2'' = Inr (DomainName ''r'' 2)" "build_remote_x ''r:4'' = Inr (DomainName ''r'' 4)"
  by (simp_all add: to_socket_addrs_def build_remote_x_def parse_sock_letter is_digit_def rsplit_once_def parse_u16_def
      parse_uint_def digits_val_def digit_val_def)

theorem start_workers_witness:
  "\<exists>st. main_start demo_main None (Inr (CmdConfig ''c'' (parse_global_opts demo_args),
       \<lparr>sy_daemon = False, sy_rlimit = \<lparr>rlim_cur = 1, rlim_max = 1\<rparr>, sy_pipe_size = 0, sy_hook = None\<rparr>)) = Inr (Some st) \<and>
     sd_runtime st = CurrentThread \<and>
     (\<exists>(i1 :: endpoint_info) (i2 :: endpoint_info). sd_workers st = [RunUdp (ei_endpoint i1), RunUdp (ei_endpoint i2), RunTcp (ei_endpoint i2)] \<and>
        ep_laddr (ei_endpoint i1) = SockV4 1 1 \<and> ep_laddr (ei_endpoint i2) = SockV4 1 3)"
proof -
  let ?s = "\<lparr>sy_daemon = False, sy_rlimit = \<lparr>rlim_cur = 1, rlim_max = 1\<rparr>, sy_pipe_size = 0, sy_hook = None\<rparr> :: sys_state"
  have fil: "from_conf_file (me_parsers demo_main) (me_files demo_main ''c'') = Inr demo_conf"
    by (simp add: from_conf_file_def read_conf_def from_conf_str_def demo_main_def)
  have "\<exists>eps. mapM_sum (endpoint_build (me_build demo_main))
      (fc_endpoints (apply_cmd_opts (apply_global_opts demo_conf) (parse_global_opts demo_args))) = Inr eps"
    by (simp add: demo_conf_def demo_main_def apply_cmd_opts_def apply_global_opts_def endpoint_build_def build_local_def
        build_remote_def build_balancer_def build_send_through_def plain_endpoint_def demo_addr Let_def)
  moreover have "\<exists>x. setup_log demo_main (fc_log (apply_cmd_opts (apply_global_opts demo_conf) (parse_global_opts demo_args))) = Inr x"
    by (simp add: setup_log_def log_build_def Let_def demo_conf_def full_default_def log_default_def apply_cmd_opts_def
        apply_global_opts_def parse_global_opts_def demo_args_def log_from_cmd_args_def log_rst_field_def DEFAULT_LOG_FILE_def)
  moreover have "\<exists>x. setup_dns demo_main (fc_dns (apply_cmd_opts (apply_global_opts demo_conf) (parse_global_opts demo_args))) dns_start = Inr x"
    by (simp add: setup_dns_def dns_conf_build_def Let_def demo_conf_def full_default_def dns_default_def apply_cmd_opts_def
        apply_global_opts_def parse_global_opts_def demo_args_def dns_from_cmd_args_def dns_rst_field_def opt_arg_def
        build_lazy_def dns_start_def)
  moreover have "execute demo_main eps = Inr (CurrentThread, run_workers eps)" for eps
    by (simp add: execute_def demo_main_def)
  ultimately obtain st where r: "main_start demo_main None (Inr (CmdConfig ''c'' (parse_global_opts demo_args), ?s))
      = Inr (Some st)"
    using fil by (auto simp: main_start_def main_conf_def start_from_conf_def Let_def)
  obtain c infos where w: "from_conf_file (me_parsers demo_main) (me_files demo_main ''c'') = Inr c"
    "list_all2 (\<lambda>e i. endpoint_build (me_build demo_main)
        (e\<lparr>ec_network := net_rst_field (net_first [ec_network e, fc_network c]) (net_from_cmd_args demo_args)\<rparr>) = Inr i)
      (fc_endpoints c) infos"
    "sd_workers st = concat (map (\<lambda>(e, i). workers_of (get_flag demo_args ''use_udp'' \<or> wants_udp (net_first [ec_network e, fc_network c]))
         (\<not> get_flag demo_args ''no_tcp'' \<and> wants_tcp (net_first [ec_network e, fc_network c])) (ei_endpoint i))
       (zip (fc_endpoints c) infos))"
    "sd_runtime st = (if me_multi_thread demo_main then MultiThread else CurrentThread)"
    using start_workers [OF r] by blast
  have c: "c = demo_conf" using w(1) fil by simp
  then obtain i1 i2 n1 n2 where i: "infos = [i1, i2]"
    "endpoint_build (me_build demo_main) ((plain_endpoint ''l:1'' ''r:2'')\<lparr>ec_network := n1\<rparr>) = Inr i1"
    "endpoint_build (me_build demo_main) ((plain_endpoint ''l:3'' ''r:4'')\<lparr>ec_network := n2\<rparr>) = Inr i2"
    using w(2) by (auto simp: demo_conf_def list_all2_Cons1)
  have l: "ep_laddr (ei_endpoint i1) = SockV4 1 1" "ep_laddr (ei_endpoint i2) = SockV4 1 3"
    using i(2,3) by (auto simp: endpoint_build_def build_local_def plain_endpoint_def demo_main_def demo_addr bind_sum_Inr_iff Let_def)
  have "sd_workers st = [RunUdp (ei_endpoint i1), RunUdp (ei_endpoint i2), RunTcp (ei_endpoint i2)]"
    unfolding w(3) c i(1)
    by (simp add: demo_conf_def demo_args_def workers_of_def wants_tcp_def plain_endpoint_def net_rst_field_def net_default_def)
  moreover have "sd_runtime st = CurrentThread" using w(4) by (simp add: demo_main_def)
  ultimately show ?thesis using r l by blast
qed

end
