(* ===== verification/Relay_System.thy ===== *)
theory Relay_System
  imports Main_Bin Tcp
begin

text \<open>
  The program as a whole: from its configuration to what the connections of its tcp relays do. The parts are those of
  \<open>Main_Bin\<close> (which workers are started, with which endpoints) and of \<open>Tcp\<close> (what a connection of an endpoint does).
\<close>

section \<open>The endpoints of a started program\<close>

lemma parse_from_str_inv: "unstable_sort srt \<Longrightarrow> parse_from_str srt s = Inr b \<Longrightarrow> balancer_inv b"
  using balancer_new_inv by (auto simp: parse_from_str_def bind_sum_Inr_iff split: option.splits)

lemma endpoint_build_balancer:
  assumes "unstable_sort (be_sort be)" "endpoint_build be e = Inr i"
  shows "balancer_inv (co_balancer (ep_conn_opts (ei_endpoint i)))"
proof -
  have "build_balancer be e = Inr (co_balancer (ep_conn_opts (ei_endpoint i)))"
    using assms(2) by (auto simp: endpoint_build_def bind_sum_Inr_iff Let_def)
  then show ?thesis using parse_from_str_inv [OF assms(1)] by (auto simp: build_balancer_def split: option.splits)
qed

lemma run_workers_tcp: "RunTcp ep \<in> set (run_workers es) \<Longrightarrow> \<exists>i \<in> set es. ep = ei_endpoint i \<and> \<not> ei_no_tcp i"
  by (induction es) (auto split: if_splits)

lemma started_endpoint:
  assumes "main_start env env_conf scan = Inr (Some st)" "RunTcp ep \<in> set (sd_workers st)"
  shows "\<exists>e i. endpoint_build (me_build env) e = Inr i \<and> ep = ei_endpoint i"
proof -
  obtain c where "start_from_conf env c = Inr st"
    using assms(1) by (auto simp: main_start_def bind_sum_Inr_iff split: option.splits)
  then obtain infos where i: "mapM_sum (endpoint_build (me_build env)) (fc_endpoints c) = Inr infos"
    "sd_workers st = run_workers infos"
    by (auto simp: start_from_conf_def bind_sum_Inr_iff execute_def Let_def split: if_splits)
  then show ?thesis using run_workers_tcp assms(2) mapM_sum_Inr_set [OF i(1)] by metis
qed

section \<open>Properties\<close>

text \<open>The endpoint's weights are at most as many as its remotes, and its version of the PROXY protocol is one there is.\<close>

definition endpoint_ok :: "endpoint \<Rightarrow> bool" where
  "endpoint_ok ep \<longleftrightarrow>
     unat (balancer_total (co_balancer (ep_conn_opts ep))) \<le> Suc (length (ep_extra_raddrs ep)) \<and>
     send_proxy_version (co_proxy_opts (ep_conn_opts ep)) \<in> {1, 2}"

definition ep_connections :: "endpoint \<Rightarrow> (conn_env \<times> stream) list \<Rightarrow> (unit io_result poll \<times> conn_end option) checked list" where
  "ep_connections ep cs =
     fst (relay_all (mode_num (co_obfs (ep_conn_opts ep))) (ep_conn_opts ep) (ep_raddr ep) (ep_extra_raddrs ep)
       (co_balancer (ep_conn_opts ep)) cs)"

text \<open>
  C20: However the program was configured (environment, command line, file or directory): no connection in any sequence of
  connections to any tcp relay it started panics, with any network, timing and transport. It may stay pending or end in an error,
  and it ends well exactly when it came to be relayed; then it went to one of the endpoint's remotes and what was relayed is
  what \<open>connection_relayed\<close> says, under the obfuscation mode of the endpoint. Asked of the endpoint is that it has no more
  weights than remotes and a version of the PROXY protocol that there is; of a connection, \<open>conn_env_ok\<close>: the build
  has no hook, writers do not over-report, and a transport's handshakes keep that and mix as their library does.
\<close>
theorem program_connections:
  assumes "unstable_sort (be_sort (me_build env))" "main_start env env_conf scan = Inr (Some st)"
    and "RunTcp ep \<in> set (sd_workers st)" "endpoint_ok ep" "\<forall>(cenv, src) \<in> set cs. conn_env_ok cenv src"
  shows "list_all2 (\<lambda>(cenv, src) r. \<exists>res c. r = Inr (res, c) \<and> (res = Ready (Inr ()) \<longleftrightarrow> c \<noteq> None) \<and>
      (\<forall>ce. c = Some ce \<longrightarrow> connection_relayed cenv (mode_num (co_obfs (ep_conn_opts ep))) (ep_conn_opts ep) (ep_raddr ep)
        (ep_extra_raddrs ep) src ce)) cs (ep_connections ep cs)"
proof -
  obtain e i where "endpoint_build (me_build env) e = Inr i" "ep = ei_endpoint i"
    using started_endpoint [OF assms(2,3)] by blast
  then have "balancer_inv (co_balancer (ep_conn_opts ep))" using endpoint_build_balancer assms(1) by blast
  then show ?thesis unfolding ep_connections_def using assms(4,5) by (intro relay_all_relayed) (auto simp: endpoint_ok_def)
qed

text \<open>
  The log level decides whether the line with the addresses of a connection is evaluated, and with it whether an address
  that cannot be had ends the connection: below \<open>FilterInfo\<close>, as without any option, it does not.
\<close>

definition logs_as :: "'r started \<Rightarrow> conn_env \<Rightarrow> bool" where
  "logs_as st cenv \<longleftrightarrow> ce_info cenv = log_enabled (fst (sd_log st)) FilterInfo"

lemma started_log:
  assumes "main_start env (Some s) scan = Inr (Some st)" "from_conf_str (me_parsers env) s = Inr (Inr c)"
  shows "fst (sd_log st) = level_filter_from (case lc_level (fc_log c) of Some l \<Rightarrow> l | None \<Rightarrow> LogOff)"
  using assms by (auto simp: main_start_def env_conf_skips_globals start_from_conf_def setup_log_def log_build_def
      bind_sum_Inr_iff Let_def)

lemma quiet_log_ignores_addresses:
  assumes "logs_as st cenv" "fst (sd_log st) < FilterInfo"
  shows "info_error cenv = None"
  using assms leD by (auto simp: logs_as_def log_enabled_def info_error_def)

lemma info_log_needs_addresses:
  assumes "logs_as st cenv" "FilterInfo \<le> fst (sd_log st)" "ce_local_addr cenv = Inr a" "ce_remote_addr cenv = Inl e"
  shows "info_error cenv = Some e"
  using assms by (simp add: logs_as_def log_enabled_def info_error_def)

text \<open>A configuration from the environment with one endpoint.\<close>

definition single_main :: "(unit, unit, unit, unit) main_env" where
  "single_main = demo_main\<lparr>me_parsers := (me_parsers demo_main)
     \<lparr>cp_toml := (\<lambda>_. Some (full_default\<lparr>fc_endpoints := [plain_endpoint ''l:1'' ''r:2'']\<rparr>))\<rparr>\<rparr>"

theorem program_connections_witness:
  "\<exists>st ep. main_start single_main (Some ''x'') (Inl (Panic [])) = Inr (Some st) \<and> RunTcp ep \<in> set (sd_workers st) \<and>
     list_all2 (\<lambda>(cenv, src) r. \<exists>res c. r = Inr (res, c) \<and> (res = Ready (Inr ()) \<longleftrightarrow> c \<noteq> None) \<and>
      (\<forall>ce. c = Some ce \<longrightarrow> connection_relayed cenv 0 (ep_conn_opts ep) (ep_raddr ep) (ep_extra_raddrs ep) src ce))
       [(demo_env, idle), (relay_env, proxy_client)] (ep_connections ep [(demo_env, idle), (relay_env, proxy_client)])"
proof -
  let ?e = "plain_endpoint ''l:1'' ''r:2''"
  obtain i where i: "endpoint_build (me_build single_main) ?e = Inr i" "\<not> ei_no_tcp i"
    "co_balancer (ep_conn_opts (ei_endpoint i)) = BalOff" "co_obfs (ep_conn_opts (ei_endpoint i)) = []"
    "send_proxy_version (co_proxy_opts (ep_conn_opts (ei_endpoint i))) = 2"
    by (simp add: single_main_def demo_main_def endpoint_build_def build_local_def build_remote_def build_balancer_def
        build_send_through_def plain_endpoint_def demo_addr net_build_def net_default_def unbox_def PROXY_PROTOCOL_VERSION_def
        ascii_lower_def Let_def)
  let ?c = "full_default\<lparr>fc_endpoints := [?e]\<rparr>"
  have "\<exists>x. setup_log single_main (fc_log ?c) = Inr x"
    by (simp add: setup_log_def log_build_def Let_def full_default_def log_default_def single_main_def demo_main_def DEFAULT_LOG_FILE_def)
  moreover have "\<exists>x. setup_dns single_main (fc_dns ?c) dns_start = Inr x"
    by (simp add: setup_dns_def dns_conf_build_def Let_def full_default_def dns_default_def build_lazy_def dns_start_def)
  moreover have "execute single_main eps = Inr (CurrentThread, run_workers eps)" for eps
    by (simp add: execute_def single_main_def demo_main_def)
  moreover have "from_conf_str (me_parsers single_main) ''x'' = Inr (Inr ?c)"
    by (simp add: from_conf_str_def single_main_def)
  ultimately obtain st where st: "main_start single_main (Some ''x'') (Inl (Panic [])) = Inr (Some st)"
    "sd_workers st = run_workers [i]"
    using i(1) by (auto simp: main_start_def main_conf_def start_from_conf_def Let_def)
  let ?ep = "ei_endpoint i"
  have t: "RunTcp ?ep \<in> set (sd_workers st)" using st(2) i(2) by simp
  have ok: "endpoint_ok ?ep" by (simp add: endpoint_ok_def i)
  have srt: "unstable_sort (be_sort (me_build single_main))"
    using stable_sort.unstable_sort_axioms by (simp add: single_main_def demo_main_def)
  have cs: "\<forall>(cenv, src) \<in> set [(demo_env, idle), (relay_env, proxy_client)]. conn_env_ok cenv src"
    by (simp add: conn_env_ok_def demo_env_def relay_env_def demo_kaminari_ok proxy_client_def proxy_peer_def honest_def
        idle_def relay_a_def relay_b_def)
  have "mode_num (co_obfs (ep_conn_opts ?ep)) = 0" by (simp add: mode_num_def i(4))
  with program_connections [OF srt st(1) t ok cs] st(1) t show ?thesis by auto
qed

end
