(* ===== verification/Spec2Isabelle.thy ===== *)
theory Spec2Isabelle
  imports Peek Udp_Spec Raw_IO Raw_Ref Relay_System
begin

text \<open>
  A verification library for hoorayhug, a network relay written in Rust: it listens on tcp and udp addresses and
  forwards what it receives to remote peers, choosing a peer by a balancer, obfuscating the stream on request, and
  adding or accepting PROXY headers. This theory imports the library; each theory below states its
  properties where its definitions are, each property after a text block with its number.

  \<^bold>\<open>The parts of the program and where they are modelled.\<close> Definitions have the names of the functions they model
  (with a prefix where several types have a function of the same name); integers have the width they have in the
  code; a panic is the left value of a sum (\<open>checked\<close>), an error of the program the left value of another
  (\<open>io_result\<close>), and a future or a poll that has to wait is \<open>Pending\<close>.

  \<^item> \<open>Relay_Prelude\<close>, \<open>Net_Addr\<close>, \<open>Addr_Parse\<close>: the shared types, the sum monad, strings and decimal numbers, the
    addresses of \<^verbatim>\<open>std::net\<close> and their parsing.
  \<^item> \<^verbatim>\<open>hoorayhug_lb\<close>: the trait and its contract (\<open>Balance_Trait\<close>, the locale \<open>balance\<close>), the smooth weighted
    round robin (\<open>Round_Robin\<close>), the IP hash (\<open>Ip_Hash\<close>), and the balancer over both with its textual form
    (\<open>Balancer\<close>). The three balancers are interpretations of the locale.
  \<^item> \<^verbatim>\<open>hoorayhug_io\<close>: the streams of the environment (\<open>Stream_IO\<close>), the copying loop of \<^verbatim>\<open>buf.rs\<close> over any
    buffer (\<open>Copy_Buffer\<close>, the locale \<open>async_io_buf\<close> is the contract of the trait \<^verbatim>\<open>AsyncIOBuf\<close>), the buffered copy
    with its chunk obfuscation (\<open>Mem_Copy\<close>), the copy through pipes (\<open>Zero_Copy\<close>), the obfuscation prefix
    (\<open>Obfs\<close>), both directions together and the fallback of \<^verbatim>\<open>tcp/plain.rs\<close> (\<open>Bidi_Copy\<close>), what a relay leaves
    behind however it ends (\<open>Relay_End\<close>), the peekable and the counting stream (\<open>Peek\<close>), and the system calls
    under the readiness loops (\<open>Raw_IO\<close>).
  \<^item> \<^verbatim>\<open>hoorayhug_core\<close>: timeouts (\<open>Timeout\<close>), the resolver (\<open>Dns\<close>), the description of a relay (\<open>Endpoint\<close>), the
    PROXY protocol (\<open>Proxy\<close>), the relay over a transport (\<open>Transport\<close>), everything one tcp connection does and the
    accept loop (\<open>Tcp\<close>), the raw references that tasks hold (\<open>Raw_Ref\<close>), packets, batches and the grouping of
    packets by sender (\<open>Udp_Batch\<close>), the association table (\<open>Sock_Map\<close>, the locale \<open>sock_map\<close>), the tasks of the udp relay as a step relation
    (\<open>Udp\<close>; the relay binds its socket in \<open>run_udp\<close>; its history is what came in and what the sends put on the wire, by the
    socket they went out on), its invariants (\<open>Udp_Relay\<close>), and the abstract forwarder it implements (\<open>Udp_Spec\<close>, over the locale
    of refinements of \<open>Simulation\<close>).
  \<^item> \<^verbatim>\<open>hoorayhug_syscall\<close>: sockets, the limit on open files and the daemon (\<open>Syscall\<close>).
  \<^item> \<^verbatim>\<open>src\<close>: the trait of configurations as the locale \<open>config\<close> (\<open>Conf_Base\<close>), its instances (\<open>Conf_Net\<close>,
    \<open>Conf_Log_Dns\<close>), endpoints (\<open>Conf_Endpoint\<close>), files, precedence and the old format (\<open>Conf\<close>), the command
    line (\<open>Cmd\<close>), the start of the program (\<open>Main_Bin\<close>), and what its tcp relays then do (\<open>Relay_System\<close>).

  \<^bold>\<open>How they interact.\<close> \<open>main_start\<close> reads a configuration, builds endpoints and starts one worker per relay. A tcp
  worker binds, accepts, and spawns \<open>connect_and_relay\<close> for each connection, which asks the balancer, connects
  (\<open>tcp_connect\<close>, over \<open>resolve_addr\<close>), exchanges PROXY headers and calls \<open>run_relay\<close>, that is
  \<open>bidi_zero_copy\<close> and, when that is refused, \<open>bidi_copy\<close>; both are \<open>bidi_copy_buf\<close> over \<open>poll_copy\<close>. A udp worker
  receives batches, groups them, and forwards each group by the socket of its client, whose task sends answers back.
\<close>

text \<open>
  \<^bold>\<open>The environment.\<close> What the kernel, the network, the runtime and other crates do is a parameter: a script of events
  (what the next reads, writes, system calls or polls answer), or a function. A theorem for all scripts holds for
  every behaviour, errors, refusals, partial reads and writes, waits and timeouts included. Hypotheses on them are
  documented behaviour: \<open>honest\<close> (a writer reports no more bytes than it was given), \<open>script_ok\<close>
  (\<^verbatim>\<open>recvmmsg\<close> returns at least one message or an error), \<open>unstable_sort\<close> (a sort gives an ordered permutation),
  that new descriptors are not in use, that the codec of the crate \<^verbatim>\<open>proxy-protocol\<close> reads what it writes up to the flow
  information and scope of version 6 addresses (\<open>wire_header\<close>; the binary format of version 2 is the instance), that
  the handshakes of the crate kaminari give honest streams (\<open>honest_handshakes\<close>) and that its mixtures of transports
  behave as the variant they are (\<open>mix_dispatches\<close>). Parsers of configuration formats, clap's matching of
  arguments, the functions of a hook library and the resolver are parameters without laws. The features are the default ones
  where nothing else is said; \<^verbatim>\<open>brutal-shutdown\<close>, which is one of them, is a parameter (\<open>brutal\<close>), and the theorems on relays
  say what differs: a graceful relay ends when both directions have, a brutal one when the first has, and cuts
  the other off. Likewise one thread or several of the runtime (\<open>multi\<close>), batched or single receiving, \<^verbatim>\<open>transport-boost\<close>.

  \<^bold>\<open>Bounds and fuel.\<close> \<open>poll_copy\<close> has fuel, for its loop need not end: with honest writers
  \<open>rd_bytes r + length (wr_evs w) + 2\<close> turns are enough, as each turn uses up a byte or an event of a script
  (\<open>poll_copy_returns\<close>), and with a writer that over-reports no fuel is (\<open>poll_copy_spins\<close>). \<open>bidi_await\<close> polls a
  bounded number of times, and one poll of both directions needs no more fuel than the greater of the two
  (\<open>bidi_poll_returns\<close>). A batch has at most
  \<open>MAX_PACKETS\<close> = 128 packets of \<open>PACKET_SIZE\<close> = 1500 bytes, so that its 16-bit cursors and ranges never wrap. Every
  other loop ends by structural recursion or a measure.

  \<^bold>\<open>What the groups of lemmas show.\<close>

  \<^item> Balancers: shares are exact over a period and bounded at any time; tokens are in range; the ring lookup is the
    successor; a printed balancer parses back; where the 16-bit sum and the word-aligned hash go wrong.
  \<^item> Copying: no byte is lost, repeated or reordered, in each direction, over every buffer, at every point of every run;
    polls return; what a relay leaves behind however it ends (\<open>relayed\<close>: the prefix that a client has sent, the valid header that a
    server has taken, or the refusal of either); two relays in a row with obfuscation are a transparent tunnel; pipes are closed on every path; what
    the fallback and the zero-copy path do to obfuscation.
  \<^item> Readiness loops: the scripts of results are what return values, \<^verbatim>\<open>errno\<close> and retries give, for the message
    calls and for \<^verbatim>\<open>splice\<close> with the descriptors of the pipe.
  \<^item> Connections: what a whole connection sends to either side, PROXY headers and transports included, and that the
    feature \<^verbatim>\<open>transport-boost\<close> changes nothing; no panic under stated conditions, and what panics otherwise;
    both for every connection of a program however it was configured; addresses are tried in order; PROXY headers pass
    unchanged through a chain of relays; references to the locals of a listener are valid while its loop runs and
    dangle at every poll after it ended, until the runtime is dropped.
  \<^item> Udp: what is on the wire is what came in, for the resolved address and on the socket of its client, or was
    dropped or is pending, in every interleaving; the relay refines an abstract
    forwarder, batches are delivered, associations have their tasks on one thread and may lose them on several.
  \<^item> Configuration: precedence of the command line, an endpoint's own and the global options; which workers
    start; addresses and the old format.
\<close>

text \<open>
  \<^bold>\<open>Not modelled.\<close>

  \<^item> Logging, messages and help texts, the printing of versions, the choice of allocator and the runtime itself
    (only which one is asked for); that tokio schedules and wakes tasks fairly is nowhere assumed, only that a task runs between its awaits
    as the steps of \<open>Udp\<close> and \<open>Raw_Ref\<close> say.
  \<^item> The serializers and deserializers that serde derives; the tls and websocket transports, which are another crate's
    (their handshakes are the parameter \<open>kaminari\<close>).
  \<^item> What the crate daemonize does in the parent, which ends there; the options that tell clap how to print help.
  \<^item> The lock of the round robin: its selections are one after the other.
  \<^item> The tests, and the crate roots, which only re-export.
\<close>

end
